(* ===== verification/Prelude.thy ===== *)
theory Prelude
  imports Main "HOL-Library.Word" "HOL-Library.Sublist"
begin

text \<open>
  Shared vocabulary of the development: the machine integers and bytes of the C++
  code, reads of caller-supplied memory that can leave the buffer, the error-and-state
  computations in which the member functions are written, table lookups, and the
  generic lemmas on lists, slices and words that the component theories share.
\<close>

unbundle bit_operations_syntax

section \<open>Machine types\<close>

type_synonym u8 = "8 word"
type_synonym u16 = "16 word"
type_synonym u32 = "32 word"
type_synonym u64 = "64 word"
type_synonym bytes = "u8 list"

text \<open>Collections of facts the component theories extend.\<close>

named_theorems memory_safe \<open>computations that never leave their buffer\<close>
named_theorems step_simps \<open>equations that run one step of a member function\<close>

section \<open>Results of computations over memory\<close>

text \<open>
  \<open>Ok\<close> is a normal return. \<open>Err\<close> is a return with the error code set. \<open>Oob\<close> stands
  for undefined behaviour: a pointer outside the memory the caller supplied was
  dereferenced. Nothing recovers from \<open>Oob\<close>, so a theorem that a function does not
  return it is a memory-safety theorem.
\<close>

datatype ('e, 'a) outcome = Ok (the_ok: 'a) | Err (the_err: 'e) | Oob

definition ob :: "('e, 'a) outcome \<Rightarrow> ('a \<Rightarrow> ('e, 'b) outcome) \<Rightarrow> ('e, 'b) outcome" where
  "ob m f = (case m of Ok a \<Rightarrow> f a | Err e \<Rightarrow> Err e | Oob \<Rightarrow> Oob)"

lemma ob_simps [simp]:
  "ob (Ok a) f = f a"
  "ob (Err e) f = Err e"
  "ob Oob f = Oob"
  by (simp_all add: ob_def)

lemma ob_cong [fundef_cong]:
  "m = m' \<Longrightarrow> (\<And>a. m' = Ok a \<Longrightarrow> f a = f' a) \<Longrightarrow> ob m f = ob m' f'"
  by (cases m') auto

lemma ob_eq_Ok: "ob m f = Ok b \<longleftrightarrow> (\<exists>a. m = Ok a \<and> f a = Ok b)"
  by (cases m) auto

lemma ob_eq_Oob: "ob m f = Oob \<longleftrightarrow> m = Oob \<or> (\<exists>a. m = Ok a \<and> f a = Oob)"
  by (cases m) auto

lemma ob_eq_Err: "ob m f = Err e \<longleftrightarrow> m = Err e \<or> (\<exists>a. m = Ok a \<and> f a = Err e)"
  by (cases m) auto

lemma ob_not_Oob [memory_safe]:
  "m \<noteq> Oob \<Longrightarrow> (\<And>a. m = Ok a \<Longrightarrow> f a \<noteq> Oob) \<Longrightarrow> ob m f \<noteq> Oob"
  by (cases m) auto

text \<open>
  Member functions thread the object through: a computation from a state to an outcome
  and the state left behind, also when the outcome is an error.
\<close>

type_synonym ('s, 'e, 'a) act = "'s \<Rightarrow> ('e, 'a) outcome \<times> 's"

definition act_bind :: "('s, 'e, 'a) act \<Rightarrow> ('a \<Rightarrow> ('s, 'e, 'b) act) \<Rightarrow> ('s, 'e, 'b) act" where
  "act_bind m f s =
     (case m s of (Ok a, s') \<Rightarrow> f a s' | (Err e, s') \<Rightarrow> (Err e, s') | (Oob, s') \<Rightarrow> (Oob, s'))"

definition act_ret :: "'a \<Rightarrow> ('s, 'e, 'a) act" where
  "act_ret a s = (Ok a, s)"

definition act_err :: "'e \<Rightarrow> ('s, 'e, 'a) act" where
  "act_err e s = (Err e, s)"

definition act_lift :: "('e, 'a) outcome \<Rightarrow> ('s, 'e, 'a) act" where
  "act_lift m s = (m, s)"

definition act_get :: "('s \<Rightarrow> 'a) \<Rightarrow> ('s, 'e, 'a) act" where
  "act_get g s = (Ok (g s), s)"

definition act_put :: "('s \<Rightarrow> 's) \<Rightarrow> ('s, 'e, unit) act" where
  "act_put g s = (Ok (), g s)"

lemmas act_defs = act_ret_def act_err_def act_lift_def act_get_def act_put_def

lemma act_bind_simps [simp]:
  "m s = (Ok a, s') \<Longrightarrow> act_bind m f s = f a s'"
  "m s = (Err e, s') \<Longrightarrow> act_bind m f s = (Err e, s')"
  "m s = (Oob, s') \<Longrightarrow> act_bind m f s = (Oob, s')"
  by (simp_all add: act_bind_def)

lemma act_run [simp]:
  "act_bind (act_ret a) f s = f a s"
  "act_bind (act_err e) g s = (Err e, s)"
  "act_bind (act_get h) f s = f (h s) s"
  "act_bind (act_put u) k s = k () (u s)"
  "act_ret a s = (Ok a, s)"
  "act_err e s = (Err e, s)"
  "act_get h s = (Ok (h s), s)"
  "act_put u s = (Ok (), u s)"
  by (simp_all add: act_bind_def act_defs)

lemma act_bind_split:
  "P (act_bind m f s) \<longleftrightarrow>
     (\<forall>a s'. m s = (Ok a, s') \<longrightarrow> P (f a s')) \<and>
     (\<forall>e s'. m s = (Err e, s') \<longrightarrow> P (Err e, s')) \<and>
     (\<forall>s'. m s = (Oob, s') \<longrightarrow> P (Oob, s'))"
  by (cases "m s"; cases "fst (m s)") (auto simp: act_bind_def)

lemma act_bind_cong [fundef_cong]:
  "m s = m' s' \<Longrightarrow> s = s' \<Longrightarrow> (\<And>a t. m' s' = (Ok a, t) \<Longrightarrow> f a t = f' a t) \<Longrightarrow>
     act_bind m f s = act_bind m' f' s'"
  by (auto simp: act_bind_def split: prod.splits outcome.splits)

section \<open>Safe computations\<close>

text \<open>
  \<open>yields m P\<close>: \<open>m\<close> has defined behaviour and \<open>P\<close> holds of what it returns normally;
  \<open>runs m P\<close>: so does the member function \<open>m\<close> on every object.
\<close>

definition yields :: "('e, 'a) outcome \<Rightarrow> ('a \<Rightarrow> bool) \<Rightarrow> bool" where
  "yields m P = (case m of Ok a \<Rightarrow> P a | Err _ \<Rightarrow> True | Oob \<Rightarrow> False)"

lemma yields_simps [simp]:
  "yields (Ok a) P = P a"
  "yields (Err e) P"
  "\<not> yields Oob P"
  by (simp_all add: yields_def)

lemma yields_iff: "yields m P \<longleftrightarrow> m \<noteq> Oob \<and> (\<forall>a. m = Ok a \<longrightarrow> P a)"
  by (cases m) auto

lemma yields_ob: "yields m P \<Longrightarrow> (\<And>a. P a \<Longrightarrow> m = Ok a \<Longrightarrow> yields (f a) Q) \<Longrightarrow> yields (ob m f) Q"
  by (cases m) auto

lemma yields_mono: "yields m P \<Longrightarrow> (\<And>a. P a \<Longrightarrow> Q a) \<Longrightarrow> yields m Q"
  by (cases m) auto

lemma yields_if: "(b \<Longrightarrow> yields m P) \<Longrightarrow> (\<not> b \<Longrightarrow> yields n P) \<Longrightarrow> yields (if b then m else n) P"
  by simp

definition runs :: "('s, 'e, 'a) act \<Rightarrow> ('a \<Rightarrow> bool) \<Rightarrow> bool" where
  "runs m P \<longleftrightarrow> (\<forall>s. yields (fst (m s)) P)"

lemma runsI: "(\<And>s. yields (fst (m s)) P) \<Longrightarrow> runs m P"
  by (simp add: runs_def)

lemma runsD: "runs m P \<Longrightarrow> yields (fst (m s)) P"
  by (simp add: runs_def)

lemma runs_bind:
  assumes "runs m P" "\<And>a. P a \<Longrightarrow> runs (f a) Q"
  shows "runs (act_bind m f) Q"
proof (rule runsI)
  fix s
  show "yields (fst (act_bind m f s)) Q"
    using runsD [OF assms(1), of s] runsD [OF assms(2)]
    by (cases "m s"; cases "fst (m s)") (auto simp: act_bind_def)
qed

lemma runs_simps [simp]:
  "runs (act_ret a) P = P a"
  "runs (act_err e) P"
  "runs (act_lift m) P = yields m P"
  "runs (act_put u) Q = Q ()"
  by (simp_all add: runs_def act_defs)

lemma runs_get: "(\<And>a. P a) \<Longrightarrow> runs (act_get g) P"
  by (simp add: runs_def act_defs)

lemma runs_mono: "runs m P \<Longrightarrow> (\<And>a. P a \<Longrightarrow> Q a) \<Longrightarrow> runs m Q"
  by (auto simp: runs_def intro: yields_mono)

lemma runs_if: "(b \<Longrightarrow> runs m P) \<Longrightarrow> (\<not> b \<Longrightarrow> runs n P) \<Longrightarrow> runs (if b then m else n) P"
  by simp

section \<open>Memory: reads and slices\<close>

text \<open>
  A buffer \<open>[p, p + n)\<close> is the list of its \<open>n\<close> elements and a pointer into it is an
  offset from \<open>p\<close>. \<open>rd\<close> is the dereference.
\<close>

definition rd :: "'a list \<Rightarrow> nat \<Rightarrow> ('e, 'a) outcome" where
  "rd buf i = (if i < length buf then Ok (buf ! i) else Oob)"

lemma rd_ok [simp]: "i < length buf \<Longrightarrow> rd buf i = Ok (buf ! i)"
  by (simp add: rd_def)

lemma rd_eq_Ok: "rd buf i = Ok c \<longleftrightarrow> i < length buf \<and> c = buf ! i"
  by (auto simp: rd_def)

lemma rd_eq_Oob: "rd buf i = Oob \<longleftrightarrow> length buf \<le> i"
  by (simp add: rd_def)

lemma rd_not_Err [simp]: "rd buf i \<noteq> Err e"
  by (simp add: rd_def)

lemma yields_rd [simp]: "yields (rd buf i) P \<longleftrightarrow> i < length buf \<and> P (buf ! i)"
  by (simp add: rd_def)

lemma rd_append: "i < length xs \<Longrightarrow> rd (xs @ ys) i = rd xs i"
  by (simp add: rd_def nth_append)

text \<open>The bytes between two pointers.\<close>

definition slice :: "'a list \<Rightarrow> nat \<Rightarrow> nat \<Rightarrow> 'a list" where
  "slice buf i j = take (j - i) (drop i buf)"

lemma slice_empty [simp]: "j \<le> i \<Longrightarrow> slice buf i j = []"
  by (simp add: slice_def)

lemma length_slice [simp]: "j \<le> length buf \<Longrightarrow> length (slice buf i j) = j - i"
  by (simp add: slice_def)

lemma nth_slice [simp]: "i + k < j \<Longrightarrow> j \<le> length buf \<Longrightarrow> slice buf i j ! k = buf ! (i + k)"
  by (simp add: slice_def)

lemma slice_all [simp]: "slice buf 0 (length buf) = buf"
  by (simp add: slice_def)

lemma slice_append: "i \<le> j \<Longrightarrow> j \<le> k \<Longrightarrow> slice buf i j @ slice buf j k = slice buf i k"
proof -
  assume le: "i \<le> j" "j \<le> k"
  then have "k - i = (j - i) + (k - j)" and "j - i + i = j" by simp_all
  then show ?thesis
    by (simp only: slice_def take_add drop_drop)
qed

lemma slice_mid: "slice (xs @ ys @ zs) (length xs) (length xs + length ys) = ys"
  by (simp add: slice_def)

lemma set_slice: "set (slice buf i j) = {buf ! k | k. i \<le> k \<and> k < j \<and> k < length buf}"
proof (intro set_eqI iffI)
  fix x assume "x \<in> set (slice buf i j)"
  then obtain k where "k < length (slice buf i j)" "x = slice buf i j ! k"
    by (auto simp: in_set_conv_nth)
  then show "x \<in> {buf ! k | k. i \<le> k \<and> k < j \<and> k < length buf}"
    by (auto simp: slice_def intro!: exI [of _ "i + k"])
next
  fix x assume "x \<in> {buf ! k | k. i \<le> k \<and> k < j \<and> k < length buf}"
  then obtain k where "i \<le> k" "k < j" "k < length buf" "x = buf ! k" by auto
  then show "x \<in> set (slice buf i j)"
    by (auto simp: slice_def in_set_conv_nth intro!: exI [of _ "k - i"])
qed

section \<open>Tables\<close>

text \<open>
  The code classifies octets by static tables of 256 entries indexed with
  \<open>static_cast<unsigned char>(c)\<close>. A table is checked once against the map of a
  reference function over \<open>[0..<256]\<close>; a lookup then is the reference function.
\<close>

definition octet :: "char \<Rightarrow> nat" where
  "octet c = of_char c"

lemma octet_less [simp]: "octet c < 256"
  by (simp add: octet_def)

lemma octet_inj [simp]: "octet c = octet d \<longleftrightarrow> c = d"
  by (simp add: octet_def)

lemma char_of_octet [simp]: "char_of (octet c) = c"
  by (simp add: octet_def)

lemma octet_char_of [simp]: "n < 256 \<Longrightarrow> octet (char_of n) = n"
  by (simp add: octet_def)

lemma table_lookup: "tab = map f [0..<256] \<Longrightarrow> tab ! octet c = f (octet c)"
  by simp

lemma all_octets: "(\<forall>c. P (octet c)) \<longleftrightarrow> (\<forall>n < 256. P n)"
  by (metis octet_char_of octet_less)

section \<open>Words\<close>

lemma unat_u8_less [simp]: "unat (b :: u8) < 256"
  using unsigned_less [of b] by simp

lemma of_nat_unat_u8 [simp]: "of_nat (unat (b :: u8)) = b"
  by simp

lemma unat_of_nat_eq [simp]:
  "n < 2 ^ LENGTH('a) \<Longrightarrow> unat (of_nat n :: 'a::len word) = n"
  by (simp add: unat_of_nat take_bit_eq_mod)

lemma all_u8: "(\<forall>b :: u8. P b) \<longleftrightarrow> list_all (\<lambda>n. P (word_of_nat n)) [0..<256]"
proof
  assume "list_all (\<lambda>n. P (word_of_nat n)) [0..<256]"
  then have "P (word_of_nat (unat b))" for b :: u8
    unfolding list_all_iff by (metis atLeastLessThan_iff atLeastLessThan_upt le0 unat_u8_less)
  then show "\<forall>b :: u8. P b" by simp
qed (simp add: list_all_iff)

end
