(* ===== verification/Http_Chars.thy ===== *)
theory Http_Chars
  imports Prelude
begin

text \<open>
  Character classification: the lookup tables of \<open>include/beast/http/detail/rfc7230.hpp\<close>,
  of \<open>basic_parser_base\<close> in \<open>include/beast/http/detail/basic_parser.hpp\<close> and of
  \<open>include/beast/core/detail/ci_char_traits.hpp\<close>, entry by entry, and the RFC 7230
  character classes they are meant to be. A table is compared with its class once, by
  evaluation; the equivalences \<open>is_X c \<longleftrightarrow> rfc_X (octet c)\<close> are in the
  collection \<open>char_classes\<close>.
\<close>

named_theorems char_classes \<open>table lookups as RFC character classes\<close>
named_theorems table_eqs \<open>tables as maps over the octets\<close>

section \<open>The classes of RFC 7230\<close>

definition rfc_digit :: "nat \<Rightarrow> bool" where
  "rfc_digit n \<longleftrightarrow> 48 \<le> n \<and> n \<le> 57"

definition rfc_alpha :: "nat \<Rightarrow> bool" where
  "rfc_alpha n \<longleftrightarrow> 65 \<le> n \<and> n \<le> 90 \<or> 97 \<le> n \<and> n \<le> 122"

definition rfc_vchar :: "nat \<Rightarrow> bool" where
  "rfc_vchar n \<longleftrightarrow> 33 \<le> n \<and> n \<le> 126"

definition rfc_obs_text :: "nat \<Rightarrow> bool" where
  "rfc_obs_text n \<longleftrightarrow> 128 \<le> n \<and> n \<le> 255"

definition rfc_text :: "nat \<Rightarrow> bool" where
  "rfc_text n \<longleftrightarrow> n = 9 \<or> n = 32 \<or> rfc_vchar n \<or> rfc_obs_text n"

definition rfc_tchar :: "nat \<Rightarrow> bool" where
  "rfc_tchar n \<longleftrightarrow> rfc_digit n \<or> rfc_alpha n \<or>
     n \<in> set (map of_char ''!#$%&*+-.^_|~'') \<or> n = 39 \<or> n = 96"

definition rfc_qdtext :: "nat \<Rightarrow> bool" where
  "rfc_qdtext n \<longleftrightarrow> rfc_text n \<and> n \<noteq> 34 \<and> n \<noteq> 92"

definition rfc_hexval :: "nat \<Rightarrow> int option" where
  "rfc_hexval n =
     (if rfc_digit n then Some (int n - 48)
      else if 65 \<le> n \<and> n \<le> 70 then Some (int n - 55)
      else if 97 \<le> n \<and> n \<le> 102 then Some (int n - 87)
      else None)"

definition ascii_lower :: "nat \<Rightarrow> nat" where
  "ascii_lower n = (if 65 \<le> n \<and> n \<le> 90 then n + 32 else n)"

lemmas rfc_class_defs = rfc_digit_def rfc_alpha_def rfc_vchar_def rfc_obs_text_def
  rfc_text_def rfc_tchar_def rfc_qdtext_def

section \<open>Tables of rfc7230.hpp\<close>

definition is_digit :: "char \<Rightarrow> bool" where
  "is_digit c \<longleftrightarrow> octet CHR ''0'' \<le> octet c \<and> octet c \<le> octet CHR ''9''"

definition is_alpha_tab :: "nat list" where
  "is_alpha_tab = [
    0, 0, 0, 0, 0, 0, 0, 0, 0, 0, 0, 0, 0, 0, 0, 0,
    0, 0, 0, 0, 0, 0, 0, 0, 0, 0, 0, 0, 0, 0, 0, 0,
    0, 0, 0, 0, 0, 0, 0, 0, 0, 0, 0, 0, 0, 0, 0, 0,
    0, 0, 0, 0, 0, 0, 0, 0, 0, 0, 0, 0, 0, 0, 0, 0,
    0, 1, 1, 1, 1, 1, 1, 1, 1, 1, 1, 1, 1, 1, 1, 1,
    1, 1, 1, 1, 1, 1, 1, 1, 1, 1, 1, 0, 0, 0, 0, 0,
    0, 1, 1, 1, 1, 1, 1, 1, 1, 1, 1, 1, 1, 1, 1, 1,
    1, 1, 1, 1, 1, 1, 1, 1, 1, 1, 1, 0, 0, 0, 0, 0,
    0, 0, 0, 0, 0, 0, 0, 0, 0, 0, 0, 0, 0, 0, 0, 0,
    0, 0, 0, 0, 0, 0, 0, 0, 0, 0, 0, 0, 0, 0, 0, 0,
    0, 0, 0, 0, 0, 0, 0, 0, 0, 0, 0, 0, 0, 0, 0, 0,
    0, 0, 0, 0, 0, 0, 0, 0, 0, 0, 0, 0, 0, 0, 0, 0,
    0, 0, 0, 0, 0, 0, 0, 0, 0, 0, 0, 0, 0, 0, 0, 0,
    0, 0, 0, 0, 0, 0, 0, 0, 0, 0, 0, 0, 0, 0, 0, 0,
    0, 0, 0, 0, 0, 0, 0, 0, 0, 0, 0, 0, 0, 0, 0, 0,
    0, 0, 0, 0, 0, 0, 0, 0, 0, 0, 0, 0, 0, 0, 0, 0]"

definition is_alpha :: "char \<Rightarrow> bool" where
  "is_alpha c \<longleftrightarrow> is_alpha_tab ! octet c \<noteq> 0"

definition is_text_tab :: "nat list" where
  "is_text_tab = [
    0, 0, 0, 0, 0, 0, 0, 0, 0, 1, 0, 0, 0, 0, 0, 0,
    0, 0, 0, 0, 0, 0, 0, 0, 0, 0, 0, 0, 0, 0, 0, 0,
    1, 1, 1, 1, 1, 1, 1, 1, 1, 1, 1, 1, 1, 1, 1, 1,
    1, 1, 1, 1, 1, 1, 1, 1, 1, 1, 1, 1, 1, 1, 1, 1,
    1, 1, 1, 1, 1, 1, 1, 1, 1, 1, 1, 1, 1, 1, 1, 1,
    1, 1, 1, 1, 1, 1, 1, 1, 1, 1, 1, 1, 1, 1, 1, 1,
    1, 1, 1, 1, 1, 1, 1, 1, 1, 1, 1, 1, 1, 1, 1, 1,
    1, 1, 1, 1, 1, 1, 1, 1, 1, 1, 1, 1, 1, 1, 1, 0,
    1, 1, 1, 1, 1, 1, 1, 1, 1, 1, 1, 1, 1, 1, 1, 1,
    1, 1, 1, 1, 1, 1, 1, 1, 1, 1, 1, 1, 1, 1, 1, 1,
    1, 1, 1, 1, 1, 1, 1, 1, 1, 1, 1, 1, 1, 1, 1, 1,
    1, 1, 1, 1, 1, 1, 1, 1, 1, 1, 1, 1, 1, 1, 1, 1,
    1, 1, 1, 1, 1, 1, 1, 1, 1, 1, 1, 1, 1, 1, 1, 1,
    1, 1, 1, 1, 1, 1, 1, 1, 1, 1, 1, 1, 1, 1, 1, 1,
    1, 1, 1, 1, 1, 1, 1, 1, 1, 1, 1, 1, 1, 1, 1, 1,
    1, 1, 1, 1, 1, 1, 1, 1, 1, 1, 1, 1, 1, 1, 1, 1]"

definition is_text :: "char \<Rightarrow> bool" where
  "is_text c \<longleftrightarrow> is_text_tab ! octet c \<noteq> 0"

definition is_tchar_tab :: "nat list" where
  "is_tchar_tab = [
    0, 0, 0, 0, 0, 0, 0, 0, 0, 0, 0, 0, 0, 0, 0, 0,
    0, 0, 0, 0, 0, 0, 0, 0, 0, 0, 0, 0, 0, 0, 0, 0,
    0, 1, 0, 1, 1, 1, 1, 1, 0, 0, 1, 1, 0, 1, 1, 0,
    1, 1, 1, 1, 1, 1, 1, 1, 1, 1, 0, 0, 0, 0, 0, 0,
    0, 1, 1, 1, 1, 1, 1, 1, 1, 1, 1, 1, 1, 1, 1, 1,
    1, 1, 1, 1, 1, 1, 1, 1, 1, 1, 1, 0, 0, 0, 1, 1,
    1, 1, 1, 1, 1, 1, 1, 1, 1, 1, 1, 1, 1, 1, 1, 1,
    1, 1, 1, 1, 1, 1, 1, 1, 1, 1, 1, 0, 1, 0, 1, 0,
    0, 0, 0, 0, 0, 0, 0, 0, 0, 0, 0, 0, 0, 0, 0, 0,
    0, 0, 0, 0, 0, 0, 0, 0, 0, 0, 0, 0, 0, 0, 0, 0,
    0, 0, 0, 0, 0, 0, 0, 0, 0, 0, 0, 0, 0, 0, 0, 0,
    0, 0, 0, 0, 0, 0, 0, 0, 0, 0, 0, 0, 0, 0, 0, 0,
    0, 0, 0, 0, 0, 0, 0, 0, 0, 0, 0, 0, 0, 0, 0, 0,
    0, 0, 0, 0, 0, 0, 0, 0, 0, 0, 0, 0, 0, 0, 0, 0,
    0, 0, 0, 0, 0, 0, 0, 0, 0, 0, 0, 0, 0, 0, 0, 0,
    0, 0, 0, 0, 0, 0, 0, 0, 0, 0, 0, 0, 0, 0, 0, 0]"

definition is_tchar :: "char \<Rightarrow> bool" where
  "is_tchar c \<longleftrightarrow> is_tchar_tab ! octet c \<noteq> 0"

definition is_qdchar_tab :: "nat list" where
  "is_qdchar_tab = [
    0, 0, 0, 0, 0, 0, 0, 0, 0, 1, 0, 0, 0, 0, 0, 0,
    0, 0, 0, 0, 0, 0, 0, 0, 0, 0, 0, 0, 0, 0, 0, 0,
    1, 1, 0, 1, 1, 1, 1, 1, 1, 1, 1, 1, 1, 1, 1, 1,
    1, 1, 1, 1, 1, 1, 1, 1, 1, 1, 1, 1, 1, 1, 1, 1,
    1, 1, 1, 1, 1, 1, 1, 1, 1, 1, 1, 1, 1, 1, 1, 1,
    1, 1, 1, 1, 1, 1, 1, 1, 1, 1, 1, 1, 0, 1, 1, 1,
    1, 1, 1, 1, 1, 1, 1, 1, 1, 1, 1, 1, 1, 1, 1, 1,
    1, 1, 1, 1, 1, 1, 1, 1, 1, 1, 1, 1, 1, 1, 1, 0,
    1, 1, 1, 1, 1, 1, 1, 1, 1, 1, 1, 1, 1, 1, 1, 1,
    1, 1, 1, 1, 1, 1, 1, 1, 1, 1, 1, 1, 1, 1, 1, 1,
    1, 1, 1, 1, 1, 1, 1, 1, 1, 1, 1, 1, 1, 1, 1, 1,
    1, 1, 1, 1, 1, 1, 1, 1, 1, 1, 1, 1, 1, 1, 1, 1,
    1, 1, 1, 1, 1, 1, 1, 1, 1, 1, 1, 1, 1, 1, 1, 1,
    1, 1, 1, 1, 1, 1, 1, 1, 1, 1, 1, 1, 1, 1, 1, 1,
    1, 1, 1, 1, 1, 1, 1, 1, 1, 1, 1, 1, 1, 1, 1, 1,
    1, 1, 1, 1, 1, 1, 1, 1, 1, 1, 1, 1, 1, 1, 1, 1]"

definition is_qdchar :: "char \<Rightarrow> bool" where
  "is_qdchar c \<longleftrightarrow> is_qdchar_tab ! octet c \<noteq> 0"

definition is_qpchar_tab :: "nat list" where
  "is_qpchar_tab = [
    0, 0, 0, 0, 0, 0, 0, 0, 0, 1, 0, 0, 0, 0, 0, 0,
    0, 0, 0, 0, 0, 0, 0, 0, 0, 0, 0, 0, 0, 0, 0, 0,
    1, 1, 1, 1, 1, 1, 1, 1, 1, 1, 1, 1, 1, 1, 1, 1,
    1, 1, 1, 1, 1, 1, 1, 1, 1, 1, 1, 1, 1, 1, 1, 1,
    1, 1, 1, 1, 1, 1, 1, 1, 1, 1, 1, 1, 1, 1, 1, 1,
    1, 1, 1, 1, 1, 1, 1, 1, 1, 1, 1, 1, 1, 1, 1, 1,
    1, 1, 1, 1, 1, 1, 1, 1, 1, 1, 1, 1, 1, 1, 1, 1,
    1, 1, 1, 1, 1, 1, 1, 1, 1, 1, 1, 1, 1, 1, 1, 0,
    1, 1, 1, 1, 1, 1, 1, 1, 1, 1, 1, 1, 1, 1, 1, 1,
    1, 1, 1, 1, 1, 1, 1, 1, 1, 1, 1, 1, 1, 1, 1, 1,
    1, 1, 1, 1, 1, 1, 1, 1, 1, 1, 1, 1, 1, 1, 1, 1,
    1, 1, 1, 1, 1, 1, 1, 1, 1, 1, 1, 1, 1, 1, 1, 1,
    1, 1, 1, 1, 1, 1, 1, 1, 1, 1, 1, 1, 1, 1, 1, 1,
    1, 1, 1, 1, 1, 1, 1, 1, 1, 1, 1, 1, 1, 1, 1, 1,
    1, 1, 1, 1, 1, 1, 1, 1, 1, 1, 1, 1, 1, 1, 1, 1,
    1, 1, 1, 1, 1, 1, 1, 1, 1, 1, 1, 1, 1, 1, 1, 1]"

definition is_qpchar :: "char \<Rightarrow> bool" where
  "is_qpchar c \<longleftrightarrow> is_qpchar_tab ! octet c \<noteq> 0"

definition to_field_char_tab :: "nat list" where
  "to_field_char_tab = [
    0, 0, 0, 0, 0, 0, 0, 0, 0, 0, 0, 0, 0, 0, 0, 0,
    0, 0, 0, 0, 0, 0, 0, 0, 0, 0, 0, 0, 0, 0, 0, 0,
    0, 33, 0, 35, 36, 37, 38, 39, 0, 0, 42, 43, 0, 45, 46, 0,
    48, 49, 50, 51, 52, 53, 54, 55, 56, 57, 0, 0, 0, 0, 0, 0,
    0, 97, 98, 99, 100, 101, 102, 103, 104, 105, 106, 107, 108, 109, 110, 111,
    112, 113, 114, 115, 116, 117, 118, 119, 120, 121, 122, 0, 0, 0, 94, 95,
    96, 97, 98, 99, 100, 101, 102, 103, 104, 105, 106, 107, 108, 109, 110, 111,
    112, 113, 114, 115, 116, 117, 118, 119, 120, 121, 122, 0, 124, 0, 126, 0,
    0, 0, 0, 0, 0, 0, 0, 0, 0, 0, 0, 0, 0, 0, 0, 0,
    0, 0, 0, 0, 0, 0, 0, 0, 0, 0, 0, 0, 0, 0, 0, 0,
    0, 0, 0, 0, 0, 0, 0, 0, 0, 0, 0, 0, 0, 0, 0, 0,
    0, 0, 0, 0, 0, 0, 0, 0, 0, 0, 0, 0, 0, 0, 0, 0,
    0, 0, 0, 0, 0, 0, 0, 0, 0, 0, 0, 0, 0, 0, 0, 0,
    0, 0, 0, 0, 0, 0, 0, 0, 0, 0, 0, 0, 0, 0, 0, 0,
    0, 0, 0, 0, 0, 0, 0, 0, 0, 0, 0, 0, 0, 0, 0, 0,
    0, 0, 0, 0, 0, 0, 0, 0, 0, 0, 0, 0, 0, 0, 0, 0]"

definition to_field_char :: "char \<Rightarrow> char" where
  "to_field_char c = char_of (to_field_char_tab ! octet c)"

definition to_value_char_tab :: "nat list" where
  "to_value_char_tab = [
    0, 0, 0, 0, 0, 0, 0, 0, 0, 9, 0, 0, 0, 0, 0, 0,
    0, 0, 0, 0, 0, 0, 0, 0, 0, 0, 0, 0, 0, 0, 0, 0,
    32, 33, 34, 35, 36, 37, 38, 39, 40, 41, 42, 43, 44, 45, 46, 47,
    48, 49, 50, 51, 52, 53, 54, 55, 56, 57, 58, 59, 60, 61, 62, 63,
    64, 97, 98, 99, 100, 101, 102, 103, 104, 105, 106, 107, 108, 109, 110, 111,
    112, 113, 114, 115, 116, 117, 118, 119, 120, 121, 122, 91, 92, 93, 94, 95,
    96, 97, 98, 99, 100, 101, 102, 103, 104, 105, 106, 107, 108, 109, 110, 111,
    112, 113, 114, 115, 116, 117, 118, 119, 120, 121, 122, 123, 124, 125, 126, 0,
    128, 129, 130, 131, 132, 133, 134, 135, 136, 137, 138, 139, 140, 141, 142, 143,
    144, 145, 146, 147, 148, 149, 150, 151, 152, 153, 154, 155, 156, 157, 158, 159,
    160, 161, 162, 163, 164, 165, 166, 167, 168, 169, 170, 171, 172, 173, 174, 175,
    176, 177, 178, 179, 180, 181, 182, 183, 184, 185, 186, 187, 188, 189, 190, 191,
    192, 193, 194, 195, 196, 197, 198, 199, 200, 201, 202, 203, 204, 205, 206, 207,
    208, 209, 210, 211, 212, 213, 214, 215, 216, 217, 218, 219, 220, 221, 222, 223,
    224, 225, 226, 227, 228, 229, 230, 231, 232, 233, 234, 235, 236, 237, 238, 239,
    240, 241, 242, 243, 244, 245, 246, 247, 248, 249, 250, 251, 252, 253, 254, 255]"

definition to_value_char :: "char \<Rightarrow> char" where
  "to_value_char c = char_of (to_value_char_tab ! octet c)"

definition hex_digit_tab :: "int list" where
  "hex_digit_tab = [
    -1, -1, -1, -1, -1, -1, -1, -1, -1, -1, -1, -1, -1, -1, -1, -1,
    -1, -1, -1, -1, -1, -1, -1, -1, -1, -1, -1, -1, -1, -1, -1, -1,
    -1, -1, -1, -1, -1, -1, -1, -1, -1, -1, -1, -1, -1, -1, -1, -1,
    0, 1, 2, 3, 4, 5, 6, 7, 8, 9, -1, -1, -1, -1, -1, -1,
    -1, 10, 11, 12, 13, 14, 15, -1, -1, -1, -1, -1, -1, -1, -1, -1,
    -1, -1, -1, -1, -1, -1, -1, -1, -1, -1, -1, -1, -1, -1, -1, -1,
    -1, 10, 11, 12, 13, 14, 15, -1, -1, -1, -1, -1, -1, -1, -1, -1,
    -1, -1, -1, -1, -1, -1, -1, -1, -1, -1, -1, -1, -1, -1, -1, -1,
    -1, -1, -1, -1, -1, -1, -1, -1, -1, -1, -1, -1, -1, -1, -1, -1,
    -1, -1, -1, -1, -1, -1, -1, -1, -1, -1, -1, -1, -1, -1, -1, -1,
    -1, -1, -1, -1, -1, -1, -1, -1, -1, -1, -1, -1, -1, -1, -1, -1,
    -1, -1, -1, -1, -1, -1, -1, -1, -1, -1, -1, -1, -1, -1, -1, -1,
    -1, -1, -1, -1, -1, -1, -1, -1, -1, -1, -1, -1, -1, -1, -1, -1,
    -1, -1, -1, -1, -1, -1, -1, -1, -1, -1, -1, -1, -1, -1, -1, -1,
    -1, -1, -1, -1, -1, -1, -1, -1, -1, -1, -1, -1, -1, -1, -1, -1,
    -1, -1, -1, -1, -1, -1, -1, -1, -1, -1, -1, -1, -1, -1, -1, -1]"

definition hex_digit :: "char \<Rightarrow> int" where
  "hex_digit c = hex_digit_tab ! octet c"

section \<open>Case conversion\<close>

definition tolower_tab :: "nat list" where
  "tolower_tab = [
    0, 1, 2, 3, 4, 5, 6, 7, 8, 9, 10, 11, 12, 13, 14, 15,
    16, 17, 18, 19, 20, 21, 22, 23, 24, 25, 26, 27, 28, 29, 30, 31,
    32, 33, 34, 35, 36, 37, 38, 39, 40, 41, 42, 43, 44, 45, 46, 47,
    48, 49, 50, 51, 52, 53, 54, 55, 56, 57, 58, 59, 60, 61, 62, 63,
    64, 97, 98, 99, 100, 101, 102, 103, 104, 105, 106, 107, 108, 109, 110, 111,
    112, 113, 114, 115, 116, 117, 118, 119, 120, 121, 122, 91, 92, 93, 94, 95,
    96, 97, 98, 99, 100, 101, 102, 103, 104, 105, 106, 107, 108, 109, 110, 111,
    112, 113, 114, 115, 116, 117, 118, 119, 120, 121, 122, 123, 124, 125, 126, 127,
    128, 129, 130, 131, 132, 133, 134, 135, 136, 137, 138, 139, 140, 141, 142, 143,
    144, 145, 146, 147, 148, 149, 150, 151, 152, 153, 154, 155, 156, 157, 158, 159,
    160, 161, 162, 163, 164, 165, 166, 167, 168, 169, 170, 171, 172, 173, 174, 175,
    176, 177, 178, 179, 180, 181, 182, 183, 184, 185, 186, 187, 188, 189, 190, 191,
    192, 193, 194, 195, 196, 197, 198, 199, 200, 201, 202, 203, 204, 205, 206, 207,
    208, 209, 210, 211, 212, 213, 214, 215, 216, 217, 218, 219, 220, 221, 222, 223,
    224, 225, 226, 227, 228, 229, 230, 231, 232, 233, 234, 235, 236, 237, 238, 239,
    240, 241, 242, 243, 244, 245, 246, 247, 248, 249, 250, 251, 252, 253, 254, 255]"

definition beast_tolower :: "char \<Rightarrow> char" where
  "beast_tolower c = char_of (tolower_tab ! octet c)"

text \<open>
  \<open>tolower\<close> of the C library in the default locale, which \<open>strieq\<close> of the parser calls.
\<close>

definition c_tolower :: "char \<Rightarrow> char" where
  "c_tolower c = char_of (ascii_lower (octet c))"

definition ci_equal :: "string \<Rightarrow> string \<Rightarrow> bool" where
  "ci_equal s1 s2 \<longleftrightarrow> list_all2 (\<lambda>c1 c2. beast_tolower c1 = beast_tolower c2) s1 s2"

text \<open>\<open>std::lexicographical_compare\<close> with the comparison of \<open>ci_less\<close>.
  \<open>tolower\<close> returns \<open>char\<close>, which is signed on the modelled platform, so octets from 128
  compare below ASCII.\<close>

definition schar :: "char \<Rightarrow> int" where
  "schar c = (if octet c < 128 then int (octet c) else int (octet c) - 256)"

fun ci_less :: "string \<Rightarrow> string \<Rightarrow> bool" where
  "ci_less xs [] \<longleftrightarrow> False"
| "ci_less [] (y # ys) \<longleftrightarrow> True"
| "ci_less (x # xs) (y # ys) \<longleftrightarrow>
     (let a = schar (beast_tolower x); b = schar (beast_tolower y)
      in if a < b then True else if b < a then False else ci_less xs ys)"

section \<open>Tables of the parser base\<close>

definition is_pathchar_tab :: "nat list" where
  "is_pathchar_tab = [
    0, 0, 0, 0, 0, 0, 0, 0, 0, 0, 0, 0, 0, 0, 0, 0,
    0, 0, 0, 0, 0, 0, 0, 0, 0, 0, 0, 0, 0, 0, 0, 0,
    0, 1, 1, 1, 1, 1, 1, 1, 1, 1, 1, 1, 1, 1, 1, 1,
    1, 1, 1, 1, 1, 1, 1, 1, 1, 1, 1, 1, 1, 1, 1, 1,
    1, 1, 1, 1, 1, 1, 1, 1, 1, 1, 1, 1, 1, 1, 1, 1,
    1, 1, 1, 1, 1, 1, 1, 1, 1, 1, 1, 1, 1, 1, 1, 1,
    1, 1, 1, 1, 1, 1, 1, 1, 1, 1, 1, 1, 1, 1, 1, 1,
    1, 1, 1, 1, 1, 1, 1, 1, 1, 1, 1, 1, 1, 1, 1, 0,
    1, 1, 1, 1, 1, 1, 1, 1, 1, 1, 1, 1, 1, 1, 1, 1,
    1, 1, 1, 1, 1, 1, 1, 1, 1, 1, 1, 1, 1, 1, 1, 1,
    1, 1, 1, 1, 1, 1, 1, 1, 1, 1, 1, 1, 1, 1, 1, 1,
    1, 1, 1, 1, 1, 1, 1, 1, 1, 1, 1, 1, 1, 1, 1, 1,
    1, 1, 1, 1, 1, 1, 1, 1, 1, 1, 1, 1, 1, 1, 1, 1,
    1, 1, 1, 1, 1, 1, 1, 1, 1, 1, 1, 1, 1, 1, 1, 1,
    1, 1, 1, 1, 1, 1, 1, 1, 1, 1, 1, 1, 1, 1, 1, 1,
    1, 1, 1, 1, 1, 1, 1, 1, 1, 1, 1, 1, 1, 1, 1, 1]"

definition is_pathchar :: "char \<Rightarrow> bool" where
  "is_pathchar c \<longleftrightarrow> is_pathchar_tab ! octet c \<noteq> 0"

definition is_value_char_tab :: "nat list" where
  "is_value_char_tab = [
    0, 0, 0, 0, 0, 0, 0, 0, 0, 0, 0, 0, 0, 0, 0, 0,
    0, 0, 0, 0, 0, 0, 0, 0, 0, 0, 0, 0, 0, 0, 0, 0,
    0, 1, 1, 1, 1, 1, 1, 1, 1, 1, 1, 1, 1, 1, 1, 1,
    1, 1, 1, 1, 1, 1, 1, 1, 1, 1, 1, 1, 1, 1, 1, 1,
    1, 1, 1, 1, 1, 1, 1, 1, 1, 1, 1, 1, 1, 1, 1, 1,
    1, 1, 1, 1, 1, 1, 1, 1, 1, 1, 1, 1, 1, 1, 1, 1,
    1, 1, 1, 1, 1, 1, 1, 1, 1, 1, 1, 1, 1, 1, 1, 1,
    1, 1, 1, 1, 1, 1, 1, 1, 1, 1, 1, 1, 1, 1, 1, 0,
    1, 1, 1, 1, 1, 1, 1, 1, 1, 1, 1, 1, 1, 1, 1, 1,
    1, 1, 1, 1, 1, 1, 1, 1, 1, 1, 1, 1, 1, 1, 1, 1,
    1, 1, 1, 1, 1, 1, 1, 1, 1, 1, 1, 1, 1, 1, 1, 1,
    1, 1, 1, 1, 1, 1, 1, 1, 1, 1, 1, 1, 1, 1, 1, 1,
    1, 1, 1, 1, 1, 1, 1, 1, 1, 1, 1, 1, 1, 1, 1, 1,
    1, 1, 1, 1, 1, 1, 1, 1, 1, 1, 1, 1, 1, 1, 1, 1,
    1, 1, 1, 1, 1, 1, 1, 1, 1, 1, 1, 1, 1, 1, 1, 1,
    1, 1, 1, 1, 1, 1, 1, 1, 1, 1, 1, 1, 1, 1, 1, 1]"

definition is_value_char :: "char \<Rightarrow> bool" where
  "is_value_char c \<longleftrightarrow> is_value_char_tab ! octet c \<noteq> 0"

definition parser_is_text_tab :: "nat list" where
  "parser_is_text_tab = [
    0, 0, 0, 0, 0, 0, 0, 0, 0, 1, 0, 0, 0, 0, 0, 0,
    0, 0, 0, 0, 0, 0, 0, 0, 0, 0, 0, 0, 0, 0, 0, 0,
    1, 1, 1, 1, 1, 1, 1, 1, 1, 1, 1, 1, 1, 1, 1, 1,
    1, 1, 1, 1, 1, 1, 1, 1, 1, 1, 1, 1, 1, 1, 1, 1,
    1, 1, 1, 1, 1, 1, 1, 1, 1, 1, 1, 1, 1, 1, 1, 1,
    1, 1, 1, 1, 1, 1, 1, 1, 1, 1, 1, 1, 1, 1, 1, 1,
    1, 1, 1, 1, 1, 1, 1, 1, 1, 1, 1, 1, 1, 1, 1, 1,
    1, 1, 1, 1, 1, 1, 1, 1, 1, 1, 1, 1, 1, 1, 1, 0,
    1, 1, 1, 1, 1, 1, 1, 1, 1, 1, 1, 1, 1, 1, 1, 1,
    1, 1, 1, 1, 1, 1, 1, 1, 1, 1, 1, 1, 1, 1, 1, 1,
    1, 1, 1, 1, 1, 1, 1, 1, 1, 1, 1, 1, 1, 1, 1, 1,
    1, 1, 1, 1, 1, 1, 1, 1, 1, 1, 1, 1, 1, 1, 1, 1,
    1, 1, 1, 1, 1, 1, 1, 1, 1, 1, 1, 1, 1, 1, 1, 1,
    1, 1, 1, 1, 1, 1, 1, 1, 1, 1, 1, 1, 1, 1, 1, 1,
    1, 1, 1, 1, 1, 1, 1, 1, 1, 1, 1, 1, 1, 1, 1, 1,
    1, 1, 1, 1, 1, 1, 1, 1, 1, 1, 1, 1, 1, 1, 1, 1]"

definition parser_is_text :: "char \<Rightarrow> bool" where
  "parser_is_text c \<longleftrightarrow> parser_is_text_tab ! octet c \<noteq> 0"

text \<open>
  The initialiser of \<open>unhex\<close>'s table lacks the commas at the end of eight of its rows, so
  the last entry of such a row and the first of the next are one expression \<open>-1 -1\<close>. That
  leaves 248 initialisers for 256 elements, and the elements without one are zero. The
  result is converted to \<open>unsigned char\<close>.
\<close>

definition unhex_init :: "int list" where
  "unhex_init = [
    -1, -1, -1, -1, -1, -1, -1, -1, -1, -1, -1, -1, -1, -1, -1, -1,
    -1, -1, -1, -1, -1, -1, -1, -1, -1, -1, -1, -1, -1, -1, -1, -1,
    -1, -1, -1, -1, -1, -1, -1, -1, -1, -1, -1, -1, -1, -1, -1, -1,
    0, 1, 2, 3, 4, 5, 6, 7, 8, 9, -1, -1, -1, -1, -1, -1,
    -1, 10, 11, 12, 13, 14, 15, -1, -1, -1, -1, -1, -1, -1, -1, -1,
    -1, -1, -1, -1, -1, -1, -1, -1, -1, -1, -1, -1, -1, -1, -1, -1,
    -1, 10, 11, 12, 13, 14, 15, -1, -1, -1, -1, -1, -1, -1, -1, -1,
    -1, -1, -1, -1, -1, -1, -1, -1, -1, -1, -1, -1, -1, -1, -1, -1 - 1,
    -1, -1, -1, -1, -1, -1, -1, -1, -1, -1, -1, -1, -1, -1, -1 - 1, -1,
    -1, -1, -1, -1, -1, -1, -1, -1, -1, -1, -1, -1, -1, -1 - 1, -1, -1,
    -1, -1, -1, -1, -1, -1, -1, -1, -1, -1, -1, -1, -1 - 1, -1, -1, -1,
    -1, -1, -1, -1, -1, -1, -1, -1, -1, -1, -1, -1 - 1, -1, -1, -1, -1,
    -1, -1, -1, -1, -1, -1, -1, -1, -1, -1, -1 - 1, -1, -1, -1, -1, -1,
    -1, -1, -1, -1, -1, -1, -1, -1, -1, -1 - 1, -1, -1, -1, -1, -1, -1,
    -1, -1, -1, -1, -1, -1, -1, -1, -1 - 1, -1, -1, -1, -1, -1, -1, -1,
    -1, -1, -1, -1, -1, -1, -1, -1]"

definition unhex_tab :: "int list" where
  "unhex_tab = unhex_init @ replicate (256 - length unhex_init) 0"

definition unhex :: "char \<Rightarrow> nat option" where
  "unhex c = (let d = nat (unhex_tab ! octet c mod 256) in if d \<noteq> 255 then Some d else None)"

definition parser_is_digit :: "char \<Rightarrow> bool" where
  "parser_is_digit c \<longleftrightarrow> (of_nat (octet c) - 48 :: u8) < 10"

definition is_print :: "char \<Rightarrow> bool" where
  "is_print c \<longleftrightarrow> (of_nat (octet c) - 33 :: u8) < 94"

section \<open>The tables are the classes\<close>

text \<open>The 256 octets, enumerated once for the comparisons below.\<close>

lemma octets_enum: "[0..<256] = [
    0, 1, 2, 3, 4, 5, 6, 7, 8, 9, 10, 11, 12, 13, 14, 15, 16, 17, 18, 19, 20, 21, 22, 23, 24,
    25, 26, 27, 28, 29, 30, 31, 32, 33, 34, 35, 36, 37, 38, 39, 40, 41, 42, 43, 44, 45, 46,
    47, 48, 49, 50, 51, 52, 53, 54, 55, 56, 57, 58, 59, 60, 61, 62, 63, 64, 65, 66, 67, 68,
    69, 70, 71, 72, 73, 74, 75, 76, 77, 78, 79, 80, 81, 82, 83, 84, 85, 86, 87, 88, 89, 90,
    91, 92, 93, 94, 95, 96, 97, 98, 99, 100, 101, 102, 103, 104, 105, 106, 107, 108, 109, 110,
    111, 112, 113, 114, 115, 116, 117, 118, 119, 120, 121, 122, 123, 124, 125, 126, 127, 128,
    129, 130, 131, 132, 133, 134, 135, 136, 137, 138, 139, 140, 141, 142, 143, 144, 145, 146,
    147, 148, 149, 150, 151, 152, 153, 154, 155, 156, 157, 158, 159, 160, 161, 162, 163, 164,
    165, 166, 167, 168, 169, 170, 171, 172, 173, 174, 175, 176, 177, 178, 179, 180, 181, 182,
    183, 184, 185, 186, 187, 188, 189, 190, 191, 192, 193, 194, 195, 196, 197, 198, 199, 200,
    201, 202, 203, 204, 205, 206, 207, 208, 209, 210, 211, 212, 213, 214, 215, 216, 217, 218,
    219, 220, 221, 222, 223, 224, 225, 226, 227, 228, 229, 230, 231, 232, 233, 234, 235, 236,
    237, 238, 239, 240, 241, 242, 243, 244, 245, 246, 247, 248, 249, 250, 251, 252, 253, 254,
    255]"
  by (simp add: upt_rec)

lemma replicate8: "replicate 8 x = [x, x, x, x, x, x, x, x]"
  by (simp add: eval_nat_numeral)

lemmas rfc_class_simps = rfc_class_defs rfc_hexval_def ascii_lower_def

lemma is_alpha_tab_eq [table_eqs]: "is_alpha_tab = map (\<lambda>n. if rfc_alpha n then 1 else 0) [0..<256]"
  by (simp add: octets_enum is_alpha_tab_def rfc_class_simps)

lemma is_text_tab_eq [table_eqs]: "is_text_tab = map (\<lambda>n. if rfc_text n then 1 else 0) [0..<256]"
  by (simp add: octets_enum is_text_tab_def rfc_class_simps)

lemma is_tchar_tab_eq [table_eqs]: "is_tchar_tab = map (\<lambda>n. if rfc_tchar n then 1 else 0) [0..<256]"
  by (simp add: octets_enum is_tchar_tab_def rfc_class_simps)

lemma is_qdchar_tab_eq [table_eqs]: "is_qdchar_tab = map (\<lambda>n. if rfc_qdtext n then 1 else 0) [0..<256]"
  by (simp add: octets_enum is_qdchar_tab_def rfc_class_simps)

lemma is_qpchar_tab_eq [table_eqs]: "is_qpchar_tab = map (\<lambda>n. if rfc_text n then 1 else 0) [0..<256]"
  by (simp add: octets_enum is_qpchar_tab_def rfc_class_simps)

lemma to_field_char_tab_eq [table_eqs]: "to_field_char_tab = map (\<lambda>n. if rfc_tchar n then ascii_lower n else 0) [0..<256]"
  by (simp add: octets_enum to_field_char_tab_def rfc_class_simps)

lemma to_value_char_tab_eq [table_eqs]: "to_value_char_tab = map (\<lambda>n. if rfc_text n then ascii_lower n else 0) [0..<256]"
  by (simp add: octets_enum to_value_char_tab_def rfc_class_simps)

lemma hex_digit_tab_eq [table_eqs]: "hex_digit_tab = map (\<lambda>n. case rfc_hexval n of Some v \<Rightarrow> v | None \<Rightarrow> - 1) [0..<256]"
  by (simp add: octets_enum hex_digit_tab_def rfc_class_simps)

lemma tolower_tab_eq [table_eqs]: "tolower_tab = map (ascii_lower) [0..<256]"
  by (simp add: octets_enum tolower_tab_def rfc_class_simps)

lemma is_pathchar_tab_eq [table_eqs]: "is_pathchar_tab = map (\<lambda>n. if rfc_vchar n \<or> rfc_obs_text n then 1 else 0) [0..<256]"
  by (simp add: octets_enum is_pathchar_tab_def rfc_class_simps)

lemma is_value_char_tab_eq [table_eqs]: "is_value_char_tab = map (\<lambda>n. if rfc_vchar n \<or> rfc_obs_text n then 1 else 0) [0..<256]"
  by (simp add: octets_enum is_value_char_tab_def rfc_class_simps)

lemma parser_is_text_tab_eq [table_eqs]: "parser_is_text_tab = map (\<lambda>n. if rfc_text n then 1 else 0) [0..<256]"
  by (simp add: octets_enum parser_is_text_tab_def rfc_class_simps)

text \<open>
  What \<open>unhex\<close>'s table really holds: the hexadecimal digits, but also a value other
  than \<open>-1\<close> at eight octets where initialisers fused and at the eight octets left zero.
\<close>

definition unhex_fused :: "nat \<Rightarrow> bool" where
  "unhex_fused n \<longleftrightarrow> n \<in> {127, 142, 157, 172, 187, 202, 217, 232}"

lemma unhex_tab_eq [table_eqs]:
  "unhex_tab = map (\<lambda>n. case rfc_hexval n of Some v \<Rightarrow> v
     | None \<Rightarrow> if unhex_fused n then - 2 else if 248 \<le> n then 0 else - 1) [0..<256]"
  by (simp add: unhex_tab_def unhex_init_def octets_enum rfc_class_simps unhex_fused_def
      replicate8)

section \<open>Lookups as classes\<close>

lemma is_alpha_iff [char_classes]: "is_alpha c \<longleftrightarrow> rfc_alpha (octet c)"
  by (simp add: is_alpha_def table_lookup [OF is_alpha_tab_eq])

lemma is_text_iff [char_classes]: "is_text c \<longleftrightarrow> rfc_text (octet c)"
  by (simp add: is_text_def table_lookup [OF is_text_tab_eq])

lemma is_tchar_iff [char_classes]: "is_tchar c \<longleftrightarrow> rfc_tchar (octet c)"
  by (simp add: is_tchar_def table_lookup [OF is_tchar_tab_eq])

lemma is_qdchar_iff [char_classes]: "is_qdchar c \<longleftrightarrow> rfc_qdtext (octet c)"
  by (simp add: is_qdchar_def table_lookup [OF is_qdchar_tab_eq])

lemma is_qpchar_iff [char_classes]: "is_qpchar c \<longleftrightarrow> rfc_text (octet c)"
  by (simp add: is_qpchar_def table_lookup [OF is_qpchar_tab_eq])

lemma is_pathchar_iff [char_classes]:
  "is_pathchar c \<longleftrightarrow> rfc_vchar (octet c) \<or> rfc_obs_text (octet c)"
  by (simp add: is_pathchar_def table_lookup [OF is_pathchar_tab_eq])

lemma is_value_char_iff [char_classes]:
  "is_value_char c \<longleftrightarrow> rfc_vchar (octet c) \<or> rfc_obs_text (octet c)"
  by (simp add: is_value_char_def table_lookup [OF is_value_char_tab_eq])

lemma parser_is_text_iff [char_classes]: "parser_is_text c \<longleftrightarrow> rfc_text (octet c)"
  by (simp add: parser_is_text_def table_lookup [OF parser_is_text_tab_eq])

lemma is_digit_iff [char_classes]: "is_digit c \<longleftrightarrow> rfc_digit (octet c)"
  by (simp add: is_digit_def rfc_digit_def octet_def)

text \<open>The unsigned comparison \<open>(unsigned char)(c - lo) < k\<close> is a range test.\<close>

lemma sub_less_range:
  assumes "n < 256" "lo + k \<le> 256" "lo < 256" "k < 256"
  shows "(of_nat n - of_nat lo :: u8) < of_nat k \<longleftrightarrow> lo \<le> n \<and> n < lo + k"
proof -
  have sub: "unat (of_nat n - of_nat lo :: u8) = (if lo \<le> n then n - lo else n + 256 - lo)"
    using assms by (simp add: unat_sub_if_size word_le_nat_alt word_size)
  have "(of_nat n - of_nat lo :: u8) < of_nat k \<longleftrightarrow> unat (of_nat n - of_nat lo :: u8) < k"
    using assms by (simp add: word_less_nat_alt)
  then show ?thesis
    unfolding sub using assms by (cases "lo \<le> n") (simp_all, linarith+)
qed

lemma parser_is_digit_iff [char_classes]: "parser_is_digit c \<longleftrightarrow> rfc_digit (octet c)"
  using sub_less_range [of "octet c" 48 10] by (auto simp: parser_is_digit_def rfc_digit_def)

lemma is_print_iff [char_classes]: "is_print c \<longleftrightarrow> rfc_vchar (octet c)"
  using sub_less_range [of "octet c" 33 94] by (auto simp: is_print_def rfc_vchar_def)

lemma char_of_0: "char_of (0 :: nat) = CHR 0x00"
  by (simp add: char_of_def)

lemma to_field_char_eq: "to_field_char c = (if is_tchar c then c_tolower c else CHR 0x00)"
  by (simp add: to_field_char_def table_lookup [OF to_field_char_tab_eq] is_tchar_iff c_tolower_def
      char_of_0)

lemma beast_tolower_eq: "beast_tolower c = c_tolower c"
  by (simp add: beast_tolower_def c_tolower_def table_lookup [OF tolower_tab_eq])

lemma rfc_hexval_bounds: "rfc_hexval n = Some v \<Longrightarrow> 0 \<le> v \<and> v < 16"
  by (auto simp: rfc_hexval_def rfc_digit_def split: if_splits)

lemma unhex_eq:
  "unhex c =
     (case rfc_hexval (octet c) of Some v \<Rightarrow> Some (nat v)
      | None \<Rightarrow> if unhex_fused (octet c) then Some 254
                else if 248 \<le> octet c then Some 0 else None)"
proof (cases "rfc_hexval (octet c)")
  case None
  then show ?thesis
    by (simp add: unhex_def table_lookup [OF unhex_tab_eq])
next
  case (Some v)
  then have "nat (v mod 256) = nat v" "nat v \<noteq> 255"
    using rfc_hexval_bounds [OF Some] by auto
  with Some show ?thesis
    by (simp add: unhex_def table_lookup [OF unhex_tab_eq])
qed

section \<open>What the classes exclude\<close>

text \<open>CR, LF, SP and HTAB end every scan of the parser.\<close>

lemma is_tchar_not_sep [simp]:
  "\<not> is_tchar CHR 0x0D" "\<not> is_tchar CHR 0x0A" "\<not> is_tchar CHR '' ''" "\<not> is_tchar CHR 0x09"
  "\<not> is_tchar CHR '':''" "\<not> is_tchar CHR '',''" "\<not> is_tchar CHR '';''" "\<not> is_tchar CHR ''=''"
  "\<not> is_tchar CHR 0x22"
  by (simp_all add: is_tchar_iff rfc_class_simps octet_def)

lemma is_pathchar_not_sep [simp]:
  "\<not> is_pathchar CHR 0x0D" "\<not> is_pathchar CHR 0x0A" "\<not> is_pathchar CHR '' ''"
  by (simp_all add: is_pathchar_iff rfc_class_simps octet_def)

lemma parser_is_text_not_ctl [simp]:
  "\<not> parser_is_text CHR 0x0D" "\<not> parser_is_text CHR 0x0A"
  by (simp_all add: parser_is_text_iff rfc_class_simps octet_def)

lemma tchar_ascii: "is_tchar c \<Longrightarrow> octet c < 128"
  by (auto simp: is_tchar_iff rfc_tchar_def rfc_digit_def rfc_alpha_def)

lemma ci_equal_refl [simp]: "ci_equal s s"
  by (simp add: ci_equal_def list.rel_refl)

lemma ci_equal_map: "ci_equal s t \<longleftrightarrow> map c_tolower s = map c_tolower t"
  by (auto simp: ci_equal_def beast_tolower_eq list_all2_conv_all_nth list_eq_iff_nth_eq)

end
