(* ===== verification/Http_Base.thy ===== *)
theory Http_Base
  imports Http_Chars
begin

text \<open>
  The scanning routines of \<open>basic_parser_base\<close>
  (\<open>include/beast/http/detail/basic_parser.hpp\<close>) and the optional-white-space helpers of
  \<open>include/beast/http/detail/rfc7230.hpp\<close>. A pointer into the caller's buffer is an
  offset; every dereference is a \<open>rd\<close>, so a scan that runs off the buffer is \<open>Oob\<close>.
  A routine that takes its pointer by reference returns the pointer's new value with its
  result. The lemmas say what each scan returns and when it stays inside the buffer.
\<close>

section \<open>Error codes\<close>

text \<open>
  \<open>http::error\<close>, and the error codes a derived parser's callback may set.
\<close>

datatype http_error =
    end_of_stream
  | partial_message
  | buffer_overflow
  | bad_line_ending
  | bad_method
  | bad_path
  | bad_version
  | bad_status
  | bad_reason
  | bad_field
  | bad_value
  | bad_content_length
  | bad_transfer_encoding
  | bad_chunk
  | callback_error nat

type_synonym 'a pout = "(http_error, 'a) outcome"

abbreviation CR :: char where "CR \<equiv> CHR 0x0D"
abbreviation LF :: char where "LF \<equiv> CHR 0x0A"
abbreviation SP :: char where "SP \<equiv> CHR '' ''"
abbreviation HT :: char where "HT \<equiv> CHR 0x09"

definition is_ows :: "char \<Rightarrow> bool" where
  "is_ows c \<longleftrightarrow> c = SP \<or> c = HT"

lemma is_ows_simps [simp]:
  "is_ows SP" "is_ows HT" "\<not> is_ows CR" "\<not> is_ows LF"
  by (simp_all add: is_ows_def)

lemma tchar_not_ows: "is_tchar c \<Longrightarrow> \<not> is_ows c"
  by (auto simp: is_ows_def)

section \<open>Scans\<close>

text \<open>The loop \<open>while(P(*it)) ++it;\<close>, which several routines run with a class \<open>P\<close>.\<close>

function scan_while :: "(char \<Rightarrow> bool) \<Rightarrow> string \<Rightarrow> nat \<Rightarrow> nat pout" where
  "scan_while P buf it = ob (rd buf it) (\<lambda>c. if P c then scan_while P buf (Suc it) else Ok it)"
  by pat_completeness auto
termination
  by (relation "measure (\<lambda>(P, buf, it). length buf - it)") (auto simp: rd_eq_Ok)

declare scan_while.simps [simp del]

definition parse_method :: "string \<Rightarrow> nat \<Rightarrow> (string \<times> nat) pout" where
  "parse_method buf it = ob (scan_while is_tchar buf it) (\<lambda>j. Ok (slice buf it j, j))"

definition parse_target :: "string \<Rightarrow> nat \<Rightarrow> (string \<times> nat) pout" where
  "parse_target buf it =
     ob (scan_while is_pathchar buf it) (\<lambda>j.
     ob (rd buf j) (\<lambda>c. if c \<noteq> SP then Ok ([], j) else Ok (slice buf it j, j)))"

definition parse_name :: "string \<Rightarrow> nat \<Rightarrow> (string \<times> nat) pout" where
  "parse_name buf it =
     ob (scan_while (\<lambda>c. to_field_char c \<noteq> CHR 0x00) buf it) (\<lambda>j. Ok (slice buf it j, j))"

text \<open>The value of a digit, \<open>*it - '0'\<close>.\<close>

definition digit_val :: "char \<Rightarrow> int" where
  "digit_val c = int (octet c) - int (octet CHR ''0'')"

definition parse_version :: "string \<Rightarrow> nat \<Rightarrow> (int \<times> nat) pout" where
  "parse_version buf it =
     ob (rd buf it) (\<lambda>c. if c \<noteq> CHR ''H'' then Ok (- 1, it) else
     ob (rd buf (it + 1)) (\<lambda>c. if c \<noteq> CHR ''T'' then Ok (- 1, it + 1) else
     ob (rd buf (it + 2)) (\<lambda>c. if c \<noteq> CHR ''T'' then Ok (- 1, it + 2) else
     ob (rd buf (it + 3)) (\<lambda>c. if c \<noteq> CHR ''P'' then Ok (- 1, it + 3) else
     ob (rd buf (it + 4)) (\<lambda>c. if c \<noteq> CHR ''/'' then Ok (- 1, it + 4) else
     ob (rd buf (it + 5)) (\<lambda>c. if \<not> parser_is_digit c then Ok (- 1, it + 5) else
     let v = 10 * digit_val c in
     ob (rd buf (it + 6)) (\<lambda>c. if c \<noteq> CHR ''.'' then Ok (- 1, it + 6) else
     ob (rd buf (it + 7)) (\<lambda>c. if \<not> parser_is_digit c then Ok (- 1, it + 7) else
     Ok (v + digit_val c, it + 8)))))))))"

definition parse_status :: "string \<Rightarrow> nat \<Rightarrow> (int \<times> nat) pout" where
  "parse_status buf it =
     ob (rd buf it) (\<lambda>c. if \<not> parser_is_digit c then Ok (- 1, it) else
     let v = 100 * digit_val c in
     ob (rd buf (it + 1)) (\<lambda>c. if \<not> parser_is_digit c then Ok (- 1, it + 1) else
     let v = v + 10 * digit_val c in
     ob (rd buf (it + 2)) (\<lambda>c. if \<not> parser_is_digit c then Ok (- 1, it + 2) else
     Ok (v + digit_val c, it + 3))))"

function parse_reason_loop :: "string \<Rightarrow> nat \<Rightarrow> nat \<Rightarrow> (string \<times> nat) pout" where
  "parse_reason_loop buf first it =
     ob (rd buf it) (\<lambda>c.
       if c \<noteq> CR then
         if \<not> parser_is_text c then Ok ([], it) else parse_reason_loop buf first (Suc it)
       else Ok (slice buf first it, it))"
  by pat_completeness auto
termination
  by (relation "measure (\<lambda>(buf, first, it). length buf - it)") (auto simp: rd_eq_Ok)

declare parse_reason_loop.simps [simp del]

definition parse_reason :: "string \<Rightarrow> nat \<Rightarrow> (string \<times> nat) pout" where
  "parse_reason buf it = parse_reason_loop buf it it"

definition parse_crlf :: "string \<Rightarrow> nat \<Rightarrow> (bool \<times> nat) pout" where
  "parse_crlf buf it =
     ob (rd buf it) (\<lambda>c. if c \<noteq> CR then Ok (False, it) else
     ob (rd buf (it + 1)) (\<lambda>c. if c \<noteq> LF then Ok (False, it + 1) else Ok (True, it + 2)))"

text \<open>\<open>find_eol\<close>: \<open>None\<close> is \<open>nullptr\<close>, the pointer returned is one past the LF.\<close>

function find_eol :: "string \<Rightarrow> nat \<Rightarrow> nat \<Rightarrow> nat option pout" where
  "find_eol buf it lst =
     (if it = lst then Ok None
      else ob (rd buf it) (\<lambda>c.
        if c = CR then
          if it + 1 = lst then Ok None
          else ob (rd buf (it + 1)) (\<lambda>c.
            if c \<noteq> LF then Err bad_line_ending else Ok (Some (it + 2)))
        else find_eol buf (it + 1) lst))"
  by pat_completeness auto
termination
  by (relation "measure (\<lambda>(buf, it, lst). length buf - it)") (auto simp: rd_eq_Ok)

declare find_eol.simps [simp del]

function find_eom :: "string \<Rightarrow> nat \<Rightarrow> nat \<Rightarrow> nat option pout" where
  "find_eom buf it lst =
     (if it = lst then Ok None
      else ob (rd buf it) (\<lambda>c.
        if c = CR then
          if it + 1 = lst then Ok None
          else ob (rd buf (it + 1)) (\<lambda>c.
            if c \<noteq> LF then Err bad_line_ending
            else if it + 2 = lst then Ok None
            else ob (rd buf (it + 2)) (\<lambda>c.
              if c \<noteq> CR then find_eom buf (it + 3) lst
              else if it + 3 = lst then Ok None
              else ob (rd buf (it + 3)) (\<lambda>c.
                if c \<noteq> LF then Err bad_line_ending else Ok (Some (it + 4)))))
        else find_eom buf (it + 1) lst))"
  by pat_completeness auto
termination
  by (relation "measure (\<lambda>(buf, it, lst). length buf - it)") (auto simp: rd_eq_Ok)

declare find_eom.simps [simp del]

section \<open>Numbers\<close>

text \<open>\<open>parse_dec\<close> and \<open>parse_hex\<close> at \<open>Unsigned = std::uint64_t\<close>. \<open>None\<close> is \<open>false\<close>.\<close>

definition dec_limit :: u64 where
  "dec_limit = (- 1 - 10) div 10"

function parse_dec_loop :: "string \<Rightarrow> nat \<Rightarrow> nat \<Rightarrow> u64 \<Rightarrow> u64 option pout" where
  "parse_dec_loop buf it lst v =
     ob (rd buf (it + 1)) (\<lambda>c.
       if \<not> parser_is_digit c then Ok (if it + 1 = lst then Some v else None)
       else if v > dec_limit then Ok None
       else parse_dec_loop buf (it + 1) lst (10 * v + of_int (digit_val c)))"
  by pat_completeness auto
termination
  by (relation "measure (\<lambda>(buf, it, lst, v). length buf - it)") (auto simp: rd_eq_Ok)

declare parse_dec_loop.simps [simp del]

definition parse_dec :: "string \<Rightarrow> nat \<Rightarrow> nat \<Rightarrow> u64 option pout" where
  "parse_dec buf it lst =
     ob (rd buf it) (\<lambda>c.
       if \<not> parser_is_digit c then Ok None
       else parse_dec_loop buf it lst (of_int (digit_val c)))"

function parse_hex_loop :: "string \<Rightarrow> nat \<Rightarrow> u64 \<Rightarrow> (u64 option \<times> nat) pout" where
  "parse_hex_loop buf it v =
     ob (rd buf (it + 1)) (\<lambda>c.
       case unhex c of
         None \<Rightarrow> Ok (Some v, it + 1)
       | Some d \<Rightarrow>
           let v0 = v; v = 16 * v + of_nat d in
           if v \<le> v0 then Ok (None, it + 1) else parse_hex_loop buf (it + 1) v)"
  by pat_completeness auto
termination
  by (relation "measure (\<lambda>(buf, it, v). length buf - it)") (auto simp: rd_eq_Ok)

declare parse_hex_loop.simps [simp del]

definition parse_hex :: "string \<Rightarrow> nat \<Rightarrow> (u64 option \<times> nat) pout" where
  "parse_hex buf it =
     ob (rd buf it) (\<lambda>c.
       case unhex c of None \<Rightarrow> Ok (None, it) | Some d \<Rightarrow> parse_hex_loop buf it (of_nat d))"

section \<open>Comparison and white space\<close>

definition strieq :: "string \<Rightarrow> string \<Rightarrow> bool" where
  "strieq s1 s2 \<longleftrightarrow>
     (if length s1 \<noteq> length s2 then False else list_all2 (\<lambda>c1 c2. c1 = c_tolower c2) s1 s2)"

function skip_ows :: "string \<Rightarrow> nat \<Rightarrow> nat \<Rightarrow> nat pout" where
  "skip_ows buf it fin =
     (if it = fin then Ok it
      else ob (rd buf it) (\<lambda>c. if \<not> is_ows c then Ok it else skip_ows buf (Suc it) fin))"
  by pat_completeness auto
termination
  by (relation "measure (\<lambda>(buf, it, fin). length buf - it)") (auto simp: rd_eq_Ok)

declare skip_ows.simps [simp del]

fun skip_ows_rev :: "string \<Rightarrow> nat \<Rightarrow> nat \<Rightarrow> nat pout" where
  "skip_ows_rev buf 0 first = (if first = 0 then Ok 0 else Oob)"
| "skip_ows_rev buf (Suc it) first =
     (if Suc it = first then Ok (Suc it)
      else ob (rd buf it) (\<lambda>c. if \<not> is_ows c then Ok (Suc it) else skip_ows_rev buf it first))"

section \<open>What the scans return\<close>

lemma all_from:
  "(\<forall>k. i \<le> k \<and> k < j \<longrightarrow> P k) \<longleftrightarrow> ((i :: nat) < j \<longrightarrow> P i) \<and> (\<forall>k. i + 1 \<le> k \<and> k < j \<longrightarrow> P k)"
proof (intro iffI conjI allI impI)
  fix k
  assume "(i < j \<longrightarrow> P i) \<and> (\<forall>k. i + 1 \<le> k \<and> k < j \<longrightarrow> P k)" "i \<le> k \<and> k < j"
  then show "P k" by (cases "k = i") auto
qed auto

lemma scan_while_Ok_iff:
  "scan_while P buf it = Ok j \<longleftrightarrow>
     it \<le> j \<and> j < length buf \<and> \<not> P (buf ! j) \<and> (\<forall>k. it \<le> k \<and> k < j \<longrightarrow> P (buf ! k))"
proof (induction P buf it rule: scan_while.induct)
  case (1 P buf it)
  show ?case
  proof (cases "it < length buf \<and> P (buf ! it)")
    case True
    then have "scan_while P buf it = scan_while P buf (Suc it)"
      by (subst scan_while.simps) simp
    with True 1 [of "buf ! it"] have
      "scan_while P buf it = Ok j \<longleftrightarrow> it + 1 \<le> j \<and> j < length buf \<and> \<not> P (buf ! j) \<and>
         (\<forall>k. it + 1 \<le> k \<and> k < j \<longrightarrow> P (buf ! k))" by simp
    also have "\<dots> \<longleftrightarrow> it \<le> j \<and> j < length buf \<and> \<not> P (buf ! j) \<and> it \<noteq> j \<and>
         (\<forall>k. it + 1 \<le> k \<and> k < j \<longrightarrow> P (buf ! k))" by auto
    finally show ?thesis
      using True by (subst all_from) auto
  next
    case False
    then show ?thesis
      by (subst scan_while.simps) (force simp: rd_def)
  qed
qed

lemma scan_while_stops:
  assumes "it \<le> k" "k < length buf" "\<not> P (buf ! k)"
  shows "\<exists>j. scan_while P buf it = Ok j \<and> it \<le> j \<and> j \<le> k"
  using assms
proof (induction P buf it rule: scan_while.induct)
  case (1 P buf it)
  show ?case
  proof (cases "P (buf ! it)")
    case True
    with "1.prems" have "it \<noteq> k" by auto
    with "1.prems" True "1.IH" [of "buf ! it"] have
      "\<exists>j. scan_while P buf (Suc it) = Ok j \<and> Suc it \<le> j \<and> j \<le> k" by simp
    with True "1.prems" show ?thesis
      by (subst scan_while.simps) auto
  next
    case False
    with "1.prems" show ?thesis by (subst scan_while.simps) auto
  qed
qed

lemma scan_while_not_Err [simp]: "scan_while P buf it \<noteq> Err e"
  by (induction P buf it rule: scan_while.induct)
    (subst scan_while.simps, auto simp: ob_eq_Err split: if_splits)

text \<open>\<open>crlf_pairs buf i j\<close>: inside \<open>[i, j)\<close> every CR is followed by an LF.\<close>

definition crlf_pairs :: "string \<Rightarrow> nat \<Rightarrow> nat \<Rightarrow> bool" where
  "crlf_pairs buf i j \<longleftrightarrow>
     (\<forall>k. i \<le> k \<and> k < j \<and> buf ! k = CR \<longrightarrow> k + 1 < j \<and> buf ! (k + 1) = LF)"

lemma crlf_pairsD:
  "crlf_pairs buf i j \<Longrightarrow> i \<le> k \<Longrightarrow> k < j \<Longrightarrow> buf ! k = CR \<Longrightarrow> k + 1 < j \<and> buf ! (k + 1) = LF"
  by (simp add: crlf_pairs_def)

lemma crlf_pairs_mono: "crlf_pairs buf i j \<Longrightarrow> i \<le> i' \<Longrightarrow> crlf_pairs buf i' j"
  by (simp add: crlf_pairs_def)

lemma find_eol_not_Oob [memory_safe]:
  "it \<le> lst \<Longrightarrow> lst \<le> length buf \<Longrightarrow> find_eol buf it lst \<noteq> Oob"
proof (induction buf it lst rule: find_eol.induct)
  case (1 buf it lst)
  then show ?case by (subst find_eol.simps) (auto simp: ob_eq_Oob rd_def)
qed

lemma find_eol_Some:
  assumes "find_eol buf it lst = Ok (Some j)" "it \<le> lst" "lst \<le> length buf"
  shows "it + 2 \<le> j \<and> j \<le> lst \<and> buf ! (j - 2) = CR \<and> buf ! (j - 1) = LF \<and>
    (\<forall>k. it \<le> k \<and> k < j - 2 \<longrightarrow> buf ! k \<noteq> CR)"
  using assms
proof (induction buf it lst rule: find_eol.induct)
  case (1 buf it lst)
  from "1.prems" have it: "it < lst"
    by (subst (asm) find_eol.simps) (auto split: if_splits)
  show ?case
  proof (cases "buf ! it = CR")
    case True
    with "1.prems" it show ?thesis
      by (subst (asm) find_eol.simps) (auto simp: rd_def split: if_splits)
  next
    case False
    with "1.prems" it have rest: "find_eol buf (it + 1) lst = Ok (Some j)"
      by (subst (asm) find_eol.simps) (auto simp: rd_def)
    have "it + 1 + 2 \<le> j \<and> j \<le> lst \<and> buf ! (j - 2) = CR \<and> buf ! (j - 1) = LF \<and>
        (\<forall>k. it + 1 \<le> k \<and> k < j - 2 \<longrightarrow> buf ! k \<noteq> CR)"
      by (rule "1.IH" [of "buf ! it"]) (use rest False it "1.prems" in auto)
    with False show ?thesis
      by (subst all_from) auto
  qed
qed

lemma find_eol_first_CR:
  assumes "it \<le> k" "k + 1 < lst" "lst \<le> length buf" "buf ! k = CR" "buf ! (k + 1) = LF"
    "\<forall>m. it \<le> m \<and> m < k \<longrightarrow> buf ! m \<noteq> CR"
  shows "find_eol buf it lst = Ok (Some (k + 2))"
  using assms
proof (induction buf it lst rule: find_eol.induct)
  case (1 buf it lst)
  show ?case
  proof (cases "it = k")
    case True
    with "1.prems" show ?thesis by (subst find_eol.simps) simp
  next
    case False
    with "1.prems" have "buf ! it \<noteq> CR" by simp
    moreover have "find_eol buf (it + 1) lst = Ok (Some (k + 2))"
      by (rule "1.IH" [of "buf ! it"]) (use "1.prems" False calculation in auto)
    ultimately show ?thesis using "1.prems" False by (subst find_eol.simps) simp
  qed
qed

text \<open>In a region whose CRs are paired, the end of line is found as soon as there is a CR.\<close>

lemma find_eol_pairs:
  assumes "crlf_pairs buf it lst" "it \<le> k" "k < lst" "buf ! k = CR" "lst \<le> length buf"
  shows "\<exists>j. find_eol buf it lst = Ok (Some j)"
proof -
  define m where "m = (LEAST m. it \<le> m \<and> buf ! m = CR)"
  have m: "it \<le> m \<and> buf ! m = CR"
    unfolding m_def by (rule LeastI [of _ k]) (use assms in auto)
  have "m \<le> k" unfolding m_def by (rule Least_le) (use assms in auto)
  moreover have "\<forall>i. it \<le> i \<and> i < m \<longrightarrow> buf ! i \<noteq> CR"
    unfolding m_def using not_less_Least by blast
  moreover have "m + 1 < lst \<and> buf ! (m + 1) = LF"
    by (rule crlf_pairsD [OF assms(1)]) (use m \<open>m \<le> k\<close> assms in auto)
  ultimately have "find_eol buf it lst = Ok (Some (m + 2))"
    by (intro find_eol_first_CR) (use m assms in auto)
  then show ?thesis by blast
qed

section \<open>The end of the header block\<close>

lemma crlf_pairs_Suc: "buf ! i \<noteq> CR \<Longrightarrow> crlf_pairs buf (i + 1) j \<Longrightarrow> crlf_pairs buf i j"
  unfolding crlf_pairs_def
proof (intro allI impI)
  fix k
  assume "buf ! i \<noteq> CR" "i \<le> k \<and> k < j \<and> buf ! k = CR"
    and *: "\<forall>k. i + 1 \<le> k \<and> k < j \<and> buf ! k = CR \<longrightarrow> k + 1 < j \<and> buf ! (k + 1) = LF"
  then show "k + 1 < j \<and> buf ! (k + 1) = LF" by (cases "k = i") auto
qed

lemma crlf_pairs_line:
  assumes "buf ! (i + 1) = LF" "crlf_pairs buf (i + 2) j" "i + 1 < j"
  shows "crlf_pairs buf i j"
  unfolding crlf_pairs_def
proof (intro allI impI)
  fix k
  assume k: "i \<le> k \<and> k < j \<and> buf ! k = CR"
  then consider "k = i" | "k = i + 1" | "i + 2 \<le> k" by linarith
  then show "k + 1 < j \<and> buf ! (k + 1) = LF"
    by cases (use k assms in \<open>auto dest: crlf_pairsD\<close>)
qed

lemma crlf_pairs_empty [simp]: "crlf_pairs buf j j"
  by (auto simp: crlf_pairs_def)

lemma find_eom_not_Oob [memory_safe]:
  "it \<le> lst \<Longrightarrow> lst \<le> length buf \<Longrightarrow> find_eom buf it lst \<noteq> Oob"
proof (induction buf it lst rule: find_eom.induct)
  case (1 buf it lst)
  show ?case
    using "1.prems" "1.IH"(1) [of "buf ! it" "buf ! (it + 1)" "buf ! (it + 2)"]
      "1.IH"(2) [of "buf ! it"]
    by (subst find_eom.simps) (auto simp: ob_eq_Oob rd_def)
qed

text \<open>
  \<open>eom_at buf j\<close>: the four octets before \<open>j\<close> are CRLF CRLF.
\<close>

definition eom_at :: "string \<Rightarrow> nat \<Rightarrow> bool" where
  "eom_at buf j \<longleftrightarrow> 4 \<le> j \<and> j \<le> length buf \<and> buf ! (j - 4) = CR \<and> buf ! (j - 3) = LF \<and>
     buf ! (j - 2) = CR \<and> buf ! (j - 1) = LF"

lemma find_eom_Some:
  assumes "find_eom buf it lst = Ok (Some j)" "it \<le> lst" "lst \<le> length buf"
  shows "it + 4 \<le> j \<and> j \<le> lst \<and> eom_at buf j \<and> crlf_pairs buf it j"
  using assms
proof (induction buf it lst rule: find_eom.induct)
  case (1 buf it lst)
  from "1.prems" have it: "it < lst" "it < length buf"
    by (subst (asm) find_eom.simps, auto split: if_splits)+
  show ?case
  proof (cases "buf ! it = CR")
    case False
    with "1.prems" it have rest: "find_eom buf (it + 1) lst = Ok (Some j)"
      by (subst (asm) find_eom.simps) auto
    have "it + 1 + 4 \<le> j \<and> j \<le> lst \<and> eom_at buf j \<and> crlf_pairs buf (it + 1) j"
      by (rule "1.IH"(2) [of "buf ! it"]) (use rest False it "1.prems" in auto)
    with False show ?thesis by (simp add: crlf_pairs_Suc)
  next
    case True
    with "1.prems" it have lf: "it + 2 < lst" "buf ! (it + 1) = LF"
      by (subst (asm) find_eom.simps, auto split: if_splits)+
    show ?thesis
    proof (cases "buf ! (it + 2) = CR")
      case False
      with "1.prems" it True lf have rest: "find_eom buf (it + 3) lst = Ok (Some j)"
        by (subst (asm) find_eom.simps) auto
      have IH: "it + 3 + 4 \<le> j \<and> j \<le> lst \<and> eom_at buf j \<and> crlf_pairs buf (it + 3) j"
        by (rule "1.IH"(1) [of "buf ! it" "buf ! (it + 1)" "buf ! (it + 2)"])
          (use rest False True lf it "1.prems" in auto)
      have mid: "crlf_pairs buf (it + 2) j"
        using crlf_pairs_Suc [of buf "it + 2" j] IH False by (simp add: eval_nat_numeral)
      have "crlf_pairs buf it j"
        by (rule crlf_pairs_line) (use IH lf mid in simp_all)
      with IH show ?thesis by simp
    next
      case second: True
      have "find_eom buf it lst =
          (if it + 3 = lst then Ok None
           else ob (rd buf (it + 3)) (\<lambda>c. if c \<noteq> LF then Err bad_line_ending else Ok (Some (it + 4))))"
        using it True lf second "1.prems"(3) by (subst find_eom.simps) simp
      with "1.prems" lf have "it + 3 < lst \<and> buf ! (it + 3) = LF \<and> j = it + 4"
        by (simp add: rd_def split: if_splits)
      note j = this
      have "crlf_pairs buf (it + 2) j"
        by (rule crlf_pairs_line) (use j in \<open>simp_all add: eval_nat_numeral\<close>)
      then have "crlf_pairs buf it j"
        using crlf_pairs_line [of buf it j] j lf by simp
      moreover have "eom_at buf j"
        using j lf True second "1.prems" by (simp add: eom_at_def eval_nat_numeral)
      ultimately show ?thesis using j by simp
    qed
  qed
qed


text \<open>The converse: the first CRLF CRLF is found when the CRs before it are paired.\<close>

lemma find_eom_first:
  assumes "it + 4 \<le> j" "j \<le> lst" "lst \<le> length buf" "eom_at buf j"
    "\<forall>k. it \<le> k \<and> k + 4 < j \<and> buf ! k = CR \<longrightarrow> buf ! (k + 1) = LF \<and> buf ! (k + 2) \<noteq> CR"
  shows "find_eom buf it lst = Ok (Some j)"
  using assms
proof (induction buf it lst rule: find_eom.induct)
  case (1 buf it lst)
  note eom = \<open>eom_at buf j\<close> [unfolded eom_at_def]
  show ?case
  proof (cases "it + 4 = j")
    case True
    then have "buf ! it = CR" "buf ! (it + 1) = LF" "buf ! (it + 2) = CR" "buf ! (it + 3) = LF"
      using eom by (auto simp: eval_nat_numeral)
    with "1.prems" True show ?thesis by (subst find_eom.simps) simp
  next
    case False
    with "1.prems" have less: "it + 4 < j" by simp
    show ?thesis
    proof (cases "buf ! it = CR")
      case True
      with "1.prems" less have two: "buf ! (it + 1) = LF" "buf ! (it + 2) \<noteq> CR" by auto
      have "j \<noteq> it + 5" "j \<noteq> it + 6"
        using eom two by (auto simp: eval_nat_numeral)
      with less have "it + 3 + 4 \<le> j" by simp
      then have "find_eom buf (it + 3) lst = Ok (Some j)"
        by (intro "1.IH"(1) [of "buf ! it" "buf ! (it + 1)" "buf ! (it + 2)"])
          (use "1.prems" True two less in auto)
      with True two less "1.prems" show ?thesis by (subst find_eom.simps) simp
    next
      case False
      have "find_eom buf (it + 1) lst = Ok (Some j)"
        by (rule "1.IH"(2) [of "buf ! it"]) (use "1.prems" False less in auto)
      with False less "1.prems" show ?thesis by (subst find_eom.simps) simp
    qed
  qed
qed

text \<open>
  Searching on: \<open>parse_header\<close> stores \<open>skip_ = n - 3\<close> after a search of \<open>n\<close> octets that
  found nothing, and later searches from there only. That loses nothing.
\<close>

lemma find_eom_no_CR:
  "a \<le> b \<Longrightarrow> b \<le> m \<Longrightarrow> m \<le> length buf \<Longrightarrow> (\<forall>k. a \<le> k \<and> k < b \<longrightarrow> buf ! k \<noteq> CR) \<Longrightarrow>
     find_eom buf a m = find_eom buf b m"
proof (induction "b - a" arbitrary: a)
  case 0
  then show ?case by simp
next
  case (Suc d)
  from Suc.hyps(2) Suc.prems have a: "a < b" "a < m" "a < length buf" by simp_all
  with Suc.prems have "buf ! a \<noteq> CR" by simp
  with a have "find_eom buf a m = find_eom buf (a + 1) m"
    by (subst find_eom.simps) simp
  also have "\<dots> = find_eom buf b m"
    by (rule Suc.hyps(1)) (use Suc.hyps(2) Suc.prems in auto)
  finally show ?case .
qed

lemma find_eom_append:
  "it \<le> n \<Longrightarrow> n \<le> length xs \<Longrightarrow> find_eom (xs @ ys) it n = find_eom xs it n"
proof (induction xs it n rule: find_eom.induct)
  case (1 buf it lst)
  show ?case
  proof (cases "it = lst")
    case True
    then show ?thesis by (subst (1 2) find_eom.simps) simp
  next
    case False
    have r: "i < lst \<Longrightarrow> (buf @ ys) ! i = buf ! i" for i
      using "1.prems" by (simp add: nth_append)
    have IH1: "find_eom (buf @ ys) (it + 3) lst = find_eom buf (it + 3) lst"
      if "buf ! it = CR" "it + 2 < lst" "buf ! (it + 1) = LF" "buf ! (it + 2) \<noteq> CR"
      by (rule "1.IH"(1) [of "buf ! it" "buf ! (it + 1)" "buf ! (it + 2)"])
        (use False that r "1.prems" in simp_all)
    have IH2: "find_eom (buf @ ys) (it + 1) lst = find_eom buf (it + 1) lst" if "buf ! it \<noteq> CR"
      by (rule "1.IH"(2) [of "buf ! it"]) (use False that r "1.prems" in simp_all)
    from False "1.prems" have "it < lst" by simp
    then show ?thesis
      unfolding find_eom.simps [of buf it lst] find_eom.simps [of "buf @ ys" it lst]
      using IH1 IH2 "1.prems" by (simp add: r)
  qed
qed

lemma find_eom_resume:
  assumes "find_eom buf it n = Ok None" "it + 3 \<le> n" "n \<le> m" "m \<le> length buf"
  shows "find_eom buf it m = find_eom buf (n - 3) m"
  using assms
proof (induction buf it n rule: find_eom.induct)
  case (1 buf it n)
  show ?case
  proof (cases "it + 3 = n")
    case True
    then show ?thesis by auto
  next
    case False
    with "1.prems" have less: "it + 3 < n" by simp
    show ?thesis
    proof (cases "buf ! it = CR")
      case cr: False
      have "find_eom buf it m = find_eom buf (it + 1) m"
        using cr less "1.prems" by (subst find_eom.simps) simp
      also have "\<dots> = find_eom buf (n - 3) m"
      proof (rule "1.IH"(2) [of "buf ! it"])
        show "find_eom buf (it + 1) n = Ok None"
          using "1.prems"(1) cr less "1.prems"(3,4) by (subst (asm) find_eom.simps) simp
      qed (use cr less "1.prems" in auto)
      finally show ?thesis .
    next
      case cr: True
      have two: "buf ! (it + 1) = LF" "buf ! (it + 2) \<noteq> CR"
        using "1.prems" less cr
        by (subst (asm) find_eom.simps, auto simp: rd_def split: if_splits)+
      have step: "find_eom buf it k = find_eom buf (it + 3) k" if "n \<le> k" "k \<le> m" for k
        using cr less two "1.prems" that by (subst find_eom.simps) simp
      show ?thesis
      proof (cases "it + 6 \<le> n")
        case True
        have "find_eom buf it m = find_eom buf (it + 3) m" using step "1.prems" by simp
        also have "\<dots> = find_eom buf (n - 3) m"
          by (rule "1.IH"(1) [of "buf ! it" "buf ! (it + 1)" "buf ! (it + 2)"])
            (use cr less two True "1.prems" step [of n] in auto)
        finally show ?thesis .
      next
        case False
        have "find_eom buf (n - 3) m = find_eom buf (it + 3) m"
        proof (rule find_eom_no_CR)
          show "\<forall>k. n - 3 \<le> k \<and> k < it + 3 \<longrightarrow> buf ! k \<noteq> CR"
          proof (intro allI impI)
            fix k assume "n - 3 \<le> k \<and> k < it + 3"
            then have "k = it + 1 \<or> k = it + 2" using less False by arith
            with two show "buf ! k \<noteq> CR" by auto
          qed
        qed (use less False "1.prems" in auto)
        then show ?thesis using step "1.prems" by simp
      qed
    qed
  qed
qed

end
