(* ===== verification/Http_Lists.thy ===== *)
theory Http_Lists
  imports Http_Base
begin

text \<open>
  The list views of HTTP field values: \<open>param_list\<close>, \<open>ext_list\<close>, \<open>token_list\<close>
  (\<open>include/beast/http/impl/rfc7230.ipp\<close>) and \<open>opt_token_list\<close>
  (\<open>include/beast/http/detail/basic_parsed_list.hpp\<close> with the policy in
  \<open>include/beast/http/detail/rfc7230.hpp\<close>). Their iterators move forward through one
  \<open>string_view\<close> and compare every pointer with \<open>last\<close> before reading it, so an iterator
  is modelled by the octets from it to \<open>last\<close>: \<open>it == last\<close> is \<open>it = []\<close> and two
  pointers are equal when the suffixes are. The text between two pointers is \<open>between\<close>.
\<close>

section \<open>Pointers as suffixes\<close>

definition between :: "string \<Rightarrow> string \<Rightarrow> string" where
  "between p q = take (length p - length q) p"

primrec ows_skip :: "string \<Rightarrow> string" where
  "ows_skip [] = []"
| "ows_skip (c # it) = (if \<not> is_ows c then c # it else ows_skip it)"

primrec skip_token :: "string \<Rightarrow> string" where
  "skip_token [] = []"
| "skip_token (c # it) = (if is_tchar c then skip_token it else c # it)"

lemma ows_skip_dropWhile: "ows_skip s = dropWhile is_ows s"
  by (induction s) simp_all

lemma skip_token_dropWhile: "skip_token s = dropWhile is_tchar s"
  by (induction s) simp_all

lemma between_dropWhile [simp]: "between s (dropWhile P s) = takeWhile P s"
proof -
  have "s = takeWhile P s @ dropWhile P s" by simp
  then have "length s - length (dropWhile P s) = length (takeWhile P s)"
    by (metis add_diff_cancel_right' length_append)
  then show ?thesis
    by (simp add: between_def) (metis append_eq_conv_conj takeWhile_dropWhile_id)
qed

lemma length_ows_skip: "length (ows_skip s) \<le> length s"
  by (simp add: ows_skip_dropWhile length_dropWhile_le)

lemma length_ows_skip_Cons: "ows_skip s = c # r \<Longrightarrow> length r < length s"
  using length_ows_skip [of s] by simp

lemma length_skip_token: "length (skip_token s) \<le> length s"
  by (simp add: skip_token_dropWhile length_dropWhile_le)

text \<open>\<open>trim\<close> of \<open>detail/rfc7230.hpp\<close>: white space off both ends.\<close>

definition trim :: "string \<Rightarrow> string" where
  "trim s = rev (dropWhile is_ows (rev (ows_skip s)))"

section \<open>param_iter\<close>

record param_iter =
  pi_it :: string
  pi_first :: string
  pi_v :: "string \<times> string"

definition param_empty :: "param_iter \<Rightarrow> bool" where
  "param_empty p \<longleftrightarrow> pi_first p = pi_it p"

text \<open>The loop over a quoted-string after its opening quote; \<open>None\<close> is \<open>err()\<close>.\<close>

fun scan_quoted :: "string \<Rightarrow> string option" where
  "scan_quoted [] = None"
| "scan_quoted (c # it) =
     (if c = CHR 0x22 then Some it
      else if is_qdchar c then scan_quoted it
      else if c \<noteq> CHR 0x5C then None
      else case it of
          [] \<Rightarrow> None
        | c # it \<Rightarrow> if \<not> is_qpchar c then None else scan_quoted it)"

text \<open>
  \<open>param_iter::increment()\<close> in three steps: the value after \<open>=\<close>, the parameter after
  \<open>;\<close>, the whole. A step returns the end of what it took and the text, or \<open>None\<close> for
  \<open>err()\<close>; the name found so far stays in \<open>v.first\<close> also on an error.
\<close>

definition param_value :: "string \<Rightarrow> (string \<times> string) option" where
  "param_value it =
     (case it of
        [] \<Rightarrow> Some ([], [])
      | c # it1 \<Rightarrow>
          if c = CHR 0x22 then
            (case scan_quoted it1 of None \<Rightarrow> None | Some it2 \<Rightarrow> Some (it2, between it it2))
          else if \<not> is_tchar c then None
          else let it2 = skip_token it1 in Some (it2, between it it2))"

definition param_body :: "string \<Rightarrow> string \<times> (string \<times> string) option" where
  "param_body it =
     (case it of
        [] \<Rightarrow> ([], None)
      | c # it1 \<Rightarrow>
          if \<not> is_tchar c then ([], None)
          else let p0 = it; p1 = skip_token it1; name = between p0 p1; it = ows_skip p1 in
            (name,
             case it of
               [] \<Rightarrow> Some ([], [])
             | c # it1 \<Rightarrow>
                 if c = CHR '';'' then Some (it, [])
                 else if c \<noteq> CHR ''='' then None
                 else param_value (ows_skip it1)))"

definition param_increment :: "param_iter \<Rightarrow> param_iter" where
  "param_increment p =
     (let it = ows_skip (pi_it p); first = it in
      case it of
        [] \<Rightarrow> \<lparr>pi_it = first, pi_first = first, pi_v = ([], [])\<rparr>
      | c # it1 \<Rightarrow>
          if c \<noteq> CHR '';'' then \<lparr>pi_it = first, pi_first = first, pi_v = ([], [])\<rparr>
          else (case param_body (ows_skip it1) of
                  (name, None) \<Rightarrow> \<lparr>pi_it = first, pi_first = first, pi_v = (name, [])\<rparr>
                | (name, Some (it2, val)) \<Rightarrow>
                    \<lparr>pi_it = it2, pi_first = first, pi_v = (name, val)\<rparr>))"

section \<open>param_list\<close>

text \<open>\<open>unquote\<close>: the octets between the quotes, the backslash of a quoted pair dropped.\<close>

fun unquote_loop :: "string \<Rightarrow> string" where
  "unquote_loop [] = []"
| "unquote_loop [c] = [c]"
| "unquote_loop (c # d # it) = (if c = CHR 0x5C then d # unquote_loop it else c # unquote_loop (d # it))"

definition unquote :: "string \<Rightarrow> string" where
  "unquote sr = unquote_loop (butlast (tl sr))"

definition param_list_increment :: "param_iter \<Rightarrow> param_iter" where
  "param_list_increment p =
     (let p = param_increment p in
      if param_empty p then p\<lparr>pi_it := [], pi_first := []\<rparr>
      else if snd (pi_v p) \<noteq> [] \<and> hd (snd (pi_v p)) = CHR 0x22
      then p\<lparr>pi_v := (fst (pi_v p), unquote (snd (pi_v p)))\<rparr>
      else p)"

definition param_list_begin :: "string \<Rightarrow> param_iter" where
  "param_list_begin s = param_list_increment \<lparr>pi_it = s, pi_first = s, pi_v = ([], [])\<rparr>"

text \<open>Comparison with \<open>end()\<close>, and the range-for loop.\<close>

definition param_at_end :: "param_iter \<Rightarrow> bool" where
  "param_at_end p \<longleftrightarrow> pi_it p = [] \<and> pi_first p = []"

section \<open>ext_list and token_list\<close>

text \<open>
  The two iterators differ in their element: a token with the text of its parameter
  list, or a token alone. \<open>li_v\<close> holds the pair; \<open>token_list\<close> leaves the second empty.
\<close>

record list_iter =
  li_it :: string
  li_first :: string
  li_v :: "string \<times> string"

definition list_err :: "string \<times> string \<Rightarrow> list_iter" where
  "list_err v = \<lparr>li_it = [], li_first = [], li_v = v\<rparr>"

definition list_at_end :: "list_iter \<Rightarrow> bool" where
  "list_at_end i \<longleftrightarrow> li_it i = [] \<and> li_first i = []"

text \<open>The parameters after a token: \<open>pi.increment()\<close> until \<open>pi.empty()\<close>.\<close>

lemma length_scan_quoted: "scan_quoted s = Some r \<Longrightarrow> length r < length s"
  by (induction s arbitrary: r rule: scan_quoted.induct)
    (fastforce split: if_splits list.splits)+

lemma param_value_length:
  assumes "param_value it = Some (r, v)"
  shows "length r \<le> length it"
proof (cases it)
  case Nil
  with assms show ?thesis by (simp add: param_value_def)
next
  case (Cons c it1)
  show ?thesis
    using assms Cons length_skip_token [of it1]
    by (auto simp: param_value_def Let_def dest: length_scan_quoted split: if_splits option.splits)
qed

lemma param_body_length:
  assumes "param_body it = (n, Some (r, v))"
  shows "length r < length it"
proof -
  from assms obtain c it1 where it: "it = c # it1" "is_tchar c"
    by (auto simp: param_body_def split: list.splits if_splits)
  have le: "length (ows_skip (skip_token it1)) \<le> length it1"
    using length_ows_skip length_skip_token le_trans by blast
  from assms it consider "r = []" | "r = ows_skip (skip_token it1)"
    | d it2 where "ows_skip (skip_token it1) = d # it2" "param_value (ows_skip it2) = Some (r, v)"
    by (auto simp: param_body_def Let_def split: list.splits if_splits)
  then show ?thesis
  proof cases
    case 3
    then have "length r \<le> length (ows_skip it2)" by (blast dest: param_value_length)
    also have "\<dots> \<le> length it2" by (rule length_ows_skip)
    finally show ?thesis using 3 le it by simp
  qed (use it le in auto)
qed

lemma param_increment_shorter:
  assumes "\<not> param_empty (param_increment p)"
  shows "length (pi_it (param_increment p)) < length (pi_it p)"
proof -
  from assms obtain it1 n r v where it: "ows_skip (pi_it p) = CHR '';'' # it1"
    and b: "param_body (ows_skip it1) = (n, Some (r, v))"
    and r: "pi_it (param_increment p) = r"
    by (auto simp: param_increment_def Let_def param_empty_def
        split: list.splits if_splits prod.splits option.splits)
  have "length r < length (ows_skip it1)" by (rule param_body_length [OF b])
  also have "\<dots> \<le> length it1" by (rule length_ows_skip)
  also have "\<dots> < length (ows_skip (pi_it p))" by (simp add: it)
  also have "\<dots> \<le> length (pi_it p)" by (rule length_ows_skip)
  finally show ?thesis by (simp add: r)
qed

function params_end :: "param_iter \<Rightarrow> param_iter" where
  "params_end pi = (let pi = param_increment pi in if param_empty pi then pi else params_end pi)"
  by pat_completeness auto
termination
  by (relation "measure (\<lambda>p. length (pi_it p))") (auto simp: param_increment_shorter)

declare params_end.simps [simp del]

function param_items :: "param_iter \<Rightarrow> (string \<times> string) list" where
  "param_items p = (if param_at_end p then [] else pi_v p # param_items (param_list_increment p))"
  by pat_completeness auto
termination
proof (relation "measure (\<lambda>p. if param_at_end p then 0 else Suc (length (pi_it p)))")
  fix p assume "\<not> param_at_end p"
  moreover have "param_at_end (param_list_increment p) \<or>
      length (pi_it (param_list_increment p)) < length (pi_it p)"
    using param_increment_shorter [of p]
    by (auto simp: param_list_increment_def Let_def param_at_end_def)
  ultimately show "(param_list_increment p, p) \<in>
      measure (\<lambda>p. if param_at_end p then 0 else Suc (length (pi_it p)))"
    by auto
qed auto

declare param_items.simps [simp del]

definition param_list :: "string \<Rightarrow> (string \<times> string) list" where
  "param_list s = param_items (param_list_begin s)"

text \<open>
  \<open>increment()\<close> of the two list iterators: skip commas up to the next element. The
  loop's cases are those of the code; \<open>elem\<close> is what is done at a token.
\<close>

function list_scan :: "(string \<Rightarrow> string \<times> string \<times> string) \<Rightarrow> bool \<Rightarrow> string \<Rightarrow> string \<Rightarrow> list_iter" where
  "list_scan elem need_comma first it =
     (let it = ows_skip it in
      case it of
        [] \<Rightarrow> list_err ([], [])
      | c # it1 \<Rightarrow>
          if is_tchar c then
            if need_comma then list_err ([], [])
            else (case elem it of (rest, tok, par) \<Rightarrow>
                    \<lparr>li_it = rest, li_first = first, li_v = (tok, par)\<rparr>)
          else if c \<noteq> CHR '','' then list_err ([], [])
          else list_scan elem False first it1)"
  by pat_completeness auto
termination
proof (relation "measure (\<lambda>(elem, nc, first, it). length it)")
  fix elem :: "string \<Rightarrow> string \<times> string \<times> string" and nc :: bool and first it x c it1
  assume "x = ows_skip it" "x = c # it1"
  then show "((elem, False, first, it1), elem, nc, first, it) \<in>
      measure (\<lambda>(elem, nc, first, it). length it)"
    using length_ows_skip_Cons [of it c it1] by simp
qed auto

declare list_scan.simps [simp del]

text \<open>The element of \<open>token_list\<close>: the token.\<close>

definition token_elem :: "string \<Rightarrow> string \<times> string \<times> string" where
  "token_elem p0 = (let it = skip_token (tl p0) in (it, between p0 it, []))"

text \<open>The element of \<open>ext_list\<close>: the token and the text of its parameters.\<close>

definition ext_elem :: "string \<Rightarrow> string \<times> string \<times> string" where
  "ext_elem p0 =
     (let it = skip_token (tl p0);
          pi = params_end \<lparr>pi_it = it, pi_first = it, pi_v = ([], [])\<rparr>
      in (pi_it pi, between p0 it, between it (pi_it pi)))"

definition token_list_increment :: "list_iter \<Rightarrow> list_iter" where
  "token_list_increment i = list_scan token_elem (li_it i \<noteq> li_first i) (li_it i) (li_it i)"

definition ext_list_increment :: "list_iter \<Rightarrow> list_iter" where
  "ext_list_increment i = list_scan ext_elem (li_it i \<noteq> li_first i) (li_it i) (li_it i)"

definition list_start :: "string \<Rightarrow> list_iter" where
  "list_start s = \<lparr>li_it = s, li_first = s, li_v = ([], [])\<rparr>"

lemma length_params_end: "length (pi_it (params_end p)) \<le> length (pi_it p)"
proof (induction p rule: params_end.induct)
  case (1 p)
  show ?case
  proof (cases "param_empty (param_increment p)")
    case True
    from True have "pi_it (param_increment p) = ows_skip (pi_it p)"
      by (auto simp: param_increment_def param_empty_def Let_def split: list.splits if_splits
          prod.splits option.splits)
    then have "length (pi_it (param_increment p)) \<le> length (pi_it p)"
      by (simp add: length_ows_skip)
    with True show ?thesis by (subst params_end.simps) (simp add: Let_def)
  next
    case False
    with 1 param_increment_shorter [OF False] show ?thesis
      by (subst params_end.simps) (simp add: Let_def)
  qed
qed

lemma list_scan_shorter:
  assumes "\<And>c r. is_tchar c \<Longrightarrow> length (fst (elem (c # r))) \<le> length r"
    "\<not> list_at_end (list_scan elem nc first it)"
  shows "length (li_it (list_scan elem nc first it)) < length it"
  using assms
proof (induction elem nc first it rule: list_scan.induct)
  case (1 elem nc first it)
  show ?case
  proof (cases "ows_skip it")
    case Nil
    with "1.prems" show ?thesis
      by (subst (asm) list_scan.simps) (simp add: list_err_def list_at_end_def)
  next
    case (Cons c it1)
    then have len: "length it1 < length it" using length_ows_skip [of it] by simp
    show ?thesis
    proof (cases "is_tchar c")
      case True
      then have "length (fst (elem (c # it1))) \<le> length it1" by (rule "1.prems"(1))
      with True Cons len "1.prems"(2) show ?thesis
        by (subst list_scan.simps, subst (asm) list_scan.simps)
          (auto simp: list_err_def list_at_end_def split: prod.splits)
    next
      case False
      show ?thesis
      proof (cases "c = CHR '',''")
        case True
        then have eq: "list_scan elem nc first it = list_scan elem False first it1"
          using Cons by (subst list_scan.simps) simp
        have "length (li_it (list_scan elem False first it1)) < length it1"
          by (rule "1.IH" [of "c # it1" c it1]) (use False True Cons "1.prems" eq in auto)
        with eq len show ?thesis by simp
      next
        case noncomma: False
        with False Cons "1.prems"(2) show ?thesis
          by (subst (asm) list_scan.simps) (simp add: list_err_def list_at_end_def)
      qed
    qed
  qed
qed

lemma length_token_elem: "length (fst (token_elem (c # r))) \<le> length r"
  by (simp add: token_elem_def Let_def length_skip_token)

lemma length_ext_elem: "length (fst (ext_elem (c # r))) \<le> length r"
  using length_params_end [of "\<lparr>pi_it = skip_token r, pi_first = skip_token r, pi_v = ([], [])\<rparr>"]
    length_skip_token [of r]
  by (simp add: ext_elem_def Let_def)

function token_items :: "list_iter \<Rightarrow> string list" where
  "token_items i = (if list_at_end i then [] else fst (li_v i) # token_items (token_list_increment i))"
  by pat_completeness auto
termination
proof (relation "measure (\<lambda>i. if list_at_end i then 0 else Suc (length (li_it i)))")
  fix i assume "\<not> list_at_end i"
  moreover have "list_at_end (token_list_increment i) \<or>
      length (li_it (token_list_increment i)) < length (li_it i)"
    unfolding token_list_increment_def using length_token_elem by (blast intro: list_scan_shorter)
  ultimately show "(token_list_increment i, i) \<in>
      measure (\<lambda>i. if list_at_end i then 0 else Suc (length (li_it i)))" by auto
qed auto

declare token_items.simps [simp del]

definition token_list :: "string \<Rightarrow> string list" where
  "token_list s = token_items (token_list_increment (list_start s))"

definition token_list_exists :: "string \<Rightarrow> string \<Rightarrow> bool" where
  "token_list_exists s t \<longleftrightarrow> (\<exists>v \<in> set (token_list s). ci_equal t v)"

function ext_items :: "list_iter \<Rightarrow> (string \<times> string) list" where
  "ext_items i = (if list_at_end i then [] else li_v i # ext_items (ext_list_increment i))"
  by pat_completeness auto
termination
proof (relation "measure (\<lambda>i. if list_at_end i then 0 else Suc (length (li_it i)))")
  fix i assume "\<not> list_at_end i"
  moreover have "list_at_end (ext_list_increment i) \<or>
      length (li_it (ext_list_increment i)) < length (li_it i)"
    unfolding ext_list_increment_def using length_ext_elem by (blast intro: list_scan_shorter)
  ultimately show "(ext_list_increment i, i) \<in>
      measure (\<lambda>i. if list_at_end i then 0 else Suc (length (li_it i)))" by auto
qed auto

declare ext_items.simps [simp del]

definition ext_list :: "string \<Rightarrow> (string \<times> string) list" where
  "ext_list s = ext_items (ext_list_increment (list_start s))"

definition ext_list_find :: "string \<Rightarrow> string \<Rightarrow> (string \<times> string) option" where
  "ext_list_find s t = List.find (\<lambda>v. ci_equal t (fst v)) (ext_list s)"

definition ext_list_exists :: "string \<Rightarrow> string \<Rightarrow> bool" where
  "ext_list_exists s t \<longleftrightarrow> ext_list_find s t \<noteq> None"

section \<open>opt_token_list and validate_list\<close>

text \<open>
  The policy's call: success, the element and the new \<open>it\<close>, where \<open>None\<close> is \<open>nullptr\<close>.
\<close>

function opt_token_loop :: "bool \<Rightarrow> string \<Rightarrow> bool \<times> string \<times> string option" where
  "opt_token_loop need_comma it =
     (let it = ows_skip it in
      case it of
        [] \<Rightarrow> (True, [], None)
      | c # it1 \<Rightarrow>
          if is_tchar c then
            if need_comma then (False, [], Some it)
            else let p0 = it; it = skip_token it1 in (True, between p0 it, Some it)
          else if c \<noteq> CHR '','' then (False, [], Some it)
          else opt_token_loop False it1)"
  by pat_completeness auto
termination
proof (relation "measure (\<lambda>(nc, it). length it)")
  fix nc :: bool and it x c it1
  assume "x = ows_skip it" "x = c # it1"
  then show "((False, it1), nc, it) \<in> measure (\<lambda>(nc, it). length it)"
    using length_ows_skip_Cons [of it c it1] by simp
qed auto

declare opt_token_loop.simps [simp del]

definition opt_token_list_policy :: "string \<Rightarrow> string \<Rightarrow> bool \<times> string \<times> string option" where
  "opt_token_list_policy it s = opt_token_loop (it \<noteq> s) it"

text \<open>
  \<open>basic_parsed_list::const_iterator\<close>. The policy is only called while \<open>it_\<close> is not
  null; the code's loops stop at \<open>end()\<close>, so the null case below is never run.
\<close>

record parsed_iter =
  bl_it :: "string option"
  bl_v :: string
  bl_error :: bool

definition parsed_increment :: "string \<Rightarrow> parsed_iter \<Rightarrow> parsed_iter" where
  "parsed_increment s i =
     (case bl_it i of
        None \<Rightarrow> i
      | Some it \<Rightarrow>
          (case opt_token_list_policy it s of
             (True, v, it') \<Rightarrow> i\<lparr>bl_it := it', bl_v := v\<rparr>
           | (False, v, it') \<Rightarrow> i\<lparr>bl_it := None, bl_v := v, bl_error := True\<rparr>))"

definition parsed_begin :: "string \<Rightarrow> parsed_iter" where
  "parsed_begin s = parsed_increment s \<lparr>bl_it = Some s, bl_v = [], bl_error = False\<rparr>"

lemma opt_token_loop_shorter:
  "opt_token_loop nc it = (ok, v, Some it') \<Longrightarrow> ok \<Longrightarrow> length it' < length it"
proof (induction nc it rule: opt_token_loop.induct)
  case (1 nc it)
  have "ows_skip it \<noteq> []"
  proof
    assume "ows_skip it = []"
    with "1.prems"(1) show False by (subst (asm) opt_token_loop.simps) simp
  qed
  then obtain c it1 where c: "ows_skip it = c # it1" by (cases "ows_skip it") auto
  then have len: "length it1 < length it" using length_ows_skip [of it] by simp
  show ?case
  proof (cases "is_tchar c")
    case True
    with "1.prems" c have "it' = skip_token it1"
      by (subst (asm) opt_token_loop.simps) (auto simp: Let_def split: if_splits)
    with len length_skip_token [of it1] show ?thesis by simp
  next
    case False
    with "1.prems" c have comma: "c = CHR '',''" "opt_token_loop False it1 = (ok, v, Some it')"
      by (subst (asm) opt_token_loop.simps, auto split: if_splits)+
    have "length it' < length it1"
      by (rule "1.IH" [of "c # it1" c it1]) (use False comma c "1.prems" in auto)
    with len show ?thesis by simp
  qed
qed

text \<open>The range-for over an \<open>opt_token_list\<close>, and \<open>validate_list\<close>.\<close>

function parsed_items :: "string \<Rightarrow> parsed_iter \<Rightarrow> string list" where
  "parsed_items s i =
     (if bl_it i = None then [] else bl_v i # parsed_items s (parsed_increment s i))"
  by pat_completeness auto
termination
  by (relation "measure (\<lambda>(s, i). case bl_it i of None \<Rightarrow> 0 | Some it \<Rightarrow> Suc (length it))")
    (auto simp: parsed_increment_def opt_token_list_policy_def
      dest: opt_token_loop_shorter split: prod.splits bool.splits option.splits)

declare parsed_items.simps [simp del]

definition opt_token_list :: "string \<Rightarrow> string list" where
  "opt_token_list s = parsed_items s (parsed_begin s)"

function validate_loop :: "string \<Rightarrow> parsed_iter \<Rightarrow> bool" where
  "validate_loop s i =
     (if bl_it i = None then True
      else let i = parsed_increment s i in
        if bl_error i then False else if bl_it i = None then True else validate_loop s i)"
  by pat_completeness auto
termination
  by (relation "measure (\<lambda>(s, i). case bl_it i of None \<Rightarrow> 0 | Some it \<Rightarrow> Suc (length it))")
    (auto simp: parsed_increment_def opt_token_list_policy_def
      dest: opt_token_loop_shorter split: prod.splits bool.splits option.splits)

declare validate_loop.simps [simp del]

definition validate_list :: "string \<Rightarrow> bool" where
  "validate_list s = (let i = parsed_begin s in if bl_error i then False else validate_loop s i)"

end
