(* ===== verification/Http_Lists_Spec.thy ===== *)
theory Http_Lists_Spec
  imports Http_Lists
begin

text \<open>
  What the comma separated lists of \<open>Http_Lists\<close> mean. The reference reading of a list
  is: split at the commas, trim each piece; the list is well formed when every piece is
  empty or made of token characters, and its elements are the non-empty pieces. Both
  list implementations are compared with it through \<open>list_run\<close>, which iterates the
  policy and returns the elements seen and whether the end was reached without an error.
\<close>

section \<open>The reference reading\<close>

function split_commas :: "string \<Rightarrow> string list" where
  "split_commas s =
     takeWhile (\<lambda>c. c \<noteq> CHR '','') s #
       (case dropWhile (\<lambda>c. c \<noteq> CHR '','') s of [] \<Rightarrow> [] | _ # r \<Rightarrow> split_commas r)"
  by pat_completeness auto
termination
proof (relation "measure length")
  fix s r :: string and c
  assume "dropWhile (\<lambda>c. c \<noteq> CHR '','') s = c # r"
  then show "(r, s) \<in> measure length"
    using length_dropWhile_le [of "\<lambda>c. c \<noteq> CHR '',''" s] by simp
qed auto

declare split_commas.simps [simp del]

definition good_piece :: "string \<Rightarrow> bool" where
  "good_piece p \<longleftrightarrow> list_all is_tchar (trim p)"

definition list_elements :: "string \<Rightarrow> string list" where
  "list_elements s = filter (\<lambda>t. t \<noteq> []) (map trim (split_commas s))"

definition list_well_formed :: "string \<Rightarrow> bool" where
  "list_well_formed s \<longleftrightarrow> list_all good_piece (split_commas s)"

lemma split_commas_last: "CHR '','' \<notin> set p \<Longrightarrow> split_commas p = [p]"
proof -
  assume p: "CHR '','' \<notin> set p"
  then have "takeWhile (\<lambda>c. c \<noteq> CHR '','') p = p" "dropWhile (\<lambda>c. c \<noteq> CHR '','') p = []"
    by (auto simp: takeWhile_eq_all_conv dropWhile_eq_Nil_conv)
  then show ?thesis by (subst split_commas.simps) (simp only: list.case)
qed

lemma split_commas_more:
  "CHR '','' \<notin> set p \<Longrightarrow> split_commas (p @ CHR '','' # r) = p # split_commas r"
proof -
  assume p: "CHR '','' \<notin> set p"
  then have "takeWhile (\<lambda>c. c \<noteq> CHR '','') (p @ CHR '','' # r) = p"
    "dropWhile (\<lambda>c. c \<noteq> CHR '','') (p @ CHR '','' # r) = CHR '','' # r"
    by (auto simp: takeWhile_append dropWhile_append)
  then show ?thesis by (subst split_commas.simps) simp
qed

text \<open>Every string starts with a piece that a comma or the end follows.\<close>

lemma piece_cases:
  obtains (last) "CHR '','' \<notin> set s"
  | (more) p r where "CHR '','' \<notin> set p" "s = p @ CHR '','' # r"
proof (cases "CHR '','' \<in> set s")
  case True
  then show thesis using that(2) by (metis split_list_first)
next
  case False
  then show thesis using that(1) by blast
qed

text \<open>A piece, its token and what follows the token.\<close>

lemma trim_good:
  assumes "list_all is_ows (dropWhile is_tchar (ows_skip p))"
  shows "trim p = takeWhile is_tchar (ows_skip p)"
proof -
  define t w where "t = takeWhile is_tchar (ows_skip p)" "w = dropWhile is_tchar (ows_skip p)"
  have q: "ows_skip p = t @ w" by (simp add: t_w_def)
  have "dropWhile is_ows (rev w @ rev t) = dropWhile is_ows (rev t)"
    using assms by (intro dropWhile_append2) (simp add: t_w_def list_all_iff)
  also have "\<dots> = rev t"
  proof (cases "rev t")
    case (Cons c r)
    then have "c \<in> set t" by (metis list.set_intros(1) set_rev)
    then have "is_tchar c" by (auto simp: t_w_def dest: set_takeWhileD)
    with Cons show ?thesis by (simp add: tchar_not_ows)
  qed simp
  finally have "trim p = t"
    by (simp add: trim_def q)
  then show ?thesis by (simp add: t_w_def(1))
qed

lemma good_piece_iff:
  "good_piece p \<longleftrightarrow> list_all is_ows (dropWhile is_tchar (ows_skip p))"
proof
  assume "list_all is_ows (dropWhile is_tchar (ows_skip p))"
  from trim_good [OF this] show "good_piece p"
    by (auto simp: good_piece_def list_all_iff dest: set_takeWhileD)
next
  assume good: "good_piece p"
  define t w where "t = takeWhile is_tchar (ows_skip p)" "w = dropWhile is_tchar (ows_skip p)"
  have q: "ows_skip p = t @ w" by (simp add: t_w_def)
  show "list_all is_ows (dropWhile is_tchar (ows_skip p))"
  proof (rule ccontr)
    assume "\<not> list_all is_ows (dropWhile is_tchar (ows_skip p))"
    then have "\<exists>c \<in> set (rev w). \<not> is_ows c" by (simp add: t_w_def list_all_iff)
    then have ne: "dropWhile is_ows (rev w) \<noteq> []" by (auto simp: dropWhile_eq_Nil_conv)
    from \<open>\<exists>c \<in> set (rev w). \<not> is_ows c\<close> obtain d where "d \<in> set (rev w)" "\<not> is_ows d" by blast
    then have "dropWhile is_ows (rev w @ rev t) = dropWhile is_ows (rev w) @ rev t"
      by (rule dropWhile_append1)
    then have trim: "trim p = t @ rev (dropWhile is_ows (rev w))"
      by (simp add: trim_def q)
    have "w = rev (dropWhile is_ows (rev w)) @ rev (takeWhile is_ows (rev w))"
      by (metis rev_append rev_rev_ident takeWhile_dropWhile_id)
    then have "hd w = hd (rev (dropWhile is_ows (rev w)))"
      using ne by (metis hd_append2 rev_is_Nil_conv)
    moreover have "hd (rev (dropWhile is_ows (rev w))) \<in> set (trim p)"
      using ne trim by (metis UnCI hd_in_set rev_is_Nil_conv set_append)
    ultimately have "is_tchar (hd w)"
      using good by (auto simp: good_piece_def list_all_iff)
    moreover have "w \<noteq> []" using ne by auto
    ultimately show False
      by (simp add: t_w_def hd_dropWhile)
  qed
qed

section \<open>Iterating the policy\<close>

function list_run :: "bool \<Rightarrow> string \<Rightarrow> string list \<times> bool" where
  "list_run nc it =
     (case opt_token_loop nc it of
        (ok, v, it') \<Rightarrow>
          if ok then (case it' of None \<Rightarrow> ([], True)
                      | Some it' \<Rightarrow> (case list_run True it' of (ts, ok) \<Rightarrow> (v # ts, ok)))
          else ([], False))"
  by pat_completeness auto
termination
  by (relation "measure (\<lambda>(nc, it). length it)") (auto dest: opt_token_loop_shorter [OF sym])

declare list_run.simps [simp del]

lemma opt_loop_end: "ows_skip it = [] \<Longrightarrow> opt_token_loop nc it = (True, [], None)"
  by (subst opt_token_loop.simps) simp

lemma opt_loop_comma:
  "ows_skip it = CHR '','' # r \<Longrightarrow> opt_token_loop nc it = opt_token_loop False r"
  by (subst opt_token_loop.simps) simp

lemma opt_loop_token:
  "ows_skip it = c # r \<Longrightarrow> is_tchar c \<Longrightarrow> opt_token_loop False it =
     (True, takeWhile is_tchar (c # r), Some (dropWhile is_tchar (c # r)))"
  using between_dropWhile [of "c # r" is_tchar]
  by (subst opt_token_loop.simps) (simp add: Let_def skip_token_dropWhile)

lemma opt_loop_bad:
  "ows_skip it = c # r \<Longrightarrow> (is_tchar c \<Longrightarrow> nc) \<Longrightarrow> c \<noteq> CHR '','' \<Longrightarrow>
     opt_token_loop nc it = (False, [], Some (c # r))"
  by (subst opt_token_loop.simps) (auto simp: Let_def)

lemma list_run_end: "ows_skip it = [] \<Longrightarrow> list_run nc it = ([], True)"
  by (subst list_run.simps) (simp add: opt_loop_end)

lemma list_run_comma: "ows_skip it = CHR '','' # r \<Longrightarrow> list_run nc it = list_run False r"
  by (subst (1 2) list_run.simps) (simp add: opt_loop_comma)

lemma list_run_token:
  "ows_skip it = c # r \<Longrightarrow> is_tchar c \<Longrightarrow> list_run False it =
     (case list_run True (dropWhile is_tchar (c # r)) of (ts, ok) \<Rightarrow> (takeWhile is_tchar (c # r) # ts, ok))"
  by (subst list_run.simps) (simp add: opt_loop_token)

lemma list_run_bad:
  "ows_skip it = c # r \<Longrightarrow> (is_tchar c \<Longrightarrow> nc) \<Longrightarrow> c \<noteq> CHR '','' \<Longrightarrow> list_run nc it = ([], False)"
  by (subst list_run.simps) (simp add: opt_loop_bad)

section \<open>Piece by piece\<close>

lemma ows_skip_append:
  "ows_skip (p @ x) = (if list_all is_ows p then ows_skip x else ows_skip p @ x)"
  by (induction p) auto

lemma ows_skip_Nil: "ows_skip p = [] \<longleftrightarrow> list_all is_ows p"
  by (induction p) auto

lemma set_ows_skip: "set (ows_skip p) \<subseteq> set p"
  by (induction p) auto

lemma list_run_true_bad:
  assumes "CHR '','' \<notin> set p" "\<not> list_all is_ows p"
  shows "list_run True (p @ x) = ([], False)"
proof -
  from assms(2) obtain c r where c: "ows_skip p = c # r"
    by (cases "ows_skip p") (auto simp: ows_skip_Nil)
  with assms set_ows_skip [of p] show ?thesis
    by (intro list_run_bad [where c = c and r = "r @ x"]) (auto simp: ows_skip_append)
qed

text \<open>\<open>x\<close> is what follows a piece: nothing, or a comma and the rest of the list.\<close>

definition after_piece :: "string \<Rightarrow> bool" where
  "after_piece x \<longleftrightarrow> x = [] \<or> (\<exists>r. x = CHR '','' # r)"

lemma list_run_after:
  assumes "after_piece x" "list_all is_ows p"
  shows "list_run nc (p @ x) = (case x of [] \<Rightarrow> ([], True) | _ # r \<Rightarrow> list_run False r)"
  using assms
  by (auto simp: after_piece_def ows_skip_append ows_skip_Nil is_ows_def
      intro!: list_run_end list_run_comma)

lemma while_append_stop:
  assumes "x = [] \<or> \<not> P (hd x)"
  shows "takeWhile P (p @ x) = takeWhile P p \<and> dropWhile P (p @ x) = dropWhile P p @ x"
  using assms by (induction p) (cases x; auto)+

lemma list_run_piece:
  assumes "CHR '','' \<notin> set p" "after_piece x"
  shows "snd (list_run False (p @ x)) \<longleftrightarrow>
      good_piece p \<and> (case x of [] \<Rightarrow> True | _ # r \<Rightarrow> snd (list_run False r))"
    and "good_piece p \<Longrightarrow> fst (list_run False (p @ x)) =
      filter (\<lambda>t. t \<noteq> []) [trim p] @ (case x of [] \<Rightarrow> [] | _ # r \<Rightarrow> fst (list_run False r))"
proof -
  have both: "(snd (list_run False (p @ x)) \<longleftrightarrow>
      good_piece p \<and> (case x of [] \<Rightarrow> True | _ # r \<Rightarrow> snd (list_run False r))) \<and>
    (good_piece p \<longrightarrow> fst (list_run False (p @ x)) =
      filter (\<lambda>t. t \<noteq> []) [trim p] @ (case x of [] \<Rightarrow> [] | _ # r \<Rightarrow> fst (list_run False r)))"
  proof (cases "ows_skip p")
    case Nil
    then have "good_piece p" "trim p = []"
      by (simp_all add: good_piece_iff trim_def)
    with Nil assms(2) show ?thesis
      by (simp add: list_run_after ows_skip_Nil split: list.splits)
  next
    case (Cons c q)
    then have skip: "ows_skip (p @ x) = c # q @ x"
      by (simp add: ows_skip_append flip: ows_skip_Nil)
    have nocomma: "CHR '','' \<notin> set (c # q)" using assms(1) set_ows_skip [of p] Cons by auto
    show ?thesis
    proof (cases "is_tchar c")
      case False
      with Cons have "\<not> good_piece p"
        using set_ows_skip hd_dropWhile [of is_ows p]
        by (auto simp: good_piece_iff ows_skip_dropWhile)
      moreover have "list_run False (p @ x) = ([], False)"
        by (rule list_run_bad [OF skip]) (use False nocomma in auto)
      ultimately show ?thesis by simp
    next
      case True
      define t w where "t = takeWhile is_tchar (c # q)" "w = dropWhile is_tchar (c # q)"
      have x: "x = [] \<or> \<not> is_tchar (hd x)" using assms(2) by (auto simp: after_piece_def)
      have "takeWhile is_tchar ((c # q) @ x) = t \<and> dropWhile is_tchar ((c # q) @ x) = w @ x"
        unfolding t_w_def using x by (rule while_append_stop)
      then have tw: "takeWhile is_tchar (c # q @ x) = t" "dropWhile is_tchar (c # q @ x) = w @ x"
        by simp_all
      have run: "list_run False (p @ x) =
          (case list_run True (w @ x) of (ts, ok) \<Rightarrow> (t # ts, ok))"
        using list_run_token [OF skip True] by (simp only: tw)
      have w: "CHR '','' \<notin> set w" using nocomma unfolding t_w_def by (meson set_dropWhileD)
      show ?thesis
      proof (cases "list_all is_ows w")
        case good: True
        then have "good_piece p" by (simp add: good_piece_iff Cons t_w_def)
        moreover have "trim p = t"
          using good by (simp add: trim_good Cons t_w_def)
        moreover have "t \<noteq> []" using True by (simp add: t_w_def)
        ultimately show ?thesis
          using good assms(2) run by (simp add: list_run_after split: list.splits prod.splits)
      next
        case False
        then have "\<not> good_piece p" by (simp add: good_piece_iff Cons t_w_def)
        with False run w show ?thesis by (simp add: list_run_true_bad)
      qed
    qed
  qed
  then show "snd (list_run False (p @ x)) \<longleftrightarrow>
      good_piece p \<and> (case x of [] \<Rightarrow> True | _ # r \<Rightarrow> snd (list_run False r))"
    and "good_piece p \<Longrightarrow> fst (list_run False (p @ x)) =
      filter (\<lambda>t. t \<noteq> []) [trim p] @ (case x of [] \<Rightarrow> [] | _ # r \<Rightarrow> fst (list_run False r))"
    by blast+
qed

lemma list_run_spec:
  "snd (list_run False s) = list_well_formed s \<and>
   (list_well_formed s \<longrightarrow> fst (list_run False s) = list_elements s)"
proof (induction "length s" arbitrary: s rule: less_induct)
  case less
  show ?case
  proof (cases s rule: piece_cases)
    case last
    with list_run_piece [of s "[]"] show ?thesis
      by (simp add: after_piece_def list_well_formed_def list_elements_def split_commas_last)
  next
    case (more p r)
    then have "snd (list_run False r) = list_well_formed r \<and>
        (list_well_formed r \<longrightarrow> fst (list_run False r) = list_elements r)"
      by (intro less) simp
    with list_run_piece [of p "CHR '','' # r"] more show ?thesis
      by (simp add: after_piece_def list_well_formed_def list_elements_def split_commas_more)
  qed
qed

section \<open>The implementations\<close>

lemma policy_run:
  assumes "opt_token_list_policy it s = (ok, v, it')"
  shows "list_run (it \<noteq> s) it =
    (if ok then (case it' of None \<Rightarrow> ([], True)
                 | Some it' \<Rightarrow> (case list_run True it' of (ts, ok) \<Rightarrow> (v # ts, ok)))
     else ([], False))"
  using assms by (subst list_run.simps) (simp add: opt_token_list_policy_def)

lemma policy_shorter:
  "opt_token_list_policy it s = (True, v, Some it') \<Longrightarrow> length it' < length it"
  unfolding opt_token_list_policy_def by (rule opt_token_loop_shorter) auto

lemma parsed_items_run:
  "bl_it i = Some it \<Longrightarrow> length it < length s \<Longrightarrow>
     parsed_items s i = bl_v i # fst (list_run True it)"
proof (induction "length it" arbitrary: i it rule: less_induct)
  case less
  obtain ok v it' where pol: "opt_token_list_policy it s = (ok, v, it')"
    by (cases "opt_token_list_policy it s")
  from less.prems have ne: "it \<noteq> s" by auto
  have run: "list_run True it =
    (if ok then (case it' of None \<Rightarrow> ([], True)
                 | Some it' \<Rightarrow> (case list_run True it' of (ts, ok) \<Rightarrow> (v # ts, ok)))
     else ([], False))"
    using policy_run [OF pol] ne by simp
  have step: "parsed_items s i = bl_v i # parsed_items s (parsed_increment s i)"
    using less.prems by (subst parsed_items.simps) simp
  show ?case
  proof (cases "ok \<and> it' \<noteq> None")
    case False
    then have "bl_it (parsed_increment s i) = None"
      using pol less.prems by (cases ok) (simp_all add: parsed_increment_def)
    then have "parsed_items s (parsed_increment s i) = []"
      by (subst parsed_items.simps) simp
    with step run False show ?thesis by auto
  next
    case True
    then obtain it2 where it2: "it' = Some it2" "ok" by auto
    with pol have "length it2 < length it" by (auto intro: policy_shorter)
    with less.hyps [of it2 "parsed_increment s i"] less.prems pol it2
    have "parsed_items s (parsed_increment s i) = v # fst (list_run True it2)"
      by (simp add: parsed_increment_def)
    with step run it2 show ?thesis by (simp split: prod.splits)
  qed
qed

lemma opt_token_list_run: "opt_token_list s = fst (list_run False s)"
proof -
  obtain ok v it' where pol: "opt_token_list_policy s s = (ok, v, it')"
    by (cases "opt_token_list_policy s s")
  have run: "list_run False s =
    (if ok then (case it' of None \<Rightarrow> ([], True)
                 | Some it' \<Rightarrow> (case list_run True it' of (ts, ok) \<Rightarrow> (v # ts, ok)))
     else ([], False))"
    using policy_run [OF pol] by simp
  show ?thesis
  proof (cases "ok \<and> it' \<noteq> None")
    case False
    then have "bl_it (parsed_begin s) = None"
      using pol by (cases ok) (simp_all add: parsed_begin_def parsed_increment_def)
    then have "parsed_items s (parsed_begin s) = []"
      by (subst parsed_items.simps) simp
    with run False show ?thesis by (auto simp: opt_token_list_def)
  next
    case True
    then obtain it2 where it2: "it' = Some it2" "ok" by auto
    with pol have "length it2 < length s" by (auto intro: policy_shorter)
    with parsed_items_run [of "parsed_begin s" it2 s] pol it2
    have "parsed_items s (parsed_begin s) = v # fst (list_run True it2)"
      by (simp add: parsed_begin_def parsed_increment_def)
    with run it2 show ?thesis by (simp add: opt_token_list_def split: prod.splits)
  qed
qed

lemma validate_loop_run:
  "bl_it i = Some it \<Longrightarrow> \<not> bl_error i \<Longrightarrow> length it < length s \<Longrightarrow>
     validate_loop s i = snd (list_run True it)"
proof (induction "length it" arbitrary: i it rule: less_induct)
  case less
  obtain ok v it' where pol: "opt_token_list_policy it s = (ok, v, it')"
    by (cases "opt_token_list_policy it s")
  from less.prems have ne: "it \<noteq> s" by auto
  have run: "list_run True it =
    (if ok then (case it' of None \<Rightarrow> ([], True)
                 | Some it' \<Rightarrow> (case list_run True it' of (ts, ok) \<Rightarrow> (v # ts, ok)))
     else ([], False))"
    using policy_run [OF pol] ne by simp
  show ?case
  proof (cases "ok \<and> it' \<noteq> None")
    case False
    with pol less.prems run show ?thesis
      by (subst validate_loop.simps) (cases ok; auto simp: parsed_increment_def Let_def)
  next
    case True
    then obtain it2 where it2: "it' = Some it2" "ok" by auto
    with pol have "length it2 < length it" by (auto intro: policy_shorter)
    with less.hyps [of it2 "parsed_increment s i"] less.prems pol it2
    have "validate_loop s (parsed_increment s i) = snd (list_run True it2)"
      by (simp add: parsed_increment_def)
    with less.prems run it2 pol show ?thesis
      by (subst validate_loop.simps) (simp add: parsed_increment_def Let_def split: prod.splits)
  qed
qed

lemma validate_list_run: "validate_list s = snd (list_run False s)"
proof -
  obtain ok v it' where pol: "opt_token_list_policy s s = (ok, v, it')"
    by (cases "opt_token_list_policy s s")
  have run: "list_run False s =
    (if ok then (case it' of None \<Rightarrow> ([], True)
                 | Some it' \<Rightarrow> (case list_run True it' of (ts, ok) \<Rightarrow> (v # ts, ok)))
     else ([], False))"
    using policy_run [OF pol] by simp
  show ?thesis
  proof (cases "ok \<and> it' \<noteq> None")
    case False
    with pol run show ?thesis
      by (cases ok) (auto simp: validate_list_def parsed_begin_def parsed_increment_def Let_def
          validate_loop.simps [of s "\<lparr>bl_it = None, bl_v = v, bl_error = False\<rparr>"])
  next
    case True
    then obtain it2 where it2: "it' = Some it2" "ok" by auto
    with pol have "length it2 < length s" by (auto intro: policy_shorter)
    with validate_loop_run [of "parsed_begin s" it2 s] pol it2
    have "validate_loop s (parsed_begin s) = snd (list_run True it2)"
      by (simp add: parsed_begin_def parsed_increment_def)
    with run it2 pol show ?thesis
      by (simp add: validate_list_def parsed_begin_def parsed_increment_def Let_def split: prod.splits)
  qed
qed

section \<open>The other list iterator\<close>

lemma token_elem_Cons:
  "token_elem (c # r) = (skip_token r, between (c # r) (skip_token r), [])"
  by (simp add: token_elem_def Let_def)

lemma list_scan_loop:
  "list_scan token_elem nc first it =
     (case opt_token_loop nc it of
        (ok, v, it') \<Rightarrow>
          if ok then (case it' of None \<Rightarrow> list_err ([], [])
                      | Some it' \<Rightarrow> \<lparr>li_it = it', li_first = first, li_v = (v, [])\<rparr>)
          else list_err ([], []))"
proof (induction nc it rule: opt_token_loop.induct)
  case (1 nc it)
  show ?case
    by (subst list_scan.simps, subst opt_token_loop.simps)
      (use "1.IH" in \<open>auto simp: Let_def token_elem_Cons split: list.split prod.split\<close>)
qed

lemma token_items_run:
  "length (li_it i) < length (li_first i) \<Longrightarrow>
     token_items i = fst (li_v i) # fst (list_run True (li_it i))"
proof (induction "length (li_it i)" arbitrary: i rule: less_induct)
  case less
  obtain ok v it' where pol: "opt_token_loop True (li_it i) = (ok, v, it')"
    by (cases "opt_token_loop True (li_it i)")
  have run: "list_run True (li_it i) =
    (if ok then (case it' of None \<Rightarrow> ([], True)
                 | Some it' \<Rightarrow> (case list_run True it' of (ts, ok) \<Rightarrow> (v # ts, ok)))
     else ([], False))"
    by (subst list_run.simps) (simp add: pol)
  from less.prems have ne: "li_it i \<noteq> li_first i" "\<not> list_at_end i"
    by (auto simp: list_at_end_def)
  have step: "token_items i = fst (li_v i) # token_items (token_list_increment i)"
    using ne(2) by (subst token_items.simps) simp
  have inc: "token_list_increment i = (if ok then (case it' of None \<Rightarrow> list_err ([], [])
        | Some it' \<Rightarrow> \<lparr>li_it = it', li_first = li_it i, li_v = (v, [])\<rparr>) else list_err ([], []))"
    using ne(1) by (simp add: token_list_increment_def list_scan_loop pol)
  have stop: "token_items (list_err ([], [])) = []"
    by (subst token_items.simps) (simp add: list_err_def list_at_end_def)
  show ?case
  proof (cases "ok \<and> it' \<noteq> None")
    case False
    with step run inc stop show ?thesis by (auto split: if_splits)
  next
    case True
    then obtain it2 where it2: "it' = Some it2" "ok" by auto
    with pol have "length it2 < length (li_it i)" by (auto intro: opt_token_loop_shorter)
    with less.hyps [of "token_list_increment i"] inc it2
    have "token_items (token_list_increment i) = v # fst (list_run True it2)" by simp
    with step run it2 show ?thesis by (simp split: prod.splits)
  qed
qed

lemma token_list_run: "token_list s = fst (list_run False s)"
proof -
  obtain ok v it' where pol: "opt_token_loop False s = (ok, v, it')"
    by (cases "opt_token_loop False s")
  have run: "list_run False s =
    (if ok then (case it' of None \<Rightarrow> ([], True)
                 | Some it' \<Rightarrow> (case list_run True it' of (ts, ok) \<Rightarrow> (v # ts, ok)))
     else ([], False))"
    by (subst list_run.simps) (simp add: pol)
  have inc: "token_list_increment (list_start s) = (if ok then (case it' of None \<Rightarrow> list_err ([], [])
        | Some it' \<Rightarrow> \<lparr>li_it = it', li_first = s, li_v = (v, [])\<rparr>) else list_err ([], []))"
    by (simp add: token_list_increment_def list_start_def list_scan_loop pol)
  have stop: "token_items (list_err ([], [])) = []"
    by (subst token_items.simps) (simp add: list_err_def list_at_end_def)
  show ?thesis
  proof (cases "ok \<and> it' \<noteq> None")
    case False
    with run inc stop show ?thesis by (auto simp: token_list_def split: if_splits)
  next
    case True
    then obtain it2 where it2: "it' = Some it2" "ok" by auto
    with pol have "length it2 < length s" by (auto intro: opt_token_loop_shorter)
    with token_items_run [of "token_list_increment (list_start s)"] inc it2
    have "token_items (token_list_increment (list_start s)) = v # fst (list_run True it2)" by simp
    with run it2 show ?thesis by (simp add: token_list_def split: prod.splits)
  qed
qed

end
