(* ===== verification/Http_Numbers.thy ===== *)
theory Http_Numbers
  imports Http_Base
begin

text \<open>
  The two number parsers of \<open>basic_parser_base\<close> against the values the digits denote:
  \<open>parse_dec\<close> (Content-Length) is exact up to its cut-off and never wraps; \<open>parse_hex\<close>
  (chunk sizes) is exact on up to 16 digits without a leading zero, refuses a second
  leading zero, accepts octets that are no digits, and its overflow test lets some
  17-digit sizes wrap.
\<close>

section \<open>Values of digit strings\<close>

definition dec_value :: "string \<Rightarrow> nat" where
  "dec_value s = foldl (\<lambda>v c. 10 * v + (octet c - 48)) 0 s"

lemma dec_value_simps [simp]:
  "dec_value [] = 0"
  "dec_value (s @ [c]) = 10 * dec_value s + (octet c - 48)"
  by (simp_all add: dec_value_def)

lemma slice_snoc: "i \<le> j \<Longrightarrow> j < length buf \<Longrightarrow> slice buf i (Suc j) = slice buf i j @ [buf ! j]"
  by (simp add: slice_def Suc_diff_le take_Suc_conv_app_nth)

lemma digit_val_digit:
  assumes "parser_is_digit c"
  shows "of_int (digit_val c) = (of_nat (octet c - 48) :: u64)" "octet c - 48 \<le> 9" "48 \<le> octet c"
proof -
  from assms have r: "48 \<le> octet c" "octet c \<le> 57"
    by (auto simp: parser_is_digit_iff rfc_digit_def)
  have "octet CHR ''0'' = 48" by (simp add: octet_def)
  with r have "digit_val c = int (octet c - 48)"
    by (simp add: digit_val_def of_nat_diff)
  then show "of_int (digit_val c) = (of_nat (octet c - 48) :: u64)" by simp
  from r show "octet c - 48 \<le> 9" "48 \<le> octet c" by simp_all
qed

section \<open>Decimal\<close>

definition dec_max :: nat where
  "dec_max = 18446744073709551609"

lemma unat_dec_limit: "unat dec_limit = 1844674407370955160"
  by (simp add: dec_limit_def)

lemma dec_limit_less: "v > dec_limit \<longleftrightarrow> dec_max div 10 < unat v"
  by (simp add: word_less_nat_alt unat_dec_limit dec_max_def)

text \<open>One more digit: the test admits the value exactly when the result is at most \<open>dec_max\<close>.\<close>

lemma dec_step:
  assumes "unat v = n" "parser_is_digit c"
  shows "v > dec_limit \<longleftrightarrow> dec_max < 10 * n + (octet c - 48)"
    and "\<not> v > dec_limit \<Longrightarrow> unat (10 * v + of_int (digit_val c)) = 10 * n + (octet c - 48)"
proof -
  note d = digit_val_digit [OF assms(2)]
  show lim: "v > dec_limit \<longleftrightarrow> dec_max < 10 * n + (octet c - 48)"
    using d(2) assms(1) by (auto simp: dec_limit_less dec_max_def)
  assume "\<not> v > dec_limit"
  with lim have le: "10 * n + (octet c - 48) \<le> dec_max" by simp
  have "10 * v + of_int (digit_val c) = of_nat (10 * n + (octet c - 48))"
    using assms(1) d(1) by auto
  also have "unat \<dots> = 10 * n + (octet c - 48)"
    using le by (intro unat_of_nat_eq) (simp add: dec_max_def)
  finally show "unat (10 * v + of_int (digit_val c)) = 10 * n + (octet c - 48)" .
qed

lemma parse_dec_loop_correct:
  assumes "i \<le> it" "it < j" "j < length buf"
    "\<forall>k. i \<le> k \<and> k < j \<longrightarrow> parser_is_digit (buf ! k)" "\<not> parser_is_digit (buf ! j)"
    "unat v = dec_value (slice buf i (Suc it))" "unat v \<le> dec_max"
  shows "parse_dec_loop buf it j v =
    Ok (if dec_value (slice buf i j) \<le> dec_max then Some (of_nat (dec_value (slice buf i j))) else None)"
  using assms
proof (induction buf it j v rule: parse_dec_loop.induct)
  case (1 buf it j v)
  show ?case
  proof (cases "Suc it = j")
    case True
    have "v = of_nat (unat v)" by simp
    with True "1.prems" have "v = of_nat (dec_value (slice buf i j))" by simp
    with True "1.prems" show ?thesis
      by (subst parse_dec_loop.simps) simp
  next
    case False
    with "1.prems" have less: "Suc it < j" by simp
    let ?c = "buf ! Suc it"
    have c: "parser_is_digit ?c" using less "1.prems" by simp
    have snoc: "slice buf i (Suc (Suc it)) = slice buf i (Suc it) @ [?c]"
      using "1.prems" less by (intro slice_snoc) auto
    note step = dec_step [OF "1.prems"(6) c]
    show ?thesis
    proof (cases "v > dec_limit")
      case True
      have "dec_max < dec_value (slice buf i (Suc (Suc it)))"
        using True step(1) by (simp add: snoc)
      also have "\<dots> \<le> dec_value (slice buf i j)"
      proof -
        have "slice buf i j = slice buf i (Suc (Suc it)) @ slice buf (Suc (Suc it)) j"
          by (rule slice_append [symmetric]) (use "1.prems" less in auto)
        moreover have "dec_value xs \<le> dec_value (xs @ ys)" for xs ys
          by (induction ys rule: rev_induct) (simp_all flip: append_assoc)
        ultimately show ?thesis by metis
      qed
      finally show ?thesis
        using True c less "1.prems" by (subst parse_dec_loop.simps) simp
    next
      case False
      have "parse_dec_loop buf (it + 1) j (10 * v + of_int (digit_val ?c)) =
          Ok (if dec_value (slice buf i j) \<le> dec_max then Some (of_nat (dec_value (slice buf i j))) else None)"
        by (rule "1.IH" [of ?c])
          (use False less c "1.prems" step in \<open>auto simp: snoc\<close>)
      with False c less "1.prems" show ?thesis
        by (subst parse_dec_loop.simps) simp
    qed
  qed
qed


lemma parse_dec_exact:
  assumes "i < j" "j < length buf"
    "\<forall>k. i \<le> k \<and> k < j \<longrightarrow> parser_is_digit (buf ! k)" "\<not> parser_is_digit (buf ! j)"
  shows "parse_dec buf i j =
    Ok (if dec_value (slice buf i j) \<le> dec_max then Some (of_nat (dec_value (slice buf i j))) else None)"
proof -
  have c: "parser_is_digit (buf ! i)" using assms by simp
  note d = digit_val_digit [OF c]
  have one: "slice buf i (Suc i) = [buf ! i]"
    using slice_snoc [of i i buf] assms by simp
  have "unat (of_int (digit_val (buf ! i)) :: u64) = octet (buf ! i) - 48"
    unfolding d(1) using d(2) by (intro unat_of_nat_eq) simp
  then show ?thesis
    using parse_dec_loop_correct [of i i j buf "of_int (digit_val (buf ! i))"] assms c d
    by (simp add: parse_dec_def one dec_value_def dec_max_def)
qed

text \<open>An accepted number is made of digits only, up to and not beyond \<open>last\<close>.\<close>

lemma parse_dec_loop_digits:
  "parse_dec_loop buf it j v = Ok (Some w) \<Longrightarrow>
     it < j \<and> j < length buf \<and> (\<forall>k. it + 1 \<le> k \<and> k < j \<longrightarrow> parser_is_digit (buf ! k)) \<and>
     \<not> parser_is_digit (buf ! j)"
proof (induction buf it j v rule: parse_dec_loop.induct)
  case (1 buf it j v)
  let ?c = "buf ! (it + 1)"
  have len: "it + 1 < length buf"
    using "1.prems" by (subst (asm) parse_dec_loop.simps) (auto simp: rd_def split: if_splits)
  show ?case
  proof (cases "parser_is_digit ?c")
    case False
    with "1.prems" len show ?thesis
      by (subst (asm) parse_dec_loop.simps) (auto split: if_splits)
  next
    case True
    with "1.prems" len have
      "\<not> v > dec_limit" "parse_dec_loop buf (it + 1) j (10 * v + of_int (digit_val ?c)) = Ok (Some w)"
      by (subst (asm) parse_dec_loop.simps, auto split: if_splits)+
    then have "it + 1 < j \<and> j < length buf \<and>
        (\<forall>k. it + 1 + 1 \<le> k \<and> k < j \<longrightarrow> parser_is_digit (buf ! k)) \<and> \<not> parser_is_digit (buf ! j)"
      using True len by (intro "1.IH" [of ?c]) auto
    with True show ?thesis by (subst all_from) simp
  qed
qed

lemma parse_dec_Some:
  assumes "parse_dec buf i j = Ok (Some v)"
  shows "i < j \<and> j < length buf \<and> (\<forall>k. i \<le> k \<and> k < j \<longrightarrow> parser_is_digit (buf ! k)) \<and>
    \<not> parser_is_digit (buf ! j) \<and> unat v = dec_value (slice buf i j)"
proof -
  from assms have c: "i < length buf" "parser_is_digit (buf ! i)"
    and loop: "parse_dec_loop buf i j (of_int (digit_val (buf ! i))) = Ok (Some v)"
    by (auto simp: parse_dec_def ob_eq_Ok rd_eq_Ok split: if_splits)
  note digs = parse_dec_loop_digits [OF loop]
  then have all: "\<forall>k. i \<le> k \<and> k < j \<longrightarrow> parser_is_digit (buf ! k)"
    using c by (subst all_from) simp
  have "parse_dec buf i j =
      Ok (if dec_value (slice buf i j) \<le> dec_max then Some (of_nat (dec_value (slice buf i j))) else None)"
    by (rule parse_dec_exact) (use digs all in auto)
  with assms have "dec_value (slice buf i j) \<le> dec_max" "v = of_nat (dec_value (slice buf i j))"
    by (auto split: if_splits)
  moreover from this have "unat v = dec_value (slice buf i j)"
    by (simp add: dec_max_def)
  ultimately show ?thesis using digs all by simp
qed

text \<open>The parse reads at most up to the first octet that is no digit.\<close>

lemma parse_dec_not_Oob [memory_safe]:
  assumes "i \<le> m" "m < length buf" "\<not> parser_is_digit (buf ! m)"
  shows "parse_dec buf i j \<noteq> Oob"
proof -
  have loop: "parse_dec_loop buf it j v \<noteq> Oob" if "it < m" for it v
    using that assms(2,3)
  proof (induction buf it j v rule: parse_dec_loop.induct)
    case (1 buf it j v)
    show ?case
    proof (cases "parser_is_digit (buf ! (it + 1))")
      case True
      with "1.prems" have "it + 1 \<noteq> m" by auto
      with "1.prems" have less: "it + 1 < m" by simp
      have "\<not> v > dec_limit \<Longrightarrow>
          parse_dec_loop buf (it + 1) j (10 * v + of_int (digit_val (buf ! (it + 1)))) \<noteq> Oob"
        by (rule "1.IH" [of "buf ! (it + 1)"]) (use True less "1.prems" in auto)
      with True less "1.prems" show ?thesis by (subst parse_dec_loop.simps) simp
    next
      case False
      with "1.prems" show ?thesis by (subst parse_dec_loop.simps) simp
    qed
  qed
  show ?thesis
  proof (cases "parser_is_digit (buf ! i)")
    case True
    with assms have "i < m" by (cases "i = m") auto
    with True loop assms show ?thesis by (simp add: parse_dec_def)
  next
    case False
    with assms show ?thesis by (simp add: parse_dec_def)
  qed
qed

section \<open>Hexadecimal\<close>

definition hex_value :: "string \<Rightarrow> nat" where
  "hex_value s = foldl (\<lambda>v c. 16 * v + (case unhex c of Some d \<Rightarrow> d | None \<Rightarrow> 0)) 0 s"

lemma hex_value_simps [simp]:
  "hex_value [] = 0"
  "hex_value (s @ [c]) = 16 * hex_value s + (case unhex c of Some d \<Rightarrow> d | None \<Rightarrow> 0)"
  by (simp_all add: hex_value_def)

lemma parse_hex_loop_sound:
  assumes "parse_hex_loop buf it v = Ok (Some w, j)" "i \<le> it" "it < length buf"
    "v = of_nat (hex_value (slice buf i (Suc it)))"
  shows "it < j \<and> j < length buf \<and> unhex (buf ! j) = None \<and>
    (\<forall>k. it + 1 \<le> k \<and> k < j \<longrightarrow> unhex (buf ! k) \<noteq> None) \<and> w = of_nat (hex_value (slice buf i j))"
  using assms
proof (induction buf it v rule: parse_hex_loop.induct)
  case (1 buf it v)
  let ?c = "buf ! (it + 1)"
  have len: "it + 1 < length buf"
    using "1.prems"(1) by (subst (asm) parse_hex_loop.simps) (auto simp: rd_def split: if_splits)
  show ?case
  proof (cases "unhex ?c")
    case None
    with "1.prems" len show ?thesis
      by (subst (asm) parse_hex_loop.simps) auto
  next
    case (Some d)
    with "1.prems"(1) len have "\<not> 16 * v + of_nat d \<le> v"
      "parse_hex_loop buf (it + 1) (16 * v + of_nat d) = Ok (Some w, j)"
      by (subst (asm) parse_hex_loop.simps, auto simp: Let_def split: if_splits)+
    moreover have "slice buf i (Suc (it + 1)) = slice buf i (it + 1) @ [?c]"
      using "1.prems" len by (intro slice_snoc) auto
    ultimately have "it + 1 < j \<and> j < length buf \<and> unhex (buf ! j) = None \<and>
        (\<forall>k. it + 1 + 1 \<le> k \<and> k < j \<longrightarrow> unhex (buf ! k) \<noteq> None) \<and>
        w = of_nat (hex_value (slice buf i j))"
      using "1.prems" len Some
      by (intro "1.IH" [of ?c d v "16 * v + of_nat d"]) auto
    with Some show ?thesis by (subst all_from) simp
  qed
qed

lemma parse_hex_Some:
  assumes "parse_hex buf i = Ok (Some w, j)"
  shows "i < j \<and> j < length buf \<and> unhex (buf ! j) = None \<and>
    (\<forall>k. i \<le> k \<and> k < j \<longrightarrow> unhex (buf ! k) \<noteq> None) \<and> w = of_nat (hex_value (slice buf i j))"
proof -
  from assms obtain d where c: "i < length buf" "unhex (buf ! i) = Some d"
    and loop: "parse_hex_loop buf i (of_nat d) = Ok (Some w, j)"
    by (auto simp: parse_hex_def ob_eq_Ok rd_eq_Ok split: option.splits)
  have "slice buf i (Suc i) = [buf ! i]"
    using slice_snoc [of i i buf] c by simp
  with c have "of_nat d = (of_nat (hex_value (slice buf i (Suc i))) :: u64)"
    by (simp add: hex_value_def)
  from parse_hex_loop_sound [OF loop _ c(1) this] have
    "i < j \<and> j < length buf \<and> unhex (buf ! j) = None \<and>
      (\<forall>k. i + 1 \<le> k \<and> k < j \<longrightarrow> unhex (buf ! k) \<noteq> None) \<and> w = of_nat (hex_value (slice buf i j))"
    by simp
  with c show ?thesis by (subst all_from) simp
qed


lemma unhex_None_iff: "unhex c = None \<longleftrightarrow>
    rfc_hexval (octet c) = None \<and> \<not> unhex_fused (octet c) \<and> octet c < 248"
  by (auto simp: unhex_eq split: option.splits)

lemma unhex_hexdig: "rfc_hexval (octet c) = Some v \<Longrightarrow> unhex c = Some (nat v) \<and> nat v < 16"
  using rfc_hexval_bounds [of "octet c" v] by (auto simp: unhex_eq)

lemma parse_hex_not_Oob [memory_safe]:
  assumes "i \<le> m" "m < length buf" "unhex (buf ! m) = None"
  shows "parse_hex buf i \<noteq> Oob"
proof -
  have loop: "parse_hex_loop buf it v \<noteq> Oob" if "it < m" for it v
    using that assms(2,3)
  proof (induction buf it v rule: parse_hex_loop.induct)
    case (1 buf it v)
    show ?case
    proof (cases "unhex (buf ! (it + 1))")
      case None
      with "1.prems" show ?thesis by (subst parse_hex_loop.simps) simp
    next
      case (Some d)
      with "1.prems" have "it + 1 \<noteq> m" by auto
      with "1.prems" have less: "it + 1 < m" by simp
      have "\<not> 16 * v + of_nat d \<le> v \<Longrightarrow> parse_hex_loop buf (it + 1) (16 * v + of_nat d) \<noteq> Oob"
        by (rule "1.IH" [of "buf ! (it + 1)" d v "16 * v + of_nat d"])
          (use Some less "1.prems" in auto)
      with Some less "1.prems" show ?thesis by (subst parse_hex_loop.simps) (simp add: Let_def)
    qed
  qed
  show ?thesis
  proof (cases "unhex (buf ! i)")
    case (Some d)
    with assms have "i < m" by (cases "i = m") auto
    with Some loop assms show ?thesis by (simp add: parse_hex_def)
  next
    case None
    with assms show ?thesis by (simp add: parse_hex_def)
  qed
qed

text \<open>One more digit on a value that is not zero and has room does not trip the test.\<close>

lemma hex_step:
  assumes "unat v = n" "0 < n" "16 * n + d < 2 ^ 64"
  shows "\<not> 16 * v + of_nat d \<le> (v :: u64)" "unat (16 * v + of_nat d :: u64) = 16 * n + d"
proof -
  have "16 * v + of_nat d = of_nat (16 * n + d)" using assms(1) by auto
  moreover have "unat (of_nat (16 * n + d) :: u64) = 16 * n + d"
    using assms(3) by (intro unat_of_nat_eq) simp
  ultimately show u: "unat (16 * v + of_nat d :: u64) = 16 * n + d" by metis
  then show "\<not> 16 * v + of_nat d \<le> v"
    using assms by (simp add: word_le_nat_alt)
qed

lemma parse_hex_loop_exact:
  assumes "i \<le> it" "it < j" "j < length buf" "j - i \<le> 16" "unhex (buf ! j) = None"
    "\<forall>k. i \<le> k \<and> k < j \<longrightarrow> rfc_hexval (octet (buf ! k)) \<noteq> None"
    "unat v = hex_value (slice buf i (Suc it))" "0 < unat v \<or> j = it + 1" "unat v < 16 ^ (it + 1 - i)"
  shows "parse_hex_loop buf it v = Ok (Some (of_nat (hex_value (slice buf i j))), j)"
  using assms
proof (induction buf it v rule: parse_hex_loop.induct)
  case (1 buf it v)
  show ?case
  proof (cases "j = it + 1")
    case True
    have "v = of_nat (unat v)" by simp
    with True "1.prems" have "v = of_nat (hex_value (slice buf i j))" by simp
    with True "1.prems" show ?thesis by (subst parse_hex_loop.simps) simp
  next
    case False
    with "1.prems" have less: "it + 1 < j" by simp
    let ?c = "buf ! (it + 1)"
    from less "1.prems" obtain x where "rfc_hexval (octet ?c) = Some x" by fastforce
    from unhex_hexdig [OF this] obtain d where d: "unhex ?c = Some d" "d < 16" by blast
    have snoc: "slice buf i (Suc (Suc it)) = slice buf i (Suc it) @ [?c]"
      using "1.prems" less slice_snoc [of i "Suc it" buf] by simp
    have pow: "(16 :: nat) ^ (it + 1 + 1 - i) = 16 * 16 ^ (it + 1 - i)"
      using "1.prems" by (simp add: Suc_diff_le)
    have lt: "16 * unat v + d < 16 ^ (it + 1 + 1 - i)"
      using "1.prems"(9) d(2) unfolding pow by linarith
    also have "(16 :: nat) ^ (it + 1 + 1 - i) \<le> 16 ^ 16"
      by (rule power_increasing) (use "1.prems" less in auto)
    finally have "16 * unat v + d < 2 ^ 64" by simp
    with "1.prems"(8) False have step: "\<not> 16 * v + of_nat d \<le> v"
      "unat (16 * v + of_nat d) = 16 * unat v + d"
      using hex_step [of v "unat v" d] by auto
    have "parse_hex_loop buf (it + 1) (16 * v + of_nat d) =
        Ok (Some (of_nat (hex_value (slice buf i j))), j)"
    proof (rule "1.IH" [of ?c d v "16 * v + of_nat d"])
      show "unat (16 * v + of_nat d) = hex_value (slice buf i (Suc (it + 1)))"
        using "1.prems"(7) d by (simp add: snoc step)
      show "unat (16 * v + of_nat d) < 16 ^ (it + 1 + 1 - i)"
        using lt by (simp add: step)
      show "0 < unat (16 * v + of_nat d) \<or> j = it + 1 + 1"
        using "1.prems"(8) False by (simp add: step)
    qed (use step d less "1.prems" in auto)
    with d step less "1.prems" show ?thesis
      by (subst parse_hex_loop.simps) (simp add: Let_def)
  qed
qed

lemma parse_hex_exact:
  assumes "i < j" "j < length buf" "j - i \<le> 16" "unhex (buf ! j) = None"
    "\<forall>k. i \<le> k \<and> k < j \<longrightarrow> rfc_hexval (octet (buf ! k)) \<noteq> None"
    "unhex (buf ! i) \<noteq> Some 0 \<or> j = i + 1"
  shows "parse_hex buf i = Ok (Some (of_nat (hex_value (slice buf i j))), j)"
proof -
  from assms obtain x where "rfc_hexval (octet (buf ! i)) = Some x" by fastforce
  from unhex_hexdig [OF this] obtain d where d: "unhex (buf ! i) = Some d" "d < 16" by blast
  have one: "slice buf i (Suc i) = [buf ! i]"
    using slice_snoc [of i i buf] assms by simp
  have "parse_hex_loop buf i (of_nat d) = Ok (Some (of_nat (hex_value (slice buf i j))), j)"
    by (rule parse_hex_loop_exact) (use assms d in \<open>auto simp: one hex_value_def\<close>)
  with d assms show ?thesis by (simp add: parse_hex_def)
qed

end
