(* ===== verification/Http_Parser.thy ===== *)
theory Http_Parser
  imports Http_Numbers Http_Lists
begin

text \<open>
  The HTTP/1 message parser, \<open>basic_parser<isRequest, isDirect, Derived>\<close> of
  \<open>include/beast/http/basic_parser.hpp\<close> and \<open>impl/basic_parser.ipp\<close>: its members, its
  flags and its member functions, in the order the code has them. The members are a
  record \<open>parser\<close>; \<open>p_impl\<close> is the derived object, which only the callbacks (a record
  \<open>handler\<close>) change. The template arguments \<open>isRequest\<close> and \<open>isDirect\<close> are arguments of
  the functions that depend on them.
\<close>

section \<open>State\<close>

datatype parse_state = header | body | body_to_eof | chunk_header | chunk_body | complete

record 's parser =
  p_len :: u64
  p_buf :: string
  p_skip :: nat
  p_x :: nat
  p_f :: u32
  p_state :: parse_state
  p_ext :: string
  p_body :: string
  p_impl :: 's

definition parser_init :: "'s \<Rightarrow> 's parser" where
  "parser_init s = \<lparr>p_len = 0, p_buf = [], p_skip = 0, p_x = 0, p_f = 0, p_state = header,
     p_ext = [], p_body = [], p_impl = s\<rparr>"

definition flagSkipBody :: u32 where "flagSkipBody = push_bit 0 1"
definition flagOnBody :: u32 where "flagOnBody = push_bit 1 1"
definition flagGotSome :: u32 where "flagGotSome = push_bit 2 1"
definition flagHasBody :: u32 where "flagHasBody = push_bit 3 1"
definition flagHTTP11 :: u32 where "flagHTTP11 = push_bit 4 1"
definition flagNeedEOF :: u32 where "flagNeedEOF = push_bit 5 1"
definition flagExpectCRLF :: u32 where "flagExpectCRLF = push_bit 6 1"
definition flagFinalChunk :: u32 where "flagFinalChunk = push_bit 7 1"
definition flagConnectionClose :: u32 where "flagConnectionClose = push_bit 8 1"
definition flagConnectionUpgrade :: u32 where "flagConnectionUpgrade = push_bit 9 1"
definition flagConnectionKeepAlive :: u32 where "flagConnectionKeepAlive = push_bit 10 1"
definition flagContentLength :: u32 where "flagContentLength = push_bit 11 1"
definition flagChunked :: u32 where "flagChunked = push_bit 12 1"
definition flagUpgrade :: u32 where "flagUpgrade = push_bit 13 1"

definition has_flag :: "u32 \<Rightarrow> 's parser \<Rightarrow> bool" where
  "has_flag fl p \<longleftrightarrow> p_f p AND fl \<noteq> 0"

definition set_flag :: "u32 \<Rightarrow> 's parser \<Rightarrow> 's parser" where
  "set_flag fl p = p\<lparr>p_f := p_f p OR fl\<rparr>"

section \<open>The derived class\<close>

text \<open>
  A callback gets the derived object and returns it with the error it set, if any.
  \<open>on_prepare\<close> returns the size of the buffers it provides, \<open>on_fill\<close> is the copy into
  them.
\<close>

type_synonym 's callback = "'s \<Rightarrow> http_error option \<times> 's"

record 's handler =
  on_request :: "string \<Rightarrow> string \<Rightarrow> int \<Rightarrow> 's callback"
  on_response :: "int \<Rightarrow> string \<Rightarrow> int \<Rightarrow> 's callback"
  on_field :: "string \<Rightarrow> string \<Rightarrow> 's callback"
  on_header :: "'s callback"
  on_body :: "u64 option \<Rightarrow> 's callback"
  on_body_direct :: "u64 option \<Rightarrow> 's \<Rightarrow> 's"
  on_data :: "string \<Rightarrow> 's callback"
  on_prepare :: "nat \<Rightarrow> 's \<Rightarrow> nat \<times> 's"
  on_fill :: "string \<Rightarrow> 's \<Rightarrow> 's"
  on_commit :: "nat \<Rightarrow> 's \<Rightarrow> 's"
  on_chunk :: "u64 \<Rightarrow> string \<Rightarrow> 's callback"
  on_complete :: "'s callback"

type_synonym ('s, 'a) pact = "('s parser, http_error, 'a) act"

definition callback :: "'s callback \<Rightarrow> ('s, unit) pact" where
  "callback f p =
     (case f (p_impl p) of
        (None, s) \<Rightarrow> (Ok (), p\<lparr>p_impl := s\<rparr>)
      | (Some e, s) \<Rightarrow> (Err e, p\<lparr>p_impl := s\<rparr>))"

section \<open>Observers\<close>

definition got_some :: "'s parser \<Rightarrow> bool" where
  "got_some p \<longleftrightarrow> has_flag flagGotSome p"

definition got_header :: "'s parser \<Rightarrow> bool" where
  "got_header p \<longleftrightarrow> p_state p \<noteq> header"

definition got_content_length :: "'s parser \<Rightarrow> bool" where
  "got_content_length p \<longleftrightarrow> has_flag flagContentLength p"

definition is_complete :: "'s parser \<Rightarrow> bool" where
  "is_complete p \<longleftrightarrow> p_state p = complete"

definition is_upgrade :: "'s parser \<Rightarrow> bool" where
  "is_upgrade p \<longleftrightarrow> has_flag flagConnectionUpgrade p"

definition is_chunked :: "'s parser \<Rightarrow> bool" where
  "is_chunked p \<longleftrightarrow> has_flag flagChunked p"

definition is_keep_alive :: "'s parser \<Rightarrow> bool" where
  "is_keep_alive p \<longleftrightarrow>
     (if has_flag flagHTTP11 p then
        (if has_flag flagConnectionClose p then False else \<not> has_flag flagNeedEOF p)
      else
        (if \<not> has_flag flagConnectionKeepAlive p then False else \<not> has_flag flagNeedEOF p))"

definition content_length :: "'s parser \<Rightarrow> u64 option" where
  "content_length p = (if \<not> has_flag flagContentLength p then None else Some (p_len p))"

definition skip_body :: "'s parser \<Rightarrow> 's parser" where
  "skip_body p = set_flag flagSkipBody p"

section \<open>Start line\<close>

definition parse_startline_request :: "'s handler \<Rightarrow> string \<Rightarrow> nat \<Rightarrow> ('s, int \<times> nat) pact" where
  "parse_startline_request h buf it =
     act_bind (act_lift (parse_method buf it)) (\<lambda>(method, it).
     if method = [] then act_err bad_method else
     act_bind (act_lift (rd buf it)) (\<lambda>c. let it = it + 1 in
     if c \<noteq> SP then act_err bad_method else
     act_bind (act_lift (parse_target buf it)) (\<lambda>(target, it).
     if target = [] then act_err bad_path else
     act_bind (act_lift (rd buf it)) (\<lambda>c. let it = it + 1 in
     if c \<noteq> SP then act_err bad_path else
     act_bind (act_lift (parse_version buf it)) (\<lambda>(version, it).
     if version < 0 then act_err bad_version else
     act_bind (act_lift (parse_crlf buf it)) (\<lambda>(ok, it).
     if \<not> ok then act_err bad_version else
     act_bind (callback (on_request h method target version)) (\<lambda>_.
     act_ret (version, it))))))))"

definition parse_startline_response ::
    "'s handler \<Rightarrow> string \<Rightarrow> nat \<Rightarrow> ('s, int \<times> int \<times> nat) pact" where
  "parse_startline_response h buf it =
     act_bind (act_lift (parse_version buf it)) (\<lambda>(version, it).
     if version < 0 then act_err bad_version else
     act_bind (act_lift (rd buf it)) (\<lambda>c.
     if c \<noteq> SP then act_err bad_version else let it = it + 1 in
     act_bind (act_lift (parse_status buf it)) (\<lambda>(status, it).
     if status < 0 then act_err bad_status else
     act_bind (act_lift (rd buf it)) (\<lambda>c.
     if c \<noteq> SP then act_err bad_status else let it = it + 1 in
     act_bind (act_lift (parse_reason buf it)) (\<lambda>(reason, it).
     act_bind (act_lift (parse_crlf buf it)) (\<lambda>(ok, it).
     if \<not> ok then act_err bad_reason else
     act_bind (callback (on_response h status reason version)) (\<lambda>_.
     act_ret (version, status, it))))))))"

section \<open>Fields\<close>

text \<open>
  \<open>do_field\<close>. The value is a pointer range: \<open>parse_dec\<close> reads one octet past its end.
\<close>

definition connection_token :: "string \<Rightarrow> 's parser \<Rightarrow> 's parser" where
  "connection_token s p =
     (if strieq ''close'' s then set_flag flagConnectionClose p
      else if strieq ''keep-alive'' s then set_flag flagConnectionKeepAlive p
      else if strieq ''upgrade'' s then set_flag flagConnectionUpgrade p
      else p)"

definition do_field :: "string \<Rightarrow> string \<Rightarrow> nat \<Rightarrow> nat \<Rightarrow> ('s, unit) pact" where
  "do_field name mem first fin p =
     (let value = slice mem first fin in
      if strieq ''connection'' name \<or> strieq ''proxy-connection'' name then
        if \<not> validate_list value then (Err bad_value, p)
        else (Ok (), fold connection_token (opt_token_list value) p)
      else if \<not> list_all parser_is_text value then (Err bad_value, p)
      else if strieq ''content-length'' name then
        if has_flag flagContentLength p then (Err bad_content_length, p)
        else if has_flag flagChunked p then (Err bad_content_length, p)
        else (case parse_dec mem first fin of
                Ok None \<Rightarrow> (Err bad_content_length, p)
              | Ok (Some v) \<Rightarrow> (Ok (), set_flag flagContentLength (p\<lparr>p_len := v\<rparr>))
              | Err e \<Rightarrow> (Err e, p)
              | Oob \<Rightarrow> (Oob, p))
      else if strieq ''transfer-encoding'' name then
        if has_flag flagChunked p then (Err bad_transfer_encoding, p)
        else if has_flag flagContentLength p then (Err bad_transfer_encoding, p)
        else (case dropWhile (\<lambda>s. \<not> strieq ''chunked'' s) (token_list value) of
                [s] \<Rightarrow> (Ok (), set_flag flagChunked (p\<lparr>p_len := 0\<rparr>))
              | _ \<Rightarrow> (Ok (), p))
      else if strieq ''upgrade'' name then (Ok (), set_flag flagUpgrade p)
      else (Ok (), p))"

text \<open>
  The two loops of the obs-fold branch. The first skips leading empty lines and returns
  \<open>it\<close> and \<open>term\<close>; the second collects the continuation lines in \<open>s\<close> and returns it with
  the new \<open>it\<close>. A null \<open>term\<close> is dereferenced by the code, hence \<open>Oob\<close>.
\<close>

function fold_first :: "string \<Rightarrow> nat \<Rightarrow> nat \<Rightarrow> nat \<Rightarrow> (nat \<times> nat) pout" where
  "fold_first buf it tm lst =
     (let it2 = tm - 2 in
      ob (skip_ows buf it it2) (\<lambda>it.
      if it \<noteq> it2 then Ok (it, tm)
      else let it = tm in
        ob (rd buf it) (\<lambda>c.
        if \<not> is_ows c then Ok (it, tm)
        else ob (find_eol buf it lst) (\<lambda>tm.
          case tm of None \<Rightarrow> Oob | Some tm \<Rightarrow> fold_first buf it tm lst))))"
  by pat_completeness auto

lemma find_eol_bounds: "find_eol buf it lst = Ok (Some j) \<Longrightarrow> it + 2 \<le> j \<and> j \<le> length buf"
proof (induction buf it lst rule: find_eol.induct)
  case (1 buf it lst)
  from "1.prems" show ?case
    using "1.IH" [of "buf ! it"]
    by (subst (asm) find_eol.simps) (auto simp: ob_eq_Ok rd_eq_Ok split: if_splits)
qed

termination fold_first
  by (relation "measure (\<lambda>(buf, it, tm, lst). length buf - tm)")
    (auto simp: rd_eq_Ok dest!: find_eol_bounds)

declare fold_first.simps [simp del]

function fold_rest :: "string \<Rightarrow> string \<Rightarrow> nat \<Rightarrow> nat \<Rightarrow> nat \<Rightarrow> (string \<times> nat) pout" where
  "fold_rest s buf it tm lst =
     ob (rd buf it) (\<lambda>c.
     if \<not> is_ows c then Ok (s, it)
     else let s = s @ [SP] in
       ob (skip_ows buf it (tm - 2)) (\<lambda>it.
       ob (find_eol buf it lst) (\<lambda>tm.
         case tm of None \<Rightarrow> Oob
         | Some tm \<Rightarrow>
             let s = (if it \<noteq> tm - 2 then s @ slice buf it (tm - 2) else s) in
             fold_rest s buf tm tm lst)))"
  by pat_completeness auto

lemma skip_ows_ge: "skip_ows buf it fin = Ok j \<Longrightarrow> it \<le> j"
proof (induction buf it fin rule: skip_ows.induct)
  case (1 buf it fin)
  from "1.prems" show ?case
    using "1.IH" [of "buf ! it"]
    by (subst (asm) skip_ows.simps) (auto simp: ob_eq_Ok rd_eq_Ok split: if_splits)
qed

termination fold_rest
  by (relation "measure (\<lambda>(s, buf, it, tm, lst). length buf - it)")
    (auto simp: rd_eq_Ok dest!: find_eol_bounds skip_ows_ge)

declare fold_rest.simps [simp del]

definition obs_fold :: "string \<Rightarrow> nat \<Rightarrow> nat \<Rightarrow> nat \<Rightarrow> (string \<times> nat) pout" where
  "obs_fold buf it tm lst =
     ob (fold_first buf it tm lst) (\<lambda>(it, tm).
     if it \<noteq> tm then fold_rest (slice buf it (tm - 2)) buf tm tm lst else Ok ([], it))"

text \<open>One iteration of the loop of \<open>parse_fields\<close>, at a line that is not empty.\<close>

definition parse_field :: "'s handler \<Rightarrow> string \<Rightarrow> nat \<Rightarrow> nat \<Rightarrow> nat \<Rightarrow> ('s, nat) pact" where
  "parse_field h buf it tm lst =
     act_bind (act_lift (parse_name buf it)) (\<lambda>(name, it).
     if name = [] then act_err bad_field else
     act_bind (act_lift (rd buf it)) (\<lambda>c. let it = it + 1 in
     if c \<noteq> CHR '':'' then act_err bad_field else
     act_bind (act_lift (rd buf tm)) (\<lambda>c.
     if \<not> is_ows c then
       let it2 = tm - 2 in
       act_bind (act_lift (skip_ows buf it it2)) (\<lambda>it.
       act_bind (act_lift (skip_ows_rev buf it2 it)) (\<lambda>it2.
       act_bind (do_field name buf it it2) (\<lambda>_.
       act_bind (callback (on_field h name (slice buf it it2))) (\<lambda>_.
       act_ret tm))))
     else
       act_bind (act_lift (obs_fold buf it tm lst)) (\<lambda>(s, it).
       act_bind (do_field name (s @ [CHR 0x00]) 0 (length s)) (\<lambda>_.
       act_bind (callback (on_field h name s)) (\<lambda>_.
       act_ret it))))))"

lemma skip_ows_le: "skip_ows buf it fin = Ok j \<Longrightarrow> it \<le> fin \<Longrightarrow> j \<le> fin"
proof (induction buf it fin rule: skip_ows.induct)
  case (1 buf it fin)
  from "1.prems" show ?case
    using "1.IH" [of "buf ! it"]
    by (subst (asm) skip_ows.simps) (auto simp: ob_eq_Ok rd_eq_Ok split: if_splits)
qed

lemma fold_first_ge: "fold_first buf it tm lst = Ok (it', tm') \<Longrightarrow> tm \<le> tm'"
proof (induction buf it tm lst rule: fold_first.induct)
  case (1 buf it tm lst)
  from "1.prems" "1.IH" [of "tm - 2" "tm - 2" tm "buf ! tm"] show ?case
    by (subst (asm) fold_first.simps)
      (fastforce simp: ob_eq_Ok rd_eq_Ok Let_def split: if_splits option.splits dest!: find_eol_bounds)
qed

lemma fold_rest_ge: "fold_rest s buf it tm lst = Ok (s', j) \<Longrightarrow> it \<le> j"
proof (induction s buf it tm lst rule: fold_rest.induct)
  case (1 s buf it tm lst)
  define c where "c = buf ! it"
  from "1.prems" have c: "it < length buf" "c = buf ! it"
    by (subst (asm) fold_rest.simps) (auto simp: ob_eq_Ok rd_eq_Ok c_def)
  then have c': "rd buf it = (Ok c :: char pout)" by simp
  show ?case
  proof (cases "is_ows c")
    case False
    with "1.prems" c show ?thesis by (subst (asm) fold_rest.simps) simp
  next
    case True
    with "1.prems" c obtain i t s2 where it: "skip_ows buf it (tm - 2) = Ok i"
      "find_eol buf i lst = Ok (Some t)" "fold_rest s2 buf t t lst = Ok (s', j)"
      "s2 = (if i \<noteq> t - 2 then (s @ [SP]) @ slice buf i (t - 2) else s @ [SP])"
      by (subst (asm) fold_rest.simps) (auto simp: ob_eq_Ok Let_def split: option.splits)
    have "t \<le> j"
      by (rule "1.IH" [of c "s @ [SP]" i "Some t" t s2]) (use c' True it in auto)
    with it skip_ows_ge find_eol_bounds show ?thesis by fastforce
  qed
qed

lemma obs_fold_ge: "obs_fold buf it tm lst = Ok (s, j) \<Longrightarrow> tm \<le> j"
  by (auto simp: obs_fold_def ob_eq_Ok split: if_splits dest!: fold_first_ge fold_rest_ge)

lemma act_bind_Ok: "act_bind m f s = (Ok b, s'') \<longleftrightarrow> (\<exists>a s'. m s = (Ok a, s') \<and> f a s' = (Ok b, s''))"
  by (auto simp: act_bind_def split: prod.splits outcome.splits)

lemma act_lift_Ok [simp]: "act_lift m s = (Ok a, s') \<longleftrightarrow> m = Ok a \<and> s' = s"
  by (auto simp: act_lift_def)

lemma parse_field_ge: "parse_field h buf it tm lst p = (Ok j, p') \<Longrightarrow> tm \<le> j"
  by (auto simp: parse_field_def act_bind_Ok Let_def split: if_splits dest!: obs_fold_ge)

function parse_fields :: "'s handler \<Rightarrow> string \<Rightarrow> nat \<Rightarrow> nat \<Rightarrow> ('s, nat) pact" where
  "parse_fields h buf it lst p =
     (case find_eol buf it lst of
        Oob \<Rightarrow> (Oob, p)
      | Err e \<Rightarrow> (Err e, p)
      | Ok None \<Rightarrow> (Oob, p)
      | Ok (Some tm) \<Rightarrow>
          if it = tm - 2 then (Ok tm, p)
          else act_bind (parse_field h buf it tm lst) (\<lambda>it p. parse_fields h buf it lst p) p)"
  by pat_completeness auto
termination
  by (relation "measure (\<lambda>(h, buf, it, lst, p). length buf - it)")
    (auto dest!: find_eol_bounds parse_field_ge)

declare parse_fields.simps [simp del]

section \<open>Header\<close>

text \<open>
  \<open>do_header\<close> decides from the fields which body follows. For requests the status
  argument is not used.
\<close>

definition do_header_request :: "'s parser \<Rightarrow> 's parser" where
  "do_header_request p =
     (if has_flag flagSkipBody p then p\<lparr>p_state := complete\<rparr>
      else if has_flag flagContentLength p then
        if p_len p > 0 then (set_flag flagHasBody p)\<lparr>p_state := body\<rparr>
        else p\<lparr>p_state := complete\<rparr>
      else if has_flag flagChunked p then (set_flag flagHasBody p)\<lparr>p_state := chunk_header\<rparr>
      else p\<lparr>p_len := 0, p_state := complete\<rparr>)"

definition do_header_response :: "int \<Rightarrow> 's parser \<Rightarrow> 's parser" where
  "do_header_response status p =
     (if has_flag flagSkipBody p \<or> status div 100 = 1 \<or> status = 204 \<or> status = 304
      then p\<lparr>p_state := complete\<rparr>
      else if has_flag flagContentLength p then
        if p_len p > 0 then (set_flag flagHasBody p)\<lparr>p_state := body\<rparr>
        else p\<lparr>p_state := complete\<rparr>
      else if has_flag flagChunked p then (set_flag flagHasBody p)\<lparr>p_state := chunk_header\<rparr>
      else (set_flag flagNeedEOF (set_flag flagHasBody p))\<lparr>p_state := body_to_eof\<rparr>)"

text \<open>From the start line to \<open>on_complete\<close>; returns the final value of \<open>p\<close>.\<close>

definition parse_startline :: "bool \<Rightarrow> 's handler \<Rightarrow> string \<Rightarrow> nat \<Rightarrow> ('s, int \<times> int \<times> nat) pact" where
  "parse_startline isRequest h buf it =
     (if isRequest then
        act_bind (parse_startline_request h buf it) (\<lambda>(version, it). act_ret (version, 0, it))
      else parse_startline_response h buf it)"

definition do_header :: "bool \<Rightarrow> int \<Rightarrow> 's parser \<Rightarrow> 's parser" where
  "do_header isRequest status p =
     (if isRequest then do_header_request p else do_header_response status p)"

definition parse_header_at :: "bool \<Rightarrow> 's handler \<Rightarrow> string \<Rightarrow> nat \<Rightarrow> ('s, nat) pact" where
  "parse_header_at isRequest h buf tm =
     act_bind (act_put (\<lambda>p. p\<lparr>p_skip := 0\<rparr>)) (\<lambda>_.
     act_bind (parse_startline isRequest h buf 0) (\<lambda>(version, status, it).
     act_bind (act_put (\<lambda>p. if version \<ge> 11 then set_flag flagHTTP11 p else p)) (\<lambda>_.
     act_bind (parse_fields h buf it tm) (\<lambda>it.
     act_bind (act_put (do_header isRequest status)) (\<lambda>_.
     act_bind (callback (on_header h)) (\<lambda>_.
     act_bind (act_get p_state) (\<lambda>st.
     act_bind (if st = complete then callback (on_complete h) else act_ret ()) (\<lambda>_.
     act_ret tm))))))))"

definition parse_header :: "bool \<Rightarrow> 's handler \<Rightarrow> string \<Rightarrow> ('s, nat) pact" where
  "parse_header isRequest h buf p =
     (let n = length buf in
      if n < 4 then (Ok 0, p)
      else (case find_eom buf (p_skip p) n of
              Oob \<Rightarrow> (Oob, p)
            | Err e \<Rightarrow> (Err e, p)
            | Ok None \<Rightarrow> (Ok 0, p\<lparr>p_skip := n - 3\<rparr>)
            | Ok (Some tm) \<Rightarrow> parse_header_at isRequest h buf tm p))"

section \<open>Body\<close>

definition do_complete :: "'s handler \<Rightarrow> ('s, unit) pact" where
  "do_complete h =
     act_bind (callback (on_complete h)) (\<lambda>_. act_put (\<lambda>p. p\<lparr>p_state := complete\<rparr>))"

definition maybe_do_body_direct :: "'s handler \<Rightarrow> 's parser \<Rightarrow> 's parser" where
  "maybe_do_body_direct h p =
     (if has_flag flagOnBody p then p
      else let p = set_flag flagOnBody p in
        p\<lparr>p_impl := on_body_direct h
            (if got_content_length p then Some (p_len p) else None) (p_impl p)\<rparr>)"

definition maybe_do_body_indirect :: "'s handler \<Rightarrow> ('s, unit) pact" where
  "maybe_do_body_indirect h p =
     (if has_flag flagOnBody p then (Ok (), p)
      else let p = set_flag flagOnBody p in
        callback (on_body h (if got_content_length p then Some (p_len p) else None)) p)"

definition clamp :: "u64 \<Rightarrow> nat \<Rightarrow> nat" where
  "clamp x limit = (if limit \<le> unat x then limit else unat x)"

definition parse_body :: "'s handler \<Rightarrow> string \<Rightarrow> ('s, nat) pact" where
  "parse_body h buf p =
     (let n = clamp (p_len p) (length buf);
          p = p\<lparr>p_body := take n buf\<rparr> in
      act_bind (callback (on_data h (p_body p))) (\<lambda>_.
      act_bind (act_put (\<lambda>p. p\<lparr>p_len := p_len p - of_nat n\<rparr>)) (\<lambda>_.
      act_bind (act_get p_len) (\<lambda>len.
      act_bind (if len = 0 then do_complete h else act_ret ()) (\<lambda>_.
      act_ret n)))) p)"

definition parse_body_to_eof :: "'s handler \<Rightarrow> string \<Rightarrow> ('s, nat) pact" where
  "parse_body_to_eof h buf =
     act_bind (act_put (\<lambda>p. p\<lparr>p_body := buf\<rparr>)) (\<lambda>_.
     act_bind (callback (on_data h buf)) (\<lambda>_.
     act_ret (length buf)))"

definition parse_chunk_body :: "'s handler \<Rightarrow> string \<Rightarrow> ('s, nat) pact" where
  "parse_chunk_body h buf p =
     (let n = clamp (p_len p) (length buf);
          p = p\<lparr>p_body := take n buf\<rparr> in
      act_bind (callback (on_data h (p_body p))) (\<lambda>_.
      act_bind (act_put (\<lambda>p. p\<lparr>p_len := p_len p - of_nat n\<rparr>)) (\<lambda>_.
      act_bind (act_put (\<lambda>p. if p_len p = 0 then p\<lparr>p_body := [], p_state := chunk_header\<rparr> else p)) (\<lambda>_.
      act_ret n))) p)"

section \<open>Chunks\<close>

text \<open>
  \<open>parse_chunk_header\<close> in pieces: the CRLF that ends the previous chunk, the
  chunk-size line, the search for the end of the trailer that follows the last chunk, and
  the last chunk's extension and trailer once that end is found. In the code they are one
  function; \<open>it\<close> is its \<open>p\<close> (as an offset from \<open>first\<close>), \<open>n\<close> its reduced \<open>n\<close>.
\<close>

definition last_chunk_at :: "'s handler \<Rightarrow> string \<Rightarrow> nat \<Rightarrow> nat \<Rightarrow> ('s, nat) pact" where
  "last_chunk_at h buf it tm =
     act_bind (act_lift (rd buf it)) (\<lambda>c.
     act_bind
       (if c = CHR '';'' then
          act_bind (act_get p_x) (\<lambda>x.
          act_bind (act_put (\<lambda>p. p\<lparr>p_ext := slice buf it x\<rparr>)) (\<lambda>_.
          act_bind (callback (on_chunk h 0 (slice buf it x))) (\<lambda>_.
          act_ret x)))
        else act_ret it) (\<lambda>it.
     act_bind (act_lift (parse_crlf buf it)) (\<lambda>(ok, it).
     if \<not> ok then act_err bad_chunk else
     act_bind (parse_fields h buf it tm) (\<lambda>it.
     act_bind (do_complete h) (\<lambda>_.
     act_ret it)))))"

definition parse_last_chunk :: "'s handler \<Rightarrow> string \<Rightarrow> nat \<Rightarrow> nat \<Rightarrow> ('s, nat) pact" where
  "parse_last_chunk h buf it n p =
     (case find_eom buf (p_skip p) (length buf) of
        Oob \<Rightarrow> (Oob, p)
      | Err e \<Rightarrow> (Err e, p)
      | Ok None \<Rightarrow> (Ok 0, if n > 3 then p\<lparr>p_skip := length buf - 3\<rparr> else p)
      | Ok (Some tm) \<Rightarrow> last_chunk_at h buf it tm p)"

definition parse_chunk_size :: "'s handler \<Rightarrow> string \<Rightarrow> nat \<Rightarrow> nat \<Rightarrow> ('s, nat) pact" where
  "parse_chunk_size h buf it n p =
     (if \<not> has_flag flagFinalChunk p then
        if n < 2 then (Ok 0, p)
        else (case find_eol buf (it + p_skip p) (length buf) of
                Oob \<Rightarrow> (Oob, p)
              | Err e \<Rightarrow> (Err e, p)
              | Ok None \<Rightarrow> (Ok 0, p\<lparr>p_skip := n - 1\<rparr>)
              | Ok (Some tm) \<Rightarrow>
                  act_bind (act_lift (parse_hex buf it)) (\<lambda>(v, it).
                  case v of None \<Rightarrow> act_err bad_chunk | Some v \<Rightarrow>
                  if v \<noteq> 0 then
                    act_bind (act_lift (rd buf it)) (\<lambda>c.
                    act_bind
                      (if c = CHR '';'' then
                         act_bind (act_put (\<lambda>p. p\<lparr>p_ext := slice buf it (tm - 2)\<rparr>)) (\<lambda>_.
                         callback (on_chunk h v (slice buf it (tm - 2))))
                       else if it \<noteq> tm - 2 then act_err bad_chunk
                       else act_ret ()) (\<lambda>_.
                    act_bind (act_put (\<lambda>p. (set_flag flagExpectCRLF (p\<lparr>p_len := v, p_skip := 0\<rparr>))
                        \<lparr>p_state := chunk_body\<rparr>)) (\<lambda>_.
                    act_ret tm)))
                  else
                    act_bind (act_put (\<lambda>p.
                        set_flag flagFinalChunk (p\<lparr>p_x := tm - 2, p_skip := tm - 2\<rparr>))) (\<lambda>_.
                    parse_last_chunk h buf it n)) p)
      else
        act_bind (act_lift (parse_hex buf it)) (\<lambda>(v, it). parse_last_chunk h buf it n) p)"

definition parse_chunk_header :: "'s handler \<Rightarrow> string \<Rightarrow> ('s, nat) pact" where
  "parse_chunk_header h buf p =
     (if has_flag flagExpectCRLF p then
        if length buf < 2 then (Ok 0, p)
        else act_bind (act_lift (parse_crlf buf 0)) (\<lambda>(ok, it).
             if \<not> ok then act_err bad_chunk
             else parse_chunk_size h buf it (length buf - 2)) p
      else parse_chunk_size h buf 0 (length buf) p)"

section \<open>write and write_eof\<close>

definition do_write_direct :: "bool \<Rightarrow> 's handler \<Rightarrow> string \<Rightarrow> ('s, nat) pact" where
  "do_write_direct isRequest h buf p =
     (if p_state p = header then
        parse_header isRequest h buf (if length buf > 0 then set_flag flagGotSome p else p)
      else parse_chunk_header h buf (maybe_do_body_direct h p))"

definition do_write_indirect :: "bool \<Rightarrow> 's handler \<Rightarrow> string \<Rightarrow> ('s, nat) pact" where
  "do_write_indirect isRequest h buf p =
     (case p_state p of
        header \<Rightarrow> parse_header isRequest h buf (if length buf > 0 then set_flag flagGotSome p else p)
      | body \<Rightarrow> act_bind (maybe_do_body_indirect h) (\<lambda>_. parse_body h buf) p
      | body_to_eof \<Rightarrow> act_bind (maybe_do_body_indirect h) (\<lambda>_. parse_body_to_eof h buf) p
      | chunk_header \<Rightarrow> act_bind (maybe_do_body_indirect h) (\<lambda>_. parse_chunk_header h buf) p
      | chunk_body \<Rightarrow> parse_chunk_body h buf p
      | complete \<Rightarrow> (Ok 0, p))"

definition do_write :: "bool \<Rightarrow> bool \<Rightarrow> 's handler \<Rightarrow> string \<Rightarrow> ('s, nat) pact" where
  "do_write isRequest isDirect h buf =
     (if isDirect then do_write_direct isRequest h buf else do_write_indirect isRequest h buf)"

text \<open>
  \<open>maybe_flatten\<close> copies a sequence of several buffers into \<open>buf_\<close>. The string it
  returns is the whole of \<open>buf_\<close>, \<open>buf_len_\<close> octets, not the octets copied.
\<close>

definition maybe_flatten :: "string list \<Rightarrow> 's parser \<Rightarrow> string \<times> 's parser" where
  "maybe_flatten buffers p =
     (case buffers of
        [] \<Rightarrow> ([], p)
      | [b] \<Rightarrow> (b, p)
      | _ \<Rightarrow>
          let len = length (concat buffers);
              buf = (if len > length (p_buf p) then replicate len (CHR 0x00) else p_buf p);
              buf = concat buffers @ drop len buf
          in (buf, p\<lparr>p_buf := buf\<rparr>))"

definition parser_write :: "bool \<Rightarrow> bool \<Rightarrow> 's handler \<Rightarrow> string list \<Rightarrow> ('s, nat) pact" where
  "parser_write isRequest isDirect h buffers p =
     (case maybe_flatten buffers p of (buf, p) \<Rightarrow> do_write isRequest isDirect h buf p)"

definition write_eof :: "'s handler \<Rightarrow> ('s, unit) pact" where
  "write_eof h p =
     (if p_state p = header then (Err partial_message, p)
      else if has_flag flagContentLength p \<or> has_flag flagChunked p then
        if p_state p \<noteq> complete then (Err partial_message, p) else (Ok (), p)
      else do_complete h p)"

section \<open>The direct interface\<close>

text \<open>
  An error set by \<open>on_complete\<close> inside \<open>commit_body\<close> is thrown away.
\<close>

definition commit_body :: "'s handler \<Rightarrow> nat \<Rightarrow> 's parser \<Rightarrow> 's parser" where
  "commit_body h n p =
     (let p = p\<lparr>p_impl := on_commit h n (p_impl p)\<rparr> in
      case p_state p of
        body \<Rightarrow>
          let p = p\<lparr>p_len := p_len p - of_nat n\<rparr> in
          if p_len p = 0 then snd (do_complete h p) else p
      | chunk_body \<Rightarrow>
          let p = p\<lparr>p_len := p_len p - of_nat n\<rparr> in
          if p_len p = 0 then p\<lparr>p_state := chunk_header\<rparr> else p
      | _ \<Rightarrow> p)"

text \<open>\<open>copy_body\<close>: the count copied, and what is left in the caller's buffer.\<close>

definition copy_body :: "'s handler \<Rightarrow> string \<Rightarrow> 's parser \<Rightarrow> (nat \<times> string) \<times> 's parser" where
  "copy_body h buffer p =
     (let p = maybe_do_body_direct h p in
      if p_state p = body_to_eof then
        let (m, s) = on_prepare h (length buffer) (p_impl p);
            n = min m (length buffer);
            s = on_commit h n (on_fill h (take n buffer) s)
        in ((n, drop n buffer), p\<lparr>p_impl := s\<rparr>)
      else
        let (m, s) = on_prepare h (unat (p_len p)) (p_impl p);
            n = min m (length buffer);
            s = on_fill h (take n buffer) s
        in ((n, buffer), commit_body h n (p\<lparr>p_impl := s\<rparr>)))"

definition prepare_body :: "'s handler \<Rightarrow> nat \<Rightarrow> 's parser \<Rightarrow> nat \<times> 's parser" where
  "prepare_body h limit p =
     (let p = maybe_do_body_direct h p;
          n = (if p_state p = body_to_eof then limit else clamp (p_len p) limit);
          (m, s) = on_prepare h n (p_impl p)
      in (m, p\<lparr>p_impl := s\<rparr>))"

definition consume :: "nat \<Rightarrow> 's parser \<Rightarrow> 's parser" where
  "consume n p =
     (let p = p\<lparr>p_len := p_len p - of_nat n\<rparr> in
      if p_len p = 0 then
        if p_state p = body then p\<lparr>p_state := complete\<rparr> else p\<lparr>p_state := chunk_header\<rparr>
      else p)"

text \<open>The move constructor; \<open>ext_\<close> and \<open>body_\<close> start empty in the new object.\<close>

definition parser_move :: "'s parser \<Rightarrow> 't \<Rightarrow> 't parser" where
  "parser_move other s =
     \<lparr>p_len = p_len other, p_buf = p_buf other, p_skip = p_skip other, p_x = p_x other,
      p_f = p_f other, p_state = p_state other, p_ext = [], p_body = [], p_impl = s\<rparr>"

end
