(* ===== verification/Http_Parser_Safe.thy ===== *)
theory Http_Parser_Safe
  imports Http_Parser
begin

text \<open>
  The parser stays inside the buffer it is given. Once \<open>find_eom\<close> has found the CRLF CRLF
  that ends a header, every scan of the start line and of the fields stops before it, the
  pointer the fields loop returns is the end of the header (the code asserts this), and
  the same holds of the trailer after the last chunk.
\<close>

section \<open>Lines\<close>

text \<open>No empty line ends before the one \<open>find_eom\<close> returned.\<close>

lemma find_eom_no_earlier:
  assumes "find_eom buf it lst = Ok (Some j)" "it \<le> lst" "lst \<le> length buf"
    "it \<le> k" "k + 4 < j" "buf ! k = CR"
  shows "buf ! (k + 2) \<noteq> CR"
  using assms
proof (induction buf it lst rule: find_eom.induct)
  case (1 buf it lst)
  from "1.prems" have it: "it < lst" "it < length buf"
    by (subst (asm) find_eom.simps, auto split: if_splits)+
  show ?case
  proof (cases "buf ! it = CR")
    case False
    with "1.prems" it have rest: "find_eom buf (it + 1) lst = Ok (Some j)"
      by (subst (asm) find_eom.simps) auto
    have "k \<noteq> it" using False "1.prems" by auto
    show ?thesis
      by (rule "1.IH"(2) [of "buf ! it"]) (use rest False it "1.prems" \<open>k \<noteq> it\<close> in auto)
  next
    case True
    with "1.prems" it have lf: "it + 2 < lst" "buf ! (it + 1) = LF"
      by (subst (asm) find_eom.simps, auto split: if_splits)+
    show ?thesis
    proof (cases "buf ! (it + 2) = CR")
      case False
      with "1.prems" it True lf have rest: "find_eom buf (it + 3) lst = Ok (Some j)"
        by (subst (asm) find_eom.simps) auto
      consider "k = it" | "k = it + 1" | "k = it + 2" | "it + 3 \<le> k" using "1.prems" by linarith
      then show ?thesis
      proof cases
        case 4
        show ?thesis
          by (rule "1.IH"(1) [of "buf ! it" "buf ! (it + 1)" "buf ! (it + 2)"])
            (use rest False True lf it 4 "1.prems" in auto)
      qed (use False lf "1.prems" in auto)
    next
      case second: True
      have "find_eom buf it lst =
          (if it + 3 = lst then Ok None
           else ob (rd buf (it + 3)) (\<lambda>c. if c \<noteq> LF then Err bad_line_ending else Ok (Some (it + 4))))"
        using it True lf second "1.prems"(3) by (subst find_eom.simps) simp
      with "1.prems" lf have "j = it + 4"
        by (simp add: rd_def split: if_splits)
      with "1.prems" show ?thesis by simp
    qed
  qed
qed

text \<open>
  \<open>line_start buf it lst\<close>: \<open>it\<close> is the start of a line of a block of lines that ends, with
  its only empty line, at \<open>lst\<close>.
\<close>

definition line_start :: "string \<Rightarrow> nat \<Rightarrow> nat \<Rightarrow> bool" where
  "line_start buf it lst \<longleftrightarrow>
     2 \<le> it \<and> it + 2 \<le> lst \<and> eom_at buf lst \<and> crlf_pairs buf it lst \<and>
     buf ! (it - 2) = CR \<and> buf ! (it - 1) = LF \<and>
     (\<forall>k. it \<le> k + 2 \<and> k + 4 < lst \<longrightarrow> \<not> (buf ! k = CR \<and> buf ! (k + 2) = CR))"

lemma line_start_length: "line_start buf it lst \<Longrightarrow> lst \<le> length buf"
  by (simp add: line_start_def eom_at_def)

text \<open>What \<open>find_eol\<close> returns at the start of a line.\<close>

definition line_end :: "string \<Rightarrow> nat \<Rightarrow> nat \<Rightarrow> bool" where
  "line_end buf it tm \<longleftrightarrow>
     it + 2 \<le> tm \<and> tm \<le> length buf \<and> buf ! (tm - 2) = CR \<and> buf ! (tm - 1) = LF \<and>
     (\<forall>k. it \<le> k \<and> k < tm - 2 \<longrightarrow> buf ! k \<noteq> CR)"

lemma line_eol:
  assumes "line_start buf it lst"
  obtains tm where "find_eol buf it lst = Ok (Some tm)" "line_end buf it tm"
    "it = tm - 2 \<Longrightarrow> tm = lst" "it \<noteq> tm - 2 \<Longrightarrow> line_start buf tm lst"
proof -
  note ls = assms [unfolded line_start_def]
  have len: "lst \<le> length buf" using assms by (rule line_start_length)
  have "buf ! (lst - 2) = CR" using ls by (simp add: eom_at_def)
  moreover have "it \<le> lst - 2" "lst - 2 < lst" "crlf_pairs buf it lst" using ls by auto
  ultimately obtain tm where tm: "find_eol buf it lst = Ok (Some tm)"
    using find_eol_pairs len by blast
  have tm': "it + 2 \<le> tm" "tm \<le> lst" "buf ! (tm - 2) = CR" "buf ! (tm - 1) = LF"
    "\<forall>k. it \<le> k \<and> k < tm - 2 \<longrightarrow> buf ! k \<noteq> CR"
    using find_eol_Some [OF tm] ls len by auto
  show thesis
  proof (rule that [OF tm])
    show "line_end buf it tm" using tm' len by (simp add: line_end_def)
  next
    assume eq: "it = tm - 2"
    have "\<not> (it - 2 + 4 < lst)"
    proof
      assume "it - 2 + 4 < lst"
      moreover have e: "it - 2 + 2 = it" using ls by (intro le_add_diff_inverse2) simp
      moreover have "buf ! (it - 2) = CR" using ls by simp
      moreover have "buf ! (it - 2 + 2) = CR" unfolding e using eq tm' by simp
      ultimately show False using ls by (metis order_refl)
    qed
    moreover have "2 \<le> it" using ls by simp
    ultimately show "tm = lst" using eq tm'(1,2) by linarith
  next
    assume ne: "it \<noteq> tm - 2"
    have "it \<noteq> lst - 2"
    proof
      assume "it = lst - 2"
      with ls tm' have "it < tm - 2 \<longrightarrow> False"
        using \<open>buf ! (lst - 2) = CR\<close> by auto
      with ne tm' show False by linarith
    qed
    moreover have "it \<noteq> lst - 3"
    proof
      assume "it = lst - 3"
      then have "it - 1 = lst - 4" using ls by linarith
      moreover have "buf ! (it - 1) = LF" "buf ! (lst - 4) = CR" using ls by (auto simp: eom_at_def)
      ultimately show False by simp
    qed
    ultimately have "it \<le> lst - 4" using ls by linarith
    moreover have "buf ! (lst - 4) = CR" using ls by (simp add: eom_at_def)
    ultimately have "tm - 2 \<le> lst - 4" using tm'(5) by (meson not_le)
    moreover have "4 \<le> lst" using ls by (simp add: eom_at_def)
    ultimately have "tm + 2 \<le> lst" using tm' by linarith
    with tm' ls show "line_start buf tm lst"
      using crlf_pairs_mono [of buf it lst tm] by (auto simp: line_start_def)
  qed
qed

text \<open>Scans that start in a line stop in it.\<close>

lemma find_eol_no_CR:
  "a \<le> b \<Longrightarrow> b \<le> m \<Longrightarrow> m \<le> length buf \<Longrightarrow> (\<forall>k. a \<le> k \<and> k < b \<longrightarrow> buf ! k \<noteq> CR) \<Longrightarrow>
     find_eol buf a m = find_eol buf b m"
proof (induction "b - a" arbitrary: a)
  case 0
  then show ?case by simp
next
  case (Suc d)
  from Suc.hyps(2) Suc.prems have a: "a < b" "a < m" "a < length buf" by simp_all
  with Suc.prems have "buf ! a \<noteq> CR" by simp
  with a have "find_eol buf a m = find_eol buf (a + 1) m"
    by (subst find_eol.simps) simp
  also have "\<dots> = find_eol buf b m"
    by (rule Suc.hyps(1)) (use Suc.hyps(2) Suc.prems in auto)
  finally show ?case .
qed

lemma skip_ows_stops:
  assumes "it \<le> k" "k < length buf" "\<not> is_ows (buf ! k)"
  obtains j where "skip_ows buf it fin = Ok j" "it \<le> j" "j \<le> k"
    "j = fin \<or> \<not> is_ows (buf ! j)" "\<forall>i. it \<le> i \<and> i < j \<longrightarrow> is_ows (buf ! i)"
proof -
  have "\<exists>j. skip_ows buf it fin = Ok j \<and> it \<le> j \<and> j \<le> k \<and> (j = fin \<or> \<not> is_ows (buf ! j)) \<and>
      (\<forall>i. it \<le> i \<and> i < j \<longrightarrow> is_ows (buf ! i))"
    using assms
  proof (induction buf it fin rule: skip_ows.induct)
    case (1 buf it fin)
    show ?case
    proof (cases "it = fin \<or> \<not> is_ows (buf ! it)")
      case True
      with "1.prems" show ?thesis
        by (intro exI [of _ it]) (subst skip_ows.simps, auto)
    next
      case False
      with "1.prems" have lt: "it < length buf" "it \<noteq> k" by auto
      with False "1.prems" "1.IH" [of "buf ! it"] obtain j where
        j: "skip_ows buf (Suc it) fin = Ok j" "Suc it \<le> j" "j \<le> k" "j = fin \<or> \<not> is_ows (buf ! j)"
        "\<forall>i. Suc it \<le> i \<and> i < j \<longrightarrow> is_ows (buf ! i)" by auto
      moreover have "skip_ows buf it fin = Ok j"
        using False lt j(1) by (subst skip_ows.simps) simp
      moreover have "\<forall>i. it \<le> i \<and> i < j \<longrightarrow> is_ows (buf ! i)"
        using j(5) False by (metis Suc_leI le_neq_implies_less)
      ultimately show ?thesis by (metis Suc_leD)
    qed
  qed
  then show thesis using that by blast
qed

lemma skip_ows_rev_ok:
  "first \<le> it \<Longrightarrow> it \<le> length buf \<Longrightarrow>
     \<exists>j. skip_ows_rev buf it first = Ok j \<and> first \<le> j \<and> j \<le> it \<and>
       (\<forall>i. j \<le> i \<and> i < it \<longrightarrow> is_ows (buf ! i)) \<and> (j = first \<or> \<not> is_ows (buf ! (j - 1)))"
proof (induction buf it first rule: skip_ows_rev.induct)
  case (2 buf it first)
  show ?case
  proof (cases "Suc it = first \<or> \<not> is_ows (buf ! it)")
    case True
    with 2 show ?thesis by auto
  next
    case False
    with 2 obtain j where "skip_ows_rev buf it first = Ok j" "first \<le> j" "j \<le> it"
      "\<forall>i. j \<le> i \<and> i < it \<longrightarrow> is_ows (buf ! i)" "j = first \<or> \<not> is_ows (buf ! (j - 1))"
      by (auto simp: le_Suc_eq)
    with False 2 show ?thesis
      by (intro exI [of _ j]) (auto simp: less_Suc_eq)
  qed
qed auto

section \<open>Start line\<close>

text \<open>
  \<open>k\<close> is the position of a CRLF: what a scan that starts at or before it returns is
  again at or before it.
\<close>

definition crlf_at :: "string \<Rightarrow> nat \<Rightarrow> bool" where
  "crlf_at buf k \<longleftrightarrow> k + 1 < length buf \<and> buf ! k = CR \<and> buf ! (k + 1) = LF"

lemma tables_CR [simp]:
  "\<not> is_tchar CR" "\<not> is_pathchar CR" "to_field_char CR = CHR 0x00" "\<not> parser_is_digit CR"
  "\<not> is_text CR" "\<not> parser_is_text CR"
  by code_simp+

lemma yields_scan_while:
  assumes "it \<le> k" "k < length buf" "\<not> P (buf ! k)"
  shows "yields (scan_while P buf it) (\<lambda>j. it \<le> j \<and> j \<le> k)"
  using scan_while_stops [of it k buf P] assms by auto

lemma yields_rd_CR:
  assumes "crlf_at buf k" "it \<le> k" "\<And>c. c = buf ! it \<Longrightarrow> (c \<noteq> CR \<Longrightarrow> it + 1 \<le> k) \<Longrightarrow> yields (f c) Q"
  shows "yields (ob (rd buf it) f) Q"
proof -
  have "it < length buf" using assms(1,2) by (simp add: crlf_at_def)
  moreover have "yields (f (buf ! it)) Q"
    by (rule assms(3)) (use assms(1,2) in \<open>auto simp: crlf_at_def le_less\<close>)
  ultimately show ?thesis by simp
qed

lemma digit_not_CR: "parser_is_digit c \<Longrightarrow> c \<noteq> CR"
  by auto

lemma yields_parse_method:
  "crlf_at buf k \<Longrightarrow> it \<le> k \<Longrightarrow> yields (parse_method buf it) (\<lambda>(s, j). j \<le> k)"
  unfolding parse_method_def
  by (rule yields_ob, rule yields_scan_while [where k = k]) (auto simp: crlf_at_def)

lemma yields_parse_name:
  "crlf_at buf k \<Longrightarrow> it \<le> k \<Longrightarrow> yields (parse_name buf it) (\<lambda>(s, j). j \<le> k)"
  unfolding parse_name_def
  by (rule yields_ob, rule yields_scan_while [where k = k]) (auto simp: crlf_at_def)

lemma yields_parse_target:
  "crlf_at buf k \<Longrightarrow> it \<le> k \<Longrightarrow> yields (parse_target buf it) (\<lambda>(s, j). j \<le> k)"
  unfolding parse_target_def
  by (rule yields_ob, rule yields_scan_while [where k = k]) (auto simp: crlf_at_def)

lemma yields_parse_version:
  assumes "crlf_at buf k" "it \<le> k"
  shows "yields (parse_version buf it) (\<lambda>(v, j). j \<le> k)"
  unfolding parse_version_def Let_def
  by (intro yields_rd_CR [OF assms(1)] yields_if;
      use assms in \<open>auto simp: numeral_eq_Suc dest!: digit_not_CR\<close>)

lemma yields_parse_status:
  assumes "crlf_at buf k" "it \<le> k"
  shows "yields (parse_status buf it) (\<lambda>(v, j). j \<le> k)"
  unfolding parse_status_def Let_def
  by (intro yields_rd_CR [OF assms(1)] yields_if;
      use assms in \<open>auto simp: numeral_eq_Suc dest!: digit_not_CR\<close>)

lemma yields_parse_reason:
  assumes "crlf_at buf k" "it \<le> k"
  shows "yields (parse_reason buf it) (\<lambda>(s, j). j \<le> k)"
proof -
  have "yields (parse_reason_loop buf first it) (\<lambda>(s, j). j \<le> k)" for first
    using assms
  proof (induction buf first it rule: parse_reason_loop.induct)
    case (1 buf first it)
    then have "it < length buf" by (simp add: crlf_at_def)
    moreover have "yields (parse_reason_loop buf first (Suc it)) (\<lambda>(s, j). j \<le> k)"
      if "buf ! it \<noteq> CR" "parser_is_text (buf ! it)"
    proof (rule "1.IH" [of "buf ! it"])
      show "Suc it \<le> k" using that "1.prems" by (auto simp: crlf_at_def le_less Suc_le_eq)
    qed (use that "1.prems" \<open>it < length buf\<close> in auto)
    ultimately show ?case
      using "1.prems" by (subst parse_reason_loop.simps) auto
  qed
  then show ?thesis by (simp add: parse_reason_def)
qed

lemma yields_parse_crlf:
  assumes "crlf_at buf k" "it \<le> k" "\<forall>i. it \<le> i \<and> i < k \<longrightarrow> buf ! i \<noteq> CR"
  shows "yields (parse_crlf buf it) (\<lambda>(ok, j). ok \<longrightarrow> j = k + 2)"
proof (cases "buf ! it = CR")
  case True
  with assms have "it = k" by (metis le_less order_refl)
  with assms(1) show ?thesis by (simp add: parse_crlf_def crlf_at_def)
next
  case False
  with assms show ?thesis by (simp add: parse_crlf_def crlf_at_def)
qed

lemma runs_callback: "P () \<Longrightarrow> runs (callback f) P"
  by (auto simp: runs_def callback_def split: prod.splits option.splits)

lemma runs_rd_CR:
  assumes "crlf_at buf k" "it \<le> k" "\<And>c. c = buf ! it \<Longrightarrow> (c \<noteq> CR \<Longrightarrow> it + 1 \<le> k) \<Longrightarrow> runs (f c) Q"
  shows "runs (act_bind (act_lift (rd buf it)) f) Q"
proof (rule runs_bind [where P = "\<lambda>c. c = buf ! it \<and> (c \<noteq> CR \<longrightarrow> it + 1 \<le> k)"])
  show "runs (act_lift (rd buf it)) (\<lambda>c. c = buf ! it \<and> (c \<noteq> CR \<longrightarrow> it + 1 \<le> k))"
    using assms(1,2) by (auto simp: crlf_at_def le_less)
qed (use assms(3) in blast)

lemma runs_lift_bind:
  "yields m P \<Longrightarrow> (\<And>a. P a \<Longrightarrow> runs (f a) Q) \<Longrightarrow> runs (act_bind (act_lift m) f) Q"
  by (rule runs_bind [where P = P]) simp_all

lemma runs_err_if:
  "runs (if b then act_err e else m) P \<longleftrightarrow> (\<not> b \<longrightarrow> runs m P)"
  "runs (if b then m else act_err e) P \<longleftrightarrow> (b \<longrightarrow> runs m P)"
  by simp_all

lemma runs_startline_request:
  assumes "crlf_at buf k" "\<forall>i < k. buf ! i \<noteq> CR" "it \<le> k"
  shows "runs (parse_startline_request h buf it) (\<lambda>(v, j). j = k + 2)"
  unfolding parse_startline_request_def
  apply (rule runs_lift_bind, rule yields_parse_method [OF assms(1,3)])
  apply (clarsimp simp: runs_err_if split del: if_split)
  apply (rule runs_rd_CR [OF assms(1)], assumption)
  apply (clarsimp simp: Let_def runs_err_if split del: if_split)
  apply (rule runs_lift_bind, rule yields_parse_target [OF assms(1)], simp)
  apply (clarsimp simp: runs_err_if split del: if_split)
  apply (rule runs_rd_CR [OF assms(1)], assumption)
  apply (clarsimp simp: Let_def runs_err_if split del: if_split)
  apply (rule runs_lift_bind, rule yields_parse_version [OF assms(1)], simp)
  apply (clarsimp simp: runs_err_if split del: if_split)
  apply (rule runs_lift_bind, rule yields_parse_crlf [OF assms(1)], simp)
   apply (simp add: assms(2))
  apply (clarsimp simp: runs_err_if split del: if_split)
  apply (rule runs_bind, rule runs_callback [where P = "\<lambda>_. True"], simp_all)
  done

lemma runs_startline_response:
  assumes "crlf_at buf k" "\<forall>i < k. buf ! i \<noteq> CR" "it \<le> k"
  shows "runs (parse_startline_response h buf it) (\<lambda>(v, st, j). j = k + 2)"
  unfolding parse_startline_response_def
  apply (rule runs_lift_bind, rule yields_parse_version [OF assms(1,3)])
  apply (clarsimp simp: runs_err_if split del: if_split)
  apply (rule runs_rd_CR [OF assms(1)], assumption)
  apply (clarsimp simp: Let_def runs_err_if split del: if_split)
  apply (rule runs_lift_bind, rule yields_parse_status [OF assms(1)], simp)
  apply (clarsimp simp: runs_err_if split del: if_split)
  apply (rule runs_rd_CR [OF assms(1)], assumption)
  apply (clarsimp simp: Let_def runs_err_if split del: if_split)
  apply (rule runs_lift_bind, rule yields_parse_reason [OF assms(1)], simp)
  apply clarsimp
  apply (rule runs_lift_bind, rule yields_parse_crlf [OF assms(1)], simp)
   apply (simp add: assms(2))
  apply (clarsimp simp: runs_err_if split del: if_split)
  apply (rule runs_bind, rule runs_callback [where P = "\<lambda>_. True"], simp_all)
  done

section \<open>Fields\<close>

lemma line_start_crlf: "line_start buf it lst \<Longrightarrow> crlf_at buf (it - 2)"
proof -
  assume "line_start buf it lst"
  moreover from this have "it - 2 + 1 = it - 1" "it - 1 < length buf"
    using line_start_length [of buf it lst] by (auto simp: line_start_def)
  ultimately show ?thesis by (simp only: crlf_at_def line_start_def)
qed

lemma line_end_crlf: "line_end buf it tm \<Longrightarrow> crlf_at buf (tm - 2)"
proof -
  assume "line_end buf it tm"
  moreover from this have "tm - 2 + 1 = tm - 1" "tm - 1 < length buf" by (auto simp: line_end_def)
  ultimately show ?thesis by (simp only: crlf_at_def line_end_def)
qed

lemma line_eol_ows:
  assumes "line_start buf it lst" "is_ows (buf ! it)"
  obtains tm where "find_eol buf it lst = Ok (Some tm)" "line_end buf it tm" "it + 2 < tm"
    "line_start buf tm lst"
proof -
  from line_eol [OF assms(1)] obtain tm where
    tm: "find_eol buf it lst = Ok (Some tm)" "line_end buf it tm"
      "it \<noteq> tm - 2 \<Longrightarrow> line_start buf tm lst" by blast
  have "it \<noteq> tm - 2" using tm(2) assms(2) by (auto simp: line_end_def)
  moreover have "it + 2 \<le> tm" using tm(2) by (simp add: line_end_def)
  ultimately show thesis using that [OF tm(1,2)] tm(3) by simp
qed

lemma yields_fold_first:
  assumes "line_start buf tm lst" "it \<le> tm - 2"
  shows "yields (fold_first buf it tm lst) (\<lambda>(i, t). line_start buf t lst)"
  using assms
proof (induction buf it tm lst rule: fold_first.induct)
  case (1 buf it tm lst)
  note crlf = line_start_crlf [OF "1.prems"(1)]
  obtain j where j: "skip_ows buf it (tm - 2) = (Ok j :: nat pout)"
    by (rule skip_ows_stops [OF "1.prems"(2)]) (use crlf in \<open>auto simp: crlf_at_def\<close>)
  have tml: "tm < length buf"
    using "1.prems"(1) line_start_length [OF "1.prems"(1)] by (simp add: line_start_def)
  show ?case
  proof (cases "j = tm - 2 \<and> is_ows (buf ! tm)")
    case False
    with "1.prems" tml show ?thesis
      by (subst fold_first.simps) (auto simp: Let_def j)
  next
    case True
    with "1.prems" obtain t where t: "find_eol buf tm lst = Ok (Some t)" "tm + 2 < t"
      "line_start buf t lst" by (auto elim: line_eol_ows)
    have "yields (fold_first buf tm t lst) (\<lambda>(i, t). line_start buf t lst)"
      by (rule "1.IH" [of "tm - 2" j tm "buf ! tm" "Some t"]) (use True j t tml in auto)
    with True tml t show ?thesis
      by (subst fold_first.simps) (simp add: Let_def j)
  qed
qed

lemma skip_ows_in_line:
  assumes "line_end buf it tm" "lst \<le> length buf" "tm \<le> lst"
  obtains j where "skip_ows buf it fin = Ok j" "it \<le> j" "j \<le> tm - 2"
    "find_eol buf j lst = find_eol buf it lst"
proof -
  obtain j where j: "skip_ows buf it fin = Ok j" "it \<le> j" "j \<le> tm - 2"
      "\<forall>i. it \<le> i \<and> i < j \<longrightarrow> is_ows (buf ! i)"
    by (rule skip_ows_stops [of it "tm - 2" buf fin]) (use assms in \<open>auto simp: line_end_def\<close>)
  moreover have "\<forall>k. it \<le> k \<and> k < j \<longrightarrow> buf ! k \<noteq> CR"
    using j(4) by auto
  then have "find_eol buf it lst = find_eol buf j lst"
    by (intro find_eol_no_CR) (use j assms in \<open>auto simp: line_end_def\<close>)
  ultimately show thesis using that by metis
qed

lemma yields_fold_rest:
  "line_start buf it lst \<Longrightarrow> yields (fold_rest s buf it it lst) (\<lambda>(s, j). line_start buf j lst)"
proof (induction "length buf - it" arbitrary: s it rule: less_induct)
  case less
  have len: "it < length buf" "lst \<le> length buf"
    using less.prems line_start_length [OF less.prems] by (auto simp: line_start_def)
  show ?case
  proof (cases "is_ows (buf ! it)")
    case False
    with len less.prems show ?thesis by (subst fold_rest.simps) simp
  next
    case True
    with less.prems obtain t where t: "find_eol buf it lst = Ok (Some t)" "line_end buf it t"
      "it + 2 < t" "line_start buf t lst" by (auto elim: line_eol_ows)
    obtain j where j: "skip_ows buf it (it - 2) = Ok j"
        "find_eol buf j lst = find_eol buf it lst"
      by (rule skip_ows_in_line [OF t(2) len(2)])
        (use t(4) in \<open>auto simp: line_start_def\<close>)
    have "yields (fold_rest s' buf t t lst) (\<lambda>(s, j). line_start buf j lst)" for s'
      by (rule less.hyps) (use t len in auto)
    with True len j t show ?thesis
      by (subst fold_rest.simps) (simp add: Let_def)
  qed
qed

lemma yields_obs_fold:
  assumes "line_start buf tm lst" "it \<le> tm - 2"
  shows "yields (obs_fold buf it tm lst) (\<lambda>(s, j). line_start buf j lst)"
  unfolding obs_fold_def
  apply (rule yields_ob, rule yields_fold_first [OF assms])
  apply (clarsimp simp: yields_fold_rest)
  done

lemma runs_do_field:
  assumes "first \<le> m" "m < length mem" "\<not> parser_is_digit (mem ! m)"
  shows "runs (do_field name mem first fin) (\<lambda>_. True)"
  using parse_dec_not_Oob [OF assms, of fin]
  by (intro runsI) (auto simp: do_field_def Let_def split: outcome.splits option.splits list.splits)

lemma runs_parse_field:
  assumes "line_start buf it lst" "find_eol buf it lst = Ok (Some tm)" "it \<noteq> tm - 2"
  shows "runs (parse_field h buf it tm lst) (\<lambda>j. line_start buf j lst)"
proof -
  from line_eol [OF assms(1)] assms(2,3) have
    tm: "line_end buf it tm" "line_start buf tm lst" by auto
  define k where "k = tm - 2"
  have crlf: "crlf_at buf k" using line_end_crlf [OF tm(1)] by (simp add: k_def)
  have le: "it \<le> k" "2 \<le> tm" using tm(1) by (auto simp: line_end_def k_def)
  have tml: "tm < length buf"
    using tm(2) line_start_length [OF tm(2)] by (simp add: line_start_def)
  have fold: "runs (act_bind (act_lift (obs_fold buf i tm lst)) (\<lambda>(s, it).
      act_bind (do_field name (s @ [CHR 0x00]) 0 (length s)) (\<lambda>_.
      act_bind (callback (on_field h name s)) (\<lambda>_. act_ret it)))) (\<lambda>j. line_start buf j lst)"
    if "i \<le> k" for i name
  proof (rule runs_lift_bind [OF yields_obs_fold [OF tm(2)]])
    show "i \<le> tm - 2" using that by (simp add: k_def)
    fix a :: "string \<times> nat"
    assume "case a of (s, j) \<Rightarrow> line_start buf j lst"
    moreover have "\<not> parser_is_digit (CHR 0x00)" by code_simp
    ultimately show "runs (case a of (s, it) \<Rightarrow>
        act_bind (do_field name (s @ [CHR 0x00]) 0 (length s)) (\<lambda>_.
        act_bind (callback (on_field h name s)) (\<lambda>_. act_ret it))) (\<lambda>j. line_start buf j lst)"
      by (cases a)
        (auto intro!: runs_bind [OF runs_do_field [where m = "length (fst a)"]]
          runs_bind [OF runs_callback [where P = "\<lambda>_. True"]])
  qed
  have plain: "runs (act_bind (act_lift (skip_ows buf i (tm - 2))) (\<lambda>it.
      act_bind (act_lift (skip_ows_rev buf (tm - 2) it)) (\<lambda>it2.
      act_bind (do_field name buf it it2) (\<lambda>_.
      act_bind (callback (on_field h name (slice buf it it2))) (\<lambda>_.
      act_ret tm))))) (\<lambda>j. line_start buf j lst)" if ik: "i \<le> k" for i name
  proof -
    obtain j where j: "skip_ows buf i (tm - 2) = (Ok j :: nat pout)" "j \<le> k"
      by (rule skip_ows_stops [of i k buf "tm - 2"]) (use ik crlf in \<open>auto simp: crlf_at_def\<close>)
    have "j \<le> tm - 2" "tm - 2 \<le> length buf" using j tml by (auto simp: k_def)
    then obtain j2 where j2: "skip_ows_rev buf (tm - 2) j = (Ok j2 :: nat pout)"
      using skip_ows_rev_ok by blast
    show ?thesis
      apply (rule runs_lift_bind [where P = "\<lambda>x. x = j"], simp add: j)
      apply (rule runs_lift_bind [where P = "\<lambda>x. x = j2"], simp add: j2)
      apply (rule runs_bind, rule runs_do_field [where m = k])
      using j crlf tm(2) by (auto simp: crlf_at_def
          intro!: runs_bind [OF runs_callback [where P = "\<lambda>_. True"]])
  qed
  show ?thesis
    unfolding parse_field_def
    apply (rule runs_lift_bind, rule yields_parse_name [OF crlf le(1)])
    apply (clarsimp simp: runs_err_if split del: if_split)
    apply (rule runs_rd_CR [OF crlf], assumption)
    apply (clarsimp simp: Let_def runs_err_if split del: if_split)
    apply (rule runs_lift_bind [where P = "\<lambda>_. True"], simp add: tml)
    using fold plain by (simp add: Let_def)
qed

lemma runs_parse_fields:
  assumes "line_start buf it lst"
  shows "runs (parse_fields h buf it lst) (\<lambda>j. j = lst)"
proof (rule runsI)
  fix p
  show "yields (fst (parse_fields h buf it lst p)) (\<lambda>j. j = lst)"
    using assms
  proof (induction h buf it lst p rule: parse_fields.induct)
    case (1 h buf it lst p)
    from line_eol [OF "1.prems"] obtain tm where tm: "find_eol buf it lst = Ok (Some tm)"
      "it = tm - 2 \<Longrightarrow> tm = lst" by blast
    show ?case
    proof (cases "it = tm - 2")
      case True
      with tm show ?thesis by (subst parse_fields.simps) simp
    next
      case False
      have r: "yields (fst (parse_field h buf it tm lst p)) (\<lambda>j. line_start buf j lst)"
        by (rule runsD [OF runs_parse_field [OF "1.prems" tm(1) False]])
      show ?thesis
      proof (cases "parse_field h buf it tm lst p")
        case (Pair r' p')
        show ?thesis
        proof (cases r')
          case (Ok j)
          with Pair r have "line_start buf j lst" by simp
          then have "yields (fst (parse_fields h buf j lst p')) (\<lambda>j. j = lst)"
            by (rule "1.IH" [OF tm(1) refl False Pair [unfolded Ok]])
          with Pair Ok tm(1) False show ?thesis by (subst parse_fields.simps) simp
        qed (use Pair r tm(1) False in \<open>simp_all add: parse_fields.simps [of h buf it lst p]\<close>)
      qed
    qed
  qed
qed

section \<open>Headers\<close>

text \<open>The block that \<open>find_eom\<close> delimits, searched from its start.\<close>

lemma eom_first_line:
  assumes "find_eom buf a (length buf) = Ok (Some tm)" "a \<le> length buf"
  obtains k where "a \<le> k" "crlf_at buf k" "\<forall>i. a \<le> i \<and> i < k \<longrightarrow> buf ! i \<noteq> CR"
    "line_start buf (k + 2) tm" "find_eol buf a (length buf) = Ok (Some (k + 2))"
proof -
  note e = find_eom_Some [OF assms order_refl]
  define k where "k = (LEAST m. a \<le> m \<and> buf ! m = CR)"
  have cr: "a \<le> tm - 4 \<and> buf ! (tm - 4) = CR" using e by (auto simp: eom_at_def)
  have k: "a \<le> k \<and> buf ! k = CR"
    unfolding k_def by (rule LeastI [of _ "tm - 4"]) (rule cr)
  have le: "k \<le> tm - 4" unfolding k_def by (rule Least_le) (rule cr)
  have before: "\<forall>i. a \<le> i \<and> i < k \<longrightarrow> buf ! i \<noteq> CR"
    unfolding k_def using not_less_Least by blast
  have tm: "4 \<le> tm" "tm \<le> length buf" using e by (auto simp: eom_at_def)
  with le k e have lf: "k + 1 < tm \<and> buf ! (k + 1) = LF"
    using crlf_pairsD [of buf a tm k] by auto
  have crlf: "crlf_at buf k" using k lf tm by (simp add: crlf_at_def)
  have "line_start buf (k + 2) tm"
    unfolding line_start_def
  proof (intro conjI allI impI)
    fix i assume i: "k + 2 \<le> i + 2 \<and> i + 4 < tm"
    show "\<not> (buf ! i = CR \<and> buf ! (i + 2) = CR)"
      using find_eom_no_earlier [OF assms order_refl, of i] i k by auto
  next
    show "k + 2 + 2 \<le> tm" using le tm by simp
    show "crlf_pairs buf (k + 2) tm" using e k by (auto intro: crlf_pairs_mono)
  qed (use e k lf in auto)
  moreover have "find_eol buf a (length buf) = Ok (Some (k + 2))"
    by (rule find_eol_first_CR) (use k crlf before lf tm in \<open>auto simp: crlf_at_def\<close>)
  ultimately show thesis using that k crlf before by blast
qed

lemma runs_startline:
  assumes "crlf_at buf k" "\<forall>i < k. buf ! i \<noteq> CR" "it \<le> k"
  shows "runs (parse_startline isRequest h buf it) (\<lambda>(v, st, j). j = k + 2)"
proof (cases isRequest)
  case True
  then show ?thesis
    unfolding parse_startline_def
    by (auto intro!: runs_bind [OF runs_startline_request [OF assms]])
next
  case False
  then show ?thesis
    unfolding parse_startline_def using runs_startline_response [OF assms, of h] by simp
qed

lemma runs_parse_header_at:
  assumes "find_eom buf 0 (length buf) = Ok (Some tm)"
  shows "runs (parse_header_at isRequest h buf tm) (\<lambda>j. j = tm)"
proof -
  obtain k where k: "crlf_at buf k" "\<forall>i < k. buf ! i \<noteq> CR" "line_start buf (k + 2) tm"
    by (rule eom_first_line [OF assms]) auto
  show ?thesis
    unfolding parse_header_at_def
    apply (rule runs_bind [where P = "\<lambda>_. True"], simp)
    apply (rule runs_bind, rule runs_startline [OF k(1,2)], simp)
    apply clarsimp
    apply (rule runs_bind [where P = "\<lambda>_. True"], simp)
    apply (rule runs_bind, rule runs_parse_fields [OF k(3) [simplified]])
    apply (rule runs_bind [where P = "\<lambda>_. True"], simp)
    apply (rule runs_bind, rule runs_callback [where P = "\<lambda>_. True"], simp)
    apply (rule runs_bind [where P = "\<lambda>_. True"], simp add: runs_get)
    apply (rule runs_bind [where P = "\<lambda>_. True"])
     apply (auto intro: runs_callback)
    done
qed

text \<open>
  \<open>searched buf p\<close>: the octets before \<open>skip_\<close> hold no end of message, so the search from
  \<open>skip_\<close> is the search from the start. It is what the caller must keep when it presents
  the octets again with more behind them.
\<close>

definition searched :: "string \<Rightarrow> 's parser \<Rightarrow> bool" where
  "searched buf p \<longleftrightarrow> p_skip p \<le> length buf \<and>
     find_eom buf (p_skip p) (length buf) = find_eom buf 0 (length buf)"

lemma searched_0 [simp]: "p_skip p = 0 \<Longrightarrow> searched buf p"
  by (simp add: searched_def)

lemma parse_header_not_Oob:
  assumes "searched buf p"
  shows "fst (parse_header isRequest h buf p) \<noteq> Oob"
  using find_eom_not_Oob [of 0 "length buf" buf] assms
    runsD [OF runs_parse_header_at, of buf _ isRequest h p]
  by (auto simp: parse_header_def searched_def yields_iff Let_def split: outcome.splits option.splits)

text \<open>What \<open>parse_header\<close> returns when it succeeds: nothing consumed, or the whole header.\<close>

lemma parse_header_Ok:
  assumes "searched buf p" "parse_header isRequest h buf p = (Ok n, p')"
  shows "n = 0 \<or> find_eom buf 0 (length buf) = Ok (Some n)"
  using assms runsD [OF runs_parse_header_at, of buf _ isRequest h p]
  by (auto simp: parse_header_def searched_def yields_iff Let_def
      split: outcome.splits option.splits if_splits) (metis fst_conv)

end
