(* ===== verification/Http_Parser_Resume.thy ===== *)
theory Http_Parser_Resume
  imports Http_Parser_Safe
begin

text \<open>
  Presenting a header in pieces. The caller keeps the octets the parser did not consume
  and presents them again with more octets behind; the parser remembers in \<open>skip_\<close> how far
  it searched. Two facts make every way of cutting the input equivalent: a search resumed
  at \<open>skip_\<close> finds what a search from the start finds, and octets behind the end of the
  header are never looked at.
\<close>

section \<open>Octets behind the end do not matter\<close>

text \<open>\<open>b\<close> is \<open>a\<close> where \<open>a\<close> has defined behaviour.\<close>

definition refines :: "('e, 'a) outcome \<Rightarrow> ('e, 'a) outcome \<Rightarrow> bool" where
  "refines a b \<longleftrightarrow> a = Oob \<or> b = a"

lemma refines_refl [simp]: "refines a a" "refines Oob b"
  by (simp_all add: refines_def)

lemma refinesD: "refines a b \<Longrightarrow> a \<noteq> Oob \<Longrightarrow> b = a"
  by (simp add: refines_def)

lemma refines_ob:
  assumes "refines a b" "\<And>x. a = Ok x \<Longrightarrow> refines (f x) (g x)"
  shows "refines (ob a f) (ob b g)"
  using assms by (cases a) (auto simp: refines_def)

lemma refines_if: "(c \<Longrightarrow> refines a b) \<Longrightarrow> (\<not> c \<Longrightarrow> refines a' b') \<Longrightarrow>
    refines (if c then a else a') (if c then b else b')"
  by simp

lemma refines_rd: "refines (rd xs i) (rd (xs @ ys) i)"
  by (simp add: refines_def rd_def nth_append)

lemma refines_rd_bind:
  assumes "\<And>c. i < length xs \<Longrightarrow> c = xs ! i \<Longrightarrow> refines (f c) (g c)"
  shows "refines (ob (rd xs i) f) (ob (rd (xs @ ys) i) g)"
  by (rule refines_ob, rule refines_rd) (use assms in \<open>auto simp: rd_eq_Ok\<close>)

lemma slice_append_left [simp]: "j \<le> length xs \<Longrightarrow> slice (xs @ ys) i j = slice xs i j"
  by (cases "i \<le> length xs") (auto simp: slice_def)

lemma refines_scan_while: "refines (scan_while P xs it) (scan_while P (xs @ ys) it)"
proof (induction P xs it rule: scan_while.induct)
  case (1 P xs it)
  show ?case
    by (subst (1 2) scan_while.simps, rule refines_rd_bind, rule refines_if)
      (use 1 in \<open>auto simp: rd_eq_Ok\<close>)
qed

lemma scan_while_bound: "scan_while P xs it = Ok j \<Longrightarrow> j < length xs"
  by (simp add: scan_while_Ok_iff)

lemma refines_parse_method: "refines (parse_method xs it) (parse_method (xs @ ys) it)"
  unfolding parse_method_def
  by (rule refines_ob, rule refines_scan_while) (auto dest: scan_while_bound)

lemma refines_parse_name: "refines (parse_name xs it) (parse_name (xs @ ys) it)"
  unfolding parse_name_def
  by (rule refines_ob, rule refines_scan_while) (auto dest: scan_while_bound)

lemma refines_parse_target: "refines (parse_target xs it) (parse_target (xs @ ys) it)"
  unfolding parse_target_def
  by (rule refines_ob, rule refines_scan_while, rule refines_rd_bind) auto

lemma refines_parse_version: "refines (parse_version xs it) (parse_version (xs @ ys) it)"
  unfolding parse_version_def Let_def by (intro refines_rd_bind refines_if refines_refl)

lemma refines_parse_status: "refines (parse_status xs it) (parse_status (xs @ ys) it)"
  unfolding parse_status_def Let_def by (intro refines_rd_bind refines_if refines_refl)

lemma refines_parse_crlf: "refines (parse_crlf xs it) (parse_crlf (xs @ ys) it)"
  unfolding parse_crlf_def by (intro refines_rd_bind refines_if refines_refl)

lemma refines_parse_reason: "refines (parse_reason xs it) (parse_reason (xs @ ys) it)"
proof -
  have "refines (parse_reason_loop xs first it) (parse_reason_loop (xs @ ys) first it)" for first
  proof (induction xs first it rule: parse_reason_loop.induct)
    case (1 xs first it)
    show ?case
      by (subst (1 2) parse_reason_loop.simps, rule refines_rd_bind, intro refines_if)
        (use 1 in \<open>auto simp: rd_eq_Ok\<close>)
  qed
  then show ?thesis by (simp add: parse_reason_def)
qed

lemma refines_find_eol: "refines (find_eol xs it lst) (find_eol (xs @ ys) it lst)"
proof (induction xs it lst rule: find_eol.induct)
  case (1 xs it lst)
  show ?case
    by (subst (1 2) find_eol.simps, intro refines_if refines_refl refines_rd_bind)
      (use 1 in \<open>auto simp: rd_eq_Ok\<close>)
qed

lemma refines_skip_ows: "refines (skip_ows xs it lst) (skip_ows (xs @ ys) it lst)"
proof (induction xs it lst rule: skip_ows.induct)
  case (1 xs it lst)
  show ?case
    by (subst (1 2) skip_ows.simps, intro refines_if refines_refl refines_rd_bind)
      (use 1 in \<open>auto simp: rd_eq_Ok\<close>)
qed

lemma refines_skip_ows_rev: "refines (skip_ows_rev xs it first) (skip_ows_rev (xs @ ys) it first)"
proof (induction xs it first rule: skip_ows_rev.induct)
  case (2 xs it first)
  show ?case
    unfolding skip_ows_rev.simps by (intro refines_if refines_refl refines_rd_bind)
      (use 2 in \<open>auto simp: rd_eq_Ok\<close>)
qed simp

lemma refines_parse_dec: "refines (parse_dec xs it lst) (parse_dec (xs @ ys) it lst)"
proof -
  have "refines (parse_dec_loop xs it lst v) (parse_dec_loop (xs @ ys) it lst v)" for it v
  proof (induction xs it lst v rule: parse_dec_loop.induct)
    case (1 xs it lst v)
    show ?case
      by (subst (1 2) parse_dec_loop.simps, intro refines_if refines_refl refines_rd_bind)
        (use 1 in \<open>auto simp: rd_eq_Ok\<close>)
  qed
  then show ?thesis
    unfolding parse_dec_def by (intro refines_if refines_refl refines_rd_bind)
qed

lemma refines_fold_first: "refines (fold_first xs it tm lst) (fold_first (xs @ ys) it tm lst)"
proof (induction xs it tm lst rule: fold_first.induct)
  case (1 xs it tm lst)
  show ?case
    apply (subst (1 2) fold_first.simps)
    unfolding Let_def
    apply (rule refines_ob, rule refines_skip_ows)
    apply (intro refines_if refines_refl refines_rd_bind)
    apply (rule refines_ob, rule refines_find_eol)
    apply (auto split: option.splits intro!: 1 simp: rd_eq_Ok)
    done
qed

lemma refines_fold_rest: "refines (fold_rest s xs it tm lst) (fold_rest s (xs @ ys) it tm lst)"
proof (induction "length xs - it" arbitrary: s it tm rule: less_induct)
  case less
  have line: "refines
      (case t of None \<Rightarrow> Oob | Some tm \<Rightarrow>
         fold_rest (if i \<noteq> tm - 2 then s' @ slice xs i (tm - 2) else s') xs tm tm lst)
      (case t of None \<Rightarrow> Oob | Some tm \<Rightarrow>
         fold_rest (if i \<noteq> tm - 2 then s' @ slice (xs @ ys) i (tm - 2) else s') (xs @ ys) tm tm lst)"
    if "it < length xs" "skip_ows xs it fin = Ok i" "find_eol xs i lst = Ok t" for i fin t s'
  proof (cases t)
    case (Some tm)
    with that find_eol_bounds [of xs i lst tm] skip_ows_ge [OF that(2)]
    have "it < tm" "tm \<le> length xs" by auto
    then have "refines (fold_rest s xs tm tm lst) (fold_rest s (xs @ ys) tm tm lst)" for s
      using that(1) by (intro less) simp
    with \<open>tm \<le> length xs\<close> show ?thesis by (simp add: Some)
  qed simp
  show ?case
    apply (subst (1 2) fold_rest.simps)
    unfolding Let_def
    apply (intro refines_if refines_refl refines_rd_bind)
    apply (rule refines_ob, rule refines_skip_ows)
    apply (rule refines_ob, rule refines_find_eol)
    using line by simp
qed

lemma fold_first_bound:
  "fold_first xs it tm lst = Ok (i, t) \<Longrightarrow> tm \<le> length xs \<Longrightarrow> t \<le> length xs"
proof (induction xs it tm lst rule: fold_first.induct)
  case (1 xs it tm lst)
  from "1.prems" show ?case
    using "1.IH" [of "tm - 2" "tm - 2" tm "xs ! tm"]
    by (subst (asm) fold_first.simps)
      (auto simp: ob_eq_Ok rd_eq_Ok Let_def split: if_splits option.splits dest!: find_eol_bounds)
qed

lemma refines_obs_fold:
  assumes "tm \<le> length xs"
  shows "refines (obs_fold xs it tm lst) (obs_fold (xs @ ys) it tm lst)"
  unfolding obs_fold_def
proof (rule refines_ob [OF refines_fold_first])
  fix x :: "nat \<times> nat"
  assume "fold_first xs it tm lst = Ok x"
  then show "refines
      (case x of (it, tm) \<Rightarrow>
        if it \<noteq> tm then fold_rest (slice xs it (tm - 2)) xs tm tm lst else Ok ([], it))
      (case x of (it, tm) \<Rightarrow>
        if it \<noteq> tm then fold_rest (slice (xs @ ys) it (tm - 2)) (xs @ ys) tm tm lst else Ok ([], it))"
    using fold_first_bound [of xs it tm lst "fst x" "snd x"] assms refines_fold_rest
    by (cases x) auto
qed

subsection \<open>Member functions\<close>

definition refines_act :: "('s, 'e, 'a) act \<Rightarrow> ('s, 'e, 'a) act \<Rightarrow> bool" where
  "refines_act m n \<longleftrightarrow> (\<forall>s. fst (m s) = Oob \<or> n s = m s)"

lemma refines_act_refl [simp]: "refines_act m m"
  by (simp add: refines_act_def)

lemma refines_act_lift: "refines a b \<Longrightarrow> refines_act (act_lift a) (act_lift b)"
  by (auto simp: refines_act_def refines_def act_lift_def)

lemma refines_act_bind:
  assumes "refines_act m n" "\<And>x s s'. m s = (Ok x, s') \<Longrightarrow> refines_act (f x) (g x)"
  shows "refines_act (act_bind m f) (act_bind n g)"
  unfolding refines_act_def
proof
  fix s
  show "fst (act_bind m f s) = Oob \<or> act_bind n g s = act_bind m f s"
  proof (cases "m s")
    case (Pair r s')
    from assms(1) have "fst (m s) = Oob \<or> n s = m s" by (simp add: refines_act_def)
    with Pair have "r = Oob \<or> n s = m s" by simp
    with assms(2) [of s _ s'] Pair show ?thesis
      by (cases r) (auto simp: act_bind_def refines_act_def)
  qed
qed

lemma refines_act_if: "(c \<Longrightarrow> refines_act a b) \<Longrightarrow> (\<not> c \<Longrightarrow> refines_act a' b') \<Longrightarrow>
    refines_act (if c then a else a') (if c then b else b')"
  by simp

lemma refines_act_lift_bind:
  assumes "refines a b" "\<And>x. a = Ok x \<Longrightarrow> refines_act (f x) (g x)"
  shows "refines_act (act_bind (act_lift a) f) (act_bind (act_lift b) g)"
  by (rule refines_act_bind, rule refines_act_lift, rule assms(1)) (use assms(2) in auto)

lemma refines_act_prod: "(\<And>a b. x = (a, b) \<Longrightarrow> refines_act (f a b) (g a b)) \<Longrightarrow>
    refines_act (case x of (a, b) \<Rightarrow> f a b) (case x of (a, b) \<Rightarrow> g a b)"
  by (cases x) simp

lemma refines_startline_request:
  "refines_act (parse_startline_request h xs it) (parse_startline_request h (xs @ ys) it)"
  unfolding parse_startline_request_def Let_def
  by (intro refines_act_lift_bind refines_act_prod refines_act_if refines_act_refl
      refines_parse_method refines_parse_target refines_parse_version refines_parse_crlf refines_rd)

lemma refines_startline_response:
  "refines_act (parse_startline_response h xs it) (parse_startline_response h (xs @ ys) it)"
  unfolding parse_startline_response_def Let_def
  by (intro refines_act_lift_bind refines_act_prod refines_act_if refines_act_refl
      refines_parse_status refines_parse_version refines_parse_reason refines_parse_crlf refines_rd)

lemma refines_do_field:
  assumes "fin \<le> length xs"
  shows "refines_act (do_field name xs first fin) (do_field name (xs @ ys) first fin)"
  using refines_parse_dec [of xs first fin ys] assms
  by (auto simp: refines_act_def refines_def do_field_def Let_def)

lemma skip_ows_rev_le: "skip_ows_rev buf it first = Ok j \<Longrightarrow> j \<le> it"
  by (induction buf it first rule: skip_ows_rev.induct)
    (auto simp: ob_eq_Ok rd_eq_Ok split: if_splits)

lemma refines_parse_field:
  assumes "tm \<le> length xs"
  shows "refines_act (parse_field h xs it tm lst) (parse_field h (xs @ ys) it tm lst)"
proof -
  have plain: "refines_act
      (act_bind (do_field name xs i j) (\<lambda>_.
        act_bind (callback (on_field h name (slice xs i j))) (\<lambda>_. act_ret tm)))
      (act_bind (do_field name (xs @ ys) i j) (\<lambda>_.
        act_bind (callback (on_field h name (slice (xs @ ys) i j))) (\<lambda>_. act_ret tm)))"
    if "skip_ows_rev xs (tm - 2) i = Ok j" for name i j
  proof -
    have "j \<le> length xs" using skip_ows_rev_le [OF that] assms by simp
    then show ?thesis by (auto intro!: refines_act_bind [OF refines_do_field])
  qed
  show ?thesis
    unfolding parse_field_def Let_def
    by (intro refines_act_lift_bind refines_act_prod refines_act_if refines_act_refl
      refines_parse_name refines_rd refines_skip_ows refines_skip_ows_rev refines_obs_fold plain assms)
qed

lemma refines_parse_fields:
  "refines_act (parse_fields h xs it lst) (parse_fields h (xs @ ys) it lst)"
  unfolding refines_act_def
proof
  fix p
  show "fst (parse_fields h xs it lst p) = Oob \<or>
      parse_fields h (xs @ ys) it lst p = parse_fields h xs it lst p"
  proof (induction h xs it lst p rule: parse_fields.induct)
    case (1 h xs it lst p)
    have eol: "find_eol xs it lst = Oob \<or> find_eol (xs @ ys) it lst = find_eol xs it lst"
      using refines_find_eol [of xs it lst ys] by (auto simp: refines_def)
    show ?case
    proof (cases "\<exists>tm. find_eol xs it lst = Ok (Some tm) \<and> it \<noteq> tm - 2")
      case False
      with eol show ?thesis
        by (subst (1 2 3) parse_fields.simps) (auto split: outcome.splits option.splits)
    next
      case True
      then obtain tm where tm: "find_eol xs it lst = Ok (Some tm)" "it \<noteq> tm - 2" by blast
      then have "tm \<le> length xs" using find_eol_bounds by blast
      then have f: "fst (parse_field h xs it tm lst p) = Oob \<or>
          parse_field h (xs @ ys) it tm lst p = parse_field h xs it tm lst p"
        using refines_parse_field [of tm xs h it lst ys] by (auto simp: refines_act_def)
      show ?thesis
      proof (cases "parse_field h xs it tm lst p")
        case (Pair r p')
        show ?thesis
          by (subst (1 2 3) parse_fields.simps)
            (use tm eol f Pair "1.IH" [OF tm(1) refl tm(2)] in \<open>cases r; auto simp: act_bind_def\<close>)
      qed
    qed
  qed
qed

lemma refines_parse_header_at:
  "refines_act (parse_header_at isRequest h xs tm) (parse_header_at isRequest h (xs @ ys) tm)"
proof -
  have start: "refines_act (parse_startline isRequest h xs 0) (parse_startline isRequest h (xs @ ys) 0)"
    unfolding parse_startline_def
    by (intro refines_act_if refines_act_bind refines_startline_request refines_startline_response
        refines_act_refl)
  show ?thesis
    unfolding parse_header_at_def
    by (intro refines_act_bind refines_act_prod refines_act_refl start refines_parse_fields)
qed

section \<open>Resuming the search\<close>

text \<open>
  What a parser that is still reading the header knows of the octets presented last:
  nothing, or that a search up to \<open>skip_ + 3\<close> found no end.
\<close>

definition header_searched :: "string \<Rightarrow> 's parser \<Rightarrow> bool" where
  "header_searched xs p \<longleftrightarrow>
     p_skip p = 0 \<or> (p_skip p + 3 \<le> length xs \<and> find_eom xs 0 (p_skip p + 3) = Ok None)"

lemma header_searched_append: "header_searched xs p \<Longrightarrow> header_searched (xs @ ys) p"
  by (auto simp: header_searched_def find_eom_append)

lemma header_searched_searched: "header_searched xs p \<Longrightarrow> searched xs p"
  using find_eom_resume [of xs 0 "p_skip p + 3" "length xs"]
  by (auto simp: header_searched_def searched_def)

lemma parse_header_at_skip:
  "parse_header_at isRequest h buf tm (p\<lparr>p_skip := k\<rparr>) = parse_header_at isRequest h buf tm p"
  by (simp add: parse_header_at_def)

lemma parse_header_nothing:
  assumes "header_searched xs p" "length xs < 4 \<or> find_eom xs 0 (length xs) = Ok None"
  shows "parse_header isRequest h xs p =
    (Ok 0, if length xs < 4 then p else p\<lparr>p_skip := length xs - 3\<rparr>)"
  using header_searched_searched [OF assms(1)] assms(2)
  by (auto simp: parse_header_def searched_def Let_def)

text \<open>A result other than \<open>None\<close> is not changed by more octets.\<close>

lemma find_eom_more:
  "it \<le> n \<Longrightarrow> n \<le> m \<Longrightarrow> m \<le> length buf \<Longrightarrow> find_eom buf it n \<noteq> Ok None \<Longrightarrow>
     find_eom buf it m = find_eom buf it n"
proof (induction buf it n rule: find_eom.induct)
  case (1 buf it n)
  have "it \<noteq> n"
    using "1.prems"(4) by (auto simp: find_eom.simps [of buf it n])
  with "1.prems" have ne: "it \<noteq> n" "it \<noteq> m" "it < length buf" by auto
  show ?case
  proof (cases "buf ! it = CR")
    case False
    with "1.prems" ne have "find_eom buf (it + 1) n \<noteq> Ok None"
      by (subst (asm) find_eom.simps) simp
    then have "find_eom buf (it + 1) m = find_eom buf (it + 1) n"
      by (intro "1.IH"(2) [of "buf ! it"]) (use False ne "1.prems" in auto)
    with False ne show ?thesis by (subst (1 2) find_eom.simps) simp
  next
    case cr: True
    show ?thesis
    proof (cases "it + 1 \<noteq> n \<and> buf ! (it + 1) = LF \<and> it + 2 \<noteq> n \<and> buf ! (it + 2) \<noteq> CR")
      case False
      with cr ne "1.prems" show ?thesis
        by (subst (1 2) find_eom.simps, subst (asm) find_eom.simps)
          (auto simp: rd_def split: if_splits)
    next
      case True
      with cr ne "1.prems" have n: "it + 3 \<le> n" "it + 2 < length buf" by auto
      from True cr ne n have step: "find_eom buf it k = find_eom buf (it + 3) k" if "n \<le> k" for k
        using that by (subst find_eom.simps) simp
      have "find_eom buf (it + 3) m = find_eom buf (it + 3) n"
        by (rule "1.IH"(1) [of "buf ! it" "buf ! (it + 1)" "buf ! (it + 2)"])
          (use True cr ne n "1.prems" step [of n] in auto)
      with step "1.prems" show ?thesis by simp
    qed
  qed
qed

text \<open>
  The header is complete, or in error, with the octets \<open>xs\<close>: more octets change nothing
  but, after an error, the value left in \<open>skip_\<close>.
\<close>

definition same_result ::
    "('e, 'a) outcome \<times> 's parser \<Rightarrow> ('e, 'a) outcome \<times> 's parser \<Rightarrow> bool" where
  "same_result r r' \<longleftrightarrow> fst r = fst r' \<and> (snd r)\<lparr>p_skip := 0\<rparr> = (snd r')\<lparr>p_skip := 0\<rparr>"

lemma same_result_refl [simp]: "same_result r r"
  by (simp add: same_result_def)

lemma parse_header_done:
  assumes "header_searched xs p" "4 \<le> length xs" "find_eom xs 0 (length xs) \<noteq> Ok None" "p_skip q = 0"
    "q = p\<lparr>p_skip := 0\<rparr>"
  shows "same_result (parse_header isRequest h xs p) (parse_header isRequest h (xs @ ys) q)"
    and "fst (parse_header isRequest h xs p) \<noteq> Ok 0"
proof -
  have s: "find_eom xs (p_skip p) (length xs) = find_eom xs 0 (length xs)"
    using header_searched_searched [OF assms(1)] by (simp add: searched_def)
  have more: "find_eom (xs @ ys) 0 (length xs + length ys) = find_eom xs 0 (length xs)"
  proof -
    have app: "find_eom (xs @ ys) 0 (length xs) = find_eom xs 0 (length xs)"
      by (rule find_eom_append) auto
    have "find_eom (xs @ ys) 0 (length (xs @ ys)) = find_eom (xs @ ys) 0 (length xs)"
      by (rule find_eom_more) (use app assms in auto)
    with app show ?thesis by simp
  qed
  show "same_result (parse_header isRequest h xs p) (parse_header isRequest h (xs @ ys) q)"
  proof (cases "find_eom xs 0 (length xs)")
    case (Ok r)
    with assms(3) obtain tm where tm: "find_eom xs 0 (length xs) = Ok (Some tm)" by auto
    have "fst (parse_header_at isRequest h xs tm p) \<noteq> Oob"
      using runsD [OF runs_parse_header_at [OF tm], of isRequest h p] by (simp add: yields_iff)
    then have "parse_header_at isRequest h (xs @ ys) tm p = parse_header_at isRequest h xs tm p"
      using refines_parse_header_at [of isRequest h xs tm ys] by (auto simp: refines_act_def)
    then show ?thesis
      using tm s more assms by (simp add: parse_header_def Let_def parse_header_at_skip)
  qed (use s more assms in \<open>auto simp: parse_header_def Let_def same_result_def\<close>)
  show "fst (parse_header isRequest h xs p) \<noteq> Ok 0"
  proof
    assume z: "fst (parse_header isRequest h xs p) = Ok 0"
    then obtain tm where tm: "find_eom xs 0 (length xs) = Ok (Some tm)"
      using s assms by (auto simp: parse_header_def Let_def split: outcome.splits option.splits)
    with z s assms have "fst (parse_header_at isRequest h xs tm p) = Ok 0"
      by (simp add: parse_header_def Let_def)
    with runsD [OF runs_parse_header_at [OF tm], of isRequest h p] have "tm = 0" by simp
    with find_eom_Some [OF tm] show False by simp
  qed
qed

text \<open>
  The caller's side while the header is incomplete: write what there is, and write it
  again with the next piece behind it.
\<close>

fun header_feed :: "bool \<Rightarrow> bool \<Rightarrow> 's handler \<Rightarrow> string \<Rightarrow> string list \<Rightarrow> ('s, nat) pact" where
  "header_feed isRequest isDirect h buf [] p = (Ok 0, p)"
| "header_feed isRequest isDirect h buf (x # xs) p =
     (case do_write isRequest isDirect h (buf @ x) p of
        (Ok 0, p') \<Rightarrow> header_feed isRequest isDirect h (buf @ x) xs p'
      | r \<Rightarrow> r)"

lemma do_write_header:
  "p_state p = header \<Longrightarrow> do_write isRequest isDirect h buf p =
     parse_header isRequest h buf (if buf = [] then p else set_flag flagGotSome p)"
  by (simp add: do_write_def do_write_direct_def do_write_indirect_def)

lemma set_flag_idem [simp]: "set_flag fl (set_flag fl p) = set_flag fl p"
  by (simp add: set_flag_def or.assoc)

lemma set_flag_skip: "set_flag fl (p\<lparr>p_skip := k\<rparr>) = (set_flag fl p)\<lparr>p_skip := k\<rparr>"
  by (simp add: set_flag_def)

lemma set_flag_simps [simp]:
  "p_state (set_flag fl p) = p_state p" "p_skip (set_flag fl p) = p_skip p"
  "p_len (set_flag fl p) = p_len p" "p_impl (set_flag fl p) = p_impl p"
  by (simp_all add: set_flag_def)

lemma header_feed_aux:
  assumes "p_state p = header" "p_skip p = 0"
    "length buf < 4 \<or> find_eom buf 0 (length buf) = Ok None"
    "header_searched buf p1" "p1\<lparr>p_skip := 0\<rparr> = (if buf = [] then p else set_flag flagGotSome p)"
  shows "same_result (header_feed isRequest isDirect h buf xs p1)
    (do_write isRequest isDirect h (buf @ concat xs) p)"
  using assms(3-5)
proof (induction xs arbitrary: buf p1)
  case Nil
  define p2 where "p2 = (if buf = [] then p else set_flag flagGotSome p)"
  have p2: "p_skip p2 = 0" using assms(2) by (simp add: p2_def)
  have "do_write isRequest isDirect h buf p = (Ok 0, if length buf < 4 then p2 else p2\<lparr>p_skip := length buf - 3\<rparr>)"
    unfolding do_write_header [OF assms(1)] p2_def [symmetric]
    by (rule parse_header_nothing) (use Nil p2 in \<open>auto simp: header_searched_def\<close>)
  with Nil p2 show ?case by (simp add: same_result_def p2_def [symmetric])
next
  case (Cons x xs)
  define q where "q = (if buf @ x = [] then p1 else set_flag flagGotSome p1)"
  define p2 where "p2 = (if buf @ x = [] then p else set_flag flagGotSome p)"
  have hdr: "p_state p1 = header"
    using Cons.prems(3) assms(1) by (metis parser.select_convs(6) parser.surjective parser.update_convs(3) set_flag_simps(1))
  have q0: "q\<lparr>p_skip := 0\<rparr> = p2"
    using Cons.prems(3) by (auto simp: q_def p2_def set_flag_skip [symmetric] split: if_splits)
  have qs: "header_searched (buf @ x) q"
    using header_searched_append [OF Cons.prems(2), of x] by (auto simp: q_def header_searched_def)
  have w: "do_write isRequest isDirect h (buf @ x) p1 = parse_header isRequest h (buf @ x) q"
    by (simp only: do_write_header [OF hdr] q_def)
  show ?case
  proof (cases "length (buf @ x) < 4 \<or> find_eom (buf @ x) 0 (length (buf @ x)) = Ok None")
    case True
    define q2 where "q2 = (if length (buf @ x) < 4 then q else q\<lparr>p_skip := length (buf @ x) - 3\<rparr>)"
    have "parse_header isRequest h (buf @ x) q = (Ok 0, q2)"
      unfolding q2_def by (rule parse_header_nothing [OF qs True])
    then have "header_feed isRequest isDirect h buf (x # xs) p1 =
        header_feed isRequest isDirect h (buf @ x) xs q2"
      by (simp add: w)
    moreover have "same_result (header_feed isRequest isDirect h (buf @ x) xs q2)
        (do_write isRequest isDirect h ((buf @ x) @ concat xs) p)"
    proof (rule Cons.IH [OF True])
      show "header_searched (buf @ x) q2"
        using qs True by (auto simp: q2_def header_searched_def split: if_splits)
      show "q2\<lparr>p_skip := 0\<rparr> = (if buf @ x = [] then p else set_flag flagGotSome p)"
        using q0 by (simp add: q2_def p2_def)
    qed
    ultimately show ?thesis by simp
  next
    case False
    then have ne: "buf @ x \<noteq> []" by auto
    have d: "same_result (parse_header isRequest h (buf @ x) q)
        (parse_header isRequest h ((buf @ x) @ concat xs) p2)"
      "fst (parse_header isRequest h (buf @ x) q) \<noteq> Ok 0"
      using parse_header_done(1) [OF qs _ _ _ q0 [symmetric], where isRequest = isRequest and h = h]
        parse_header_done(2) [OF qs _ _ _ q0 [symmetric], where isRequest = isRequest and h = h]
        False q0 by auto
    have "header_feed isRequest isDirect h buf (x # xs) p1 = parse_header isRequest h (buf @ x) q"
      using d(2) by (auto simp: w split: prod.splits outcome.splits nat.splits)
    moreover have "do_write isRequest isDirect h (buf @ concat (x # xs)) p =
        parse_header isRequest h ((buf @ x) @ concat xs) p2"
      using ne by (auto simp: do_write_header [OF assms(1)] p2_def)
    ultimately show ?thesis using d(1) by simp
  qed
qed

end
