(* ===== verification/Http_Chunk_Safe.thy ===== *)
theory Http_Chunk_Safe
  imports Http_Parser_Resume
begin

text \<open>
  Chunk headers: the parser stays inside its buffer also when the header arrives in
  pieces. \<open>chunk_searched\<close> is what it knows of the octets it did not consume: for a
  chunk-size line how far \<open>find_eol\<close> searched, for the last chunk where its line ends
  (\<open>x_\<close>) and how far \<open>find_eom\<close> searched behind it.
\<close>

section \<open>Searching for the end of the chunk-size line\<close>

lemma find_eol_append:
  "it \<le> n \<Longrightarrow> n \<le> length xs \<Longrightarrow> find_eol (xs @ ys) it n = find_eol xs it n"
  using find_eol_not_Oob [of it n xs] refines_find_eol [of xs it n ys] by (auto simp: refines_def)

lemma find_eol_resume:
  "find_eol buf it n = Ok None \<Longrightarrow> it < n \<Longrightarrow> n \<le> m \<Longrightarrow> m \<le> length buf \<Longrightarrow>
     find_eol buf it m = find_eol buf (n - 1) m"
proof (induction buf it n rule: find_eol.induct)
  case (1 buf it n)
  show ?case
  proof (cases "it + 1 = n")
    case True
    then show ?thesis by auto
  next
    case False
    with "1.prems" have "buf ! it \<noteq> CR"
      by (subst (asm) find_eol.simps) (auto simp: rd_def split: if_splits)
    with "1.prems" False have step: "find_eol buf it k = find_eol buf (it + 1) k" if "n \<le> k" for k
      using that by (subst find_eol.simps) simp
    have "find_eol buf (it + 1) m = find_eol buf (n - 1) m"
      by (rule "1.IH" [of "buf ! it"]) (use "1.prems" False \<open>buf ! it \<noteq> CR\<close> step [of n] in auto)
    with step "1.prems" show ?thesis by simp
  qed
qed

lemma find_eol_more:
  "it \<le> n \<Longrightarrow> n \<le> m \<Longrightarrow> m \<le> length buf \<Longrightarrow> find_eol buf it n \<noteq> Ok None \<Longrightarrow>
     find_eol buf it m = find_eol buf it n"
proof (induction buf it n rule: find_eol.induct)
  case (1 buf it n)
  have "it \<noteq> n"
    using "1.prems"(4) by (auto simp: find_eol.simps [of buf it n])
  with "1.prems" have ne: "it \<noteq> n" "it \<noteq> m" "it < length buf" by auto
  show ?case
  proof (cases "buf ! it = CR")
    case True
    with ne "1.prems" show ?thesis
      by (subst (1 2) find_eol.simps, subst (asm) find_eol.simps) (auto split: if_splits)
  next
    case False
    with ne have step: "find_eol buf it k = find_eol buf (it + 1) k" if "it \<noteq> k" for k
      using that by (subst find_eol.simps) simp
    have "find_eol buf (it + 1) m = find_eol buf (it + 1) n"
      by (rule "1.IH" [of "buf ! it"]) (use False ne "1.prems" step in auto)
    with step ne show ?thesis by simp
  qed
qed

section \<open>What the parser knows\<close>

text \<open>Where the chunk header proper starts, behind the CRLF of the previous chunk.\<close>

definition chunk_base :: "'s parser \<Rightarrow> nat" where
  "chunk_base p = (if has_flag flagExpectCRLF p then 2 else 0)"

text \<open>\<open>x\<close> is the first CR from \<open>b\<close>, and an LF follows.\<close>

definition line_to :: "string \<Rightarrow> nat \<Rightarrow> nat \<Rightarrow> bool" where
  "line_to xs b x \<longleftrightarrow> b \<le> x \<and> crlf_at xs x \<and> (\<forall>i. b \<le> i \<and> i < x \<longrightarrow> xs ! i \<noteq> CR)"

definition last_chunk_line :: "string \<Rightarrow> nat \<Rightarrow> nat \<Rightarrow> bool" where
  "last_chunk_line xs b x \<longleftrightarrow> line_to xs b x \<and> (\<exists>j. parse_hex xs b = Ok (Some 0, j) \<and> j \<le> x)"

definition trailer_searched :: "string \<Rightarrow> nat \<Rightarrow> nat \<Rightarrow> nat \<Rightarrow> bool" where
  "trailer_searched xs b x k \<longleftrightarrow>
     b \<le> k \<and> (k \<le> x \<or> k + 3 \<le> length xs \<and> find_eom xs x (k + 3) = Ok None)"

definition chunk_searched :: "string \<Rightarrow> 's parser \<Rightarrow> bool" where
  "chunk_searched xs p \<longleftrightarrow>
     (let b = chunk_base p in
      if has_flag flagFinalChunk p then
        last_chunk_line xs b (p_x p) \<and> trailer_searched xs b (p_x p) (p_skip p)
      else
        p_skip p = 0 \<or>
        b + p_skip p + 1 \<le> length xs \<and> find_eol xs b (b + p_skip p + 1) = Ok None)"

lemma crlf_at_append: "crlf_at xs x \<Longrightarrow> crlf_at (xs @ ys) x"
  by (simp add: crlf_at_def nth_append)

lemma line_to_append: "line_to xs b x \<Longrightarrow> line_to (xs @ ys) b x"
  by (auto simp: line_to_def crlf_at_append) (auto simp: crlf_at_def nth_append)

lemma refines_parse_hex: "refines (parse_hex xs it) (parse_hex (xs @ ys) it)"
proof -
  have "refines (parse_hex_loop xs it v) (parse_hex_loop (xs @ ys) it v)" for it v
  proof (induction xs it v rule: parse_hex_loop.induct)
    case (1 xs it v)
    show ?case
      by (subst (1 2) parse_hex_loop.simps, rule refines_rd_bind)
        (use 1 in \<open>auto simp: Let_def rd_eq_Ok split: option.split\<close>)
  qed
  then show ?thesis
    unfolding parse_hex_def by (intro refines_rd_bind) (auto split: option.split)
qed

lemma last_chunk_line_append: "last_chunk_line xs b x \<Longrightarrow> last_chunk_line (xs @ ys) b x"
  using refines_parse_hex [of xs b ys]
  by (auto simp: last_chunk_line_def line_to_append refines_def)

lemma trailer_searched_append:
  "x \<le> length xs \<Longrightarrow> trailer_searched xs b x k \<Longrightarrow> trailer_searched (xs @ ys) b x k"
  by (cases "k \<le> x") (auto simp: trailer_searched_def find_eom_append)

lemma last_chunk_line_length: "last_chunk_line xs b x \<Longrightarrow> x \<le> length xs"
  by (simp add: last_chunk_line_def line_to_def crlf_at_def)

lemma chunk_searched_append: "chunk_searched xs p \<Longrightarrow> chunk_searched (xs @ ys) p"
  by (auto simp: chunk_searched_def Let_def find_eol_append
      intro: last_chunk_line_append trailer_searched_append [OF last_chunk_line_length])

text \<open>The searches the parser resumes are the searches from the start of the line.\<close>

lemma chunk_eol:
  assumes "chunk_searched xs p" "\<not> has_flag flagFinalChunk p" "chunk_base p \<le> length xs"
  shows "find_eol xs (chunk_base p + p_skip p) (length xs) = find_eol xs (chunk_base p) (length xs)"
  using assms find_eol_resume [of xs "chunk_base p" "chunk_base p + p_skip p + 1" "length xs"]
  by (auto simp: chunk_searched_def Let_def)

lemma trailer_eom:
  assumes "line_to xs b x" "trailer_searched xs b x k"
  shows "find_eom xs k (length xs) = find_eom xs x (length xs)"
proof (cases "k \<le> x")
  case True
  with assms show ?thesis
    by (intro find_eom_no_CR) (auto simp: line_to_def trailer_searched_def crlf_at_def)
next
  case False
  with assms find_eom_resume [of xs x "k + 3" "length xs"] show ?thesis
    by (auto simp: trailer_searched_def)
qed

lemma parse_hex_in_line:
  assumes "line_to xs b x"
  shows "yields (parse_hex xs b) (\<lambda>(v, j). v \<noteq> None \<longrightarrow> j \<le> x)"
proof -
  have cr: "unhex CR = None" by code_simp
  from assms have "parse_hex xs b \<noteq> Oob"
    by (intro parse_hex_not_Oob [of b x]) (auto simp: line_to_def crlf_at_def cr)
  moreover have "j \<le> x" if "parse_hex xs b = Ok (Some v, j)" for v j
  proof (rule ccontr)
    assume "\<not> j \<le> x"
    with parse_hex_Some [OF that] assms have "unhex (xs ! x) \<noteq> None"
      by (auto simp: line_to_def)
    with assms cr show False by (simp add: line_to_def crlf_at_def)
  qed
  ultimately show ?thesis by (auto simp: yields_iff)
qed

lemma find_eol_line_to:
  assumes "find_eol xs b (length xs) = Ok (Some tm)" "b \<le> length xs"
  shows "line_to xs b (tm - 2)" "tm - 2 + 2 = tm" "tm \<le> length xs"
proof -
  note f = find_eol_Some [OF assms(1,2) order_refl]
  then have "tm - 2 + 1 = tm - 1" by linarith
  with f show "line_to xs b (tm - 2)"
    unfolding line_to_def crlf_at_def by auto
qed (use find_eol_Some [OF assms(1,2) order_refl] in auto)

section \<open>Safety\<close>

lemma runs_do_complete: "runs (do_complete h) (\<lambda>_. True)"
  unfolding do_complete_def by (rule runs_bind [OF runs_callback [where P = "\<lambda>_. True"]]) auto

lemma line_to_line_start:
  assumes "line_to xs b x" "find_eom xs x (length xs) = Ok (Some tm)"
  shows "line_start xs (x + 2) tm"
proof -
  have "x \<le> length xs" using assms(1) by (simp add: line_to_def crlf_at_def)
  from eom_first_line [OF assms(2) this] obtain k where
    k: "x \<le> k" "crlf_at xs k" "\<forall>i. x \<le> i \<and> i < k \<longrightarrow> xs ! i \<noteq> CR" "line_start xs (k + 2) tm"
    by blast
  have "k = x"
  proof (rule ccontr)
    assume "k \<noteq> x"
    with k(1,3) have "xs ! x \<noteq> CR" by auto
    with assms(1) show False by (simp add: line_to_def crlf_at_def)
  qed
  with k show ?thesis by simp
qed

lemma last_chunk_at_safe:
  assumes "line_to buf b x" "it \<le> x" "b \<le> it" "find_eom buf x (length buf) = Ok (Some tm)" "p_x p = x"
  shows "yields (fst (last_chunk_at h buf it tm p)) (\<lambda>j. j = tm)"
proof -
  have crlf: "crlf_at buf x" "\<forall>i. it \<le> i \<and> i < x \<longrightarrow> buf ! i \<noteq> CR"
    using assms(1,3) by (auto simp: line_to_def)
  have it: "it < length buf" using crlf assms(2) by (simp add: crlf_at_def)
  have tail: "runs (act_bind (act_lift (parse_crlf buf i)) (\<lambda>(ok, it).
      if \<not> ok then act_err bad_chunk else
      act_bind (parse_fields h buf it tm) (\<lambda>it.
      act_bind (do_complete h) (\<lambda>_. act_ret it)))) (\<lambda>j. j = tm)"
    if "it \<le> i" "i \<le> x" for i
    apply (rule runs_lift_bind, rule yields_parse_crlf [OF crlf(1) that(2)])
    using crlf(2) that apply simp
    apply (clarsimp simp: runs_err_if split del: if_split)
    apply (rule runs_bind, rule runs_parse_fields)
     apply (rule line_to_line_start [OF assms(1,4), simplified])
    apply (rule runs_bind, rule runs_do_complete, simp)
    done
  show ?thesis
  proof (cases "buf ! it = CHR '';''")
    case False
    then show ?thesis
      using it runsD [OF tail [of it], of p] assms(2) by (simp add: last_chunk_at_def act_lift_def)
  next
    case True
    define cb where "cb = callback (on_chunk h 0 (slice buf it x)) (p\<lparr>p_ext := slice buf it x\<rparr>)"
    have "fst cb \<noteq> Oob"
      by (auto simp: cb_def callback_def split: prod.splits option.splits)
    with True it runsD [OF tail [of x], of "snd cb"] assms(2,5) show ?thesis
      by (cases cb; cases "fst cb")
        (auto simp: last_chunk_at_def act_lift_def act_bind_def cb_def [symmetric])
  qed
qed

lemma parse_last_chunk_safe:
  assumes "line_to buf b x" "trailer_searched buf b x (p_skip p)" "p_x p = x" "b \<le> it" "it \<le> x"
  shows "yields (fst (parse_last_chunk h buf it n p))
    (\<lambda>j. j = 0 \<or> find_eom buf x (length buf) = Ok (Some j))"
proof -
  have x: "x \<le> length buf" using assms(1) by (simp add: line_to_def crlf_at_def)
  have eom: "find_eom buf (p_skip p) (length buf) = find_eom buf x (length buf)"
    by (rule trailer_eom [OF assms(1,2)])
  show ?thesis
    using find_eom_not_Oob [OF x order_refl] last_chunk_at_safe [OF assms(1,5,4) _ assms(3), of _ h]
    by (auto simp: parse_last_chunk_def eom split: outcome.split option.split intro: yields_mono)
qed

lemma flag_ExpectCRLF_Final [simp]:
  "has_flag flagExpectCRLF (set_flag flagFinalChunk p) = has_flag flagExpectCRLF p"
  "has_flag flagFinalChunk (set_flag flagFinalChunk p)"
  "has_flag flagExpectCRLF (p\<lparr>p_x := i\<rparr>) = has_flag flagExpectCRLF p"
  "has_flag flagExpectCRLF (p\<lparr>p_skip := i\<rparr>) = has_flag flagExpectCRLF p"
  "has_flag flagFinalChunk (p\<lparr>p_skip := i\<rparr>) = has_flag flagFinalChunk p"
  by (simp_all add: has_flag_def set_flag_def bit.conj_disj_distrib2 or_eq_0_iff
      flagExpectCRLF_def flagFinalChunk_def)

lemma parse_chunk_size_safe:
  assumes "chunk_searched buf p" "b = chunk_base p" "b \<le> length buf"
  shows "yields (fst (parse_chunk_size h buf b n p)) (\<lambda>j. j \<le> length buf)"
proof (cases "has_flag flagFinalChunk p")
  case True
  with assms(1,2) have l: "last_chunk_line buf b (p_x p)" "trailer_searched buf b (p_x p) (p_skip p)"
    by (simp_all add: chunk_searched_def Let_def)
  then obtain j where j: "line_to buf b (p_x p)" "parse_hex buf b = Ok (Some 0, j)" "j \<le> p_x p"
    by (auto simp: last_chunk_line_def)
  have x: "p_x p \<le> length buf" using j(1) by (simp add: line_to_def crlf_at_def)
  have "b \<le> j" using parse_hex_Some [OF j(2)] by simp
  with parse_last_chunk_safe [OF j(1) l(2) refl _ j(3), of h n] find_eom_Some [of buf "p_x p" "length buf"] x
  show ?thesis
    using True j by (fastforce simp: parse_chunk_size_def act_lift_def act_bind_def elim!: yields_mono)
next
  case False
  have eol: "find_eol buf (b + p_skip p) (length buf) = find_eol buf b (length buf)"
    using chunk_eol [OF assms(1) False] assms(2,3) by simp
  show ?thesis
  proof (cases "\<exists>tm. find_eol buf b (length buf) = Ok (Some tm)")
    case noeol: False
    then show ?thesis
      using find_eol_not_Oob [OF assms(3) order_refl] False
      by (auto simp: parse_chunk_size_def eol split: outcome.split option.split)
  next
    case True
    then obtain tm where tm: "find_eol buf b (length buf) = Ok (Some tm)" by blast
    note line = find_eol_line_to [OF tm assms(3)]
    have x: "tm - 2 \<le> length buf" using line by simp
    show ?thesis
    proof (cases "\<exists>w j. parse_hex buf b = Ok (Some w, j)")
      case nohex: False
      then show ?thesis
        using parse_hex_in_line [OF line(1)] False tm
        by (cases "parse_hex buf b") (auto simp: parse_chunk_size_def eol act_lift_def act_bind_def)
    next
      case True
      then obtain w j where w: "parse_hex buf b = Ok (Some w, j)" by blast
      then have j: "b \<le> j" "j \<le> tm - 2" "j < length buf"
        using parse_hex_Some [OF w] parse_hex_in_line [OF line(1)] by auto
      show ?thesis
      proof (cases "w = 0")
        case True
        define q where "q = set_flag flagFinalChunk (p\<lparr>p_x := tm - 2, p_skip := tm - 2\<rparr>)"
        have "yields (fst (parse_last_chunk h buf j n q))
            (\<lambda>i. i = 0 \<or> find_eom buf (tm - 2) (length buf) = Ok (Some i))"
        proof (rule parse_last_chunk_safe [OF line(1) _ _ j(1,2)])
          show "trailer_searched buf b (tm - 2) (p_skip q)" "p_x q = tm - 2"
            using line(1) by (simp_all add: q_def set_flag_def trailer_searched_def line_to_def)
        qed
        then have "yields (fst (parse_last_chunk h buf j n q)) (\<lambda>i. i \<le> length buf)"
          using find_eom_Some [OF _ x order_refl] by (fastforce elim!: yields_mono)
        then show ?thesis
          using False True tm w by (simp add: parse_chunk_size_def eol act_lift_def q_def)
      next
        case nz: False
        then show ?thesis
          using False tm w j line(3)
          by (auto simp: parse_chunk_size_def eol act_lift_def act_bind_def callback_def act_defs
              split: prod.splits option.splits)
      qed
    qed
  qed
qed

lemma parse_chunk_header_safe:
  assumes "chunk_searched buf p"
  shows "yields (fst (parse_chunk_header h buf p)) (\<lambda>n. n \<le> length buf)"
proof (cases "has_flag flagExpectCRLF p")
  case False
  then show ?thesis
    using parse_chunk_size_safe [OF assms refl, of h "length buf"]
    by (simp add: parse_chunk_header_def chunk_base_def)
next
  case True
  show ?thesis
  proof (cases "length buf < 2")
    case long: False
    then have "2 \<le> length buf" by simp
    with parse_chunk_size_safe [OF assms refl, of h "length buf - 2"] True
    have "yields (fst (parse_chunk_size h buf 2 (length buf - 2) p)) (\<lambda>n. n \<le> length buf)"
      by (simp add: chunk_base_def)
    moreover from long have "0 < length buf" "1 < length buf" by (auto simp: not_less)
    then have "parse_crlf buf 0 =
        (if buf ! 0 \<noteq> CR then Ok (False, 0) else if buf ! 1 \<noteq> LF then Ok (False, 1) else Ok (True, 2))"
      by (simp add: parse_crlf_def)
    ultimately show ?thesis
      using True long by (simp add: parse_chunk_header_def act_lift_def act_bind_def)
  qed (use True in \<open>simp add: parse_chunk_header_def\<close>)
qed

end
