(* ===== verification/Http_Properties.thy ===== *)
theory Http_Properties
  imports Http_Lists_Spec Http_Chunk_Safe
begin

text \<open>
  The properties of the HTTP part: character tables, numbers, lists and the parser. Each
  is a few lines over the lemmas of the component theories; the witnesses run the code on
  concrete octets.
\<close>

section \<open>A derived parser that records its callbacks\<close>

datatype event =
    Request string string int
  | Response int string int
  | Field string string
  | HeaderDone
  | Body "u64 option"
  | Data string
  | Chunk u64 string
  | Done

definition record_event :: "event \<Rightarrow> event list callback" where
  "record_event e s = (None, s @ [e])"

definition recorder :: "event list handler" where
  "recorder =
     \<lparr>on_request = (\<lambda>m t v. record_event (Request m t v)),
      on_response = (\<lambda>s r v. record_event (Response s r v)),
      on_field = (\<lambda>n v. record_event (Field n v)),
      on_header = record_event HeaderDone,
      on_body = (\<lambda>n. record_event (Body n)),
      on_body_direct = (\<lambda>n s. s @ [Body n]),
      on_data = (\<lambda>d. record_event (Data d)),
      on_prepare = (\<lambda>n s. (n, s)),
      on_fill = (\<lambda>d s. s @ [Data d]),
      on_commit = (\<lambda>n s. s),
      on_chunk = (\<lambda>n e. record_event (Chunk n e)),
      on_complete = record_event Done\<rparr>"

abbreviation crlf :: string where "crlf \<equiv> [CR, LF]"

section \<open>Character classes\<close>

text \<open>C37: the character tables of \<open>http/detail/rfc7230.hpp\<close> and \<open>http/detail/basic_parser.hpp\<close>
  are the character classes of RFC 7230: for every octet, the table lookup is the RFC's
  definition of the class.\<close>

theorem character_tables:
  "(is_alpha c \<longleftrightarrow> rfc_alpha (octet c)) \<and>
   (is_digit c \<longleftrightarrow> rfc_digit (octet c)) \<and>
   (is_text c \<longleftrightarrow> rfc_text (octet c)) \<and>
   (is_tchar c \<longleftrightarrow> rfc_tchar (octet c)) \<and>
   (is_qdchar c \<longleftrightarrow> rfc_qdtext (octet c)) \<and>
   (is_qpchar c \<longleftrightarrow> rfc_text (octet c)) \<and>
   (is_print c \<longleftrightarrow> rfc_vchar (octet c)) \<and>
   (is_pathchar c \<longleftrightarrow> rfc_vchar (octet c) \<or> rfc_obs_text (octet c)) \<and>
   (parser_is_text c \<longleftrightarrow> rfc_text (octet c)) \<and>
   to_field_char c = (if rfc_tchar (octet c) then c_tolower c else CHR 0x00)"
  by (simp only: char_classes to_field_char_eq simp_thms)

section \<open>Numbers\<close>

lemma list_all_slice:
  "j \<le> length buf \<Longrightarrow> list_all P (slice buf i j) \<longleftrightarrow> (\<forall>k. i \<le> k \<and> k < j \<longrightarrow> P (buf ! k))"
  by (auto simp: list_all_iff set_slice) fastforce

text \<open>C35: \<open>parse_dec\<close>, which reads Content-Length, accepts a run of digits exactly when its
  value is at most 18446744073709551609, and then returns that value; it never wraps.\<close>

theorem parse_dec_spec:
  assumes "i < j" "j < length buf"
    "list_all parser_is_digit (slice buf i j)" "\<not> parser_is_digit (buf ! j)"
  shows "parse_dec buf i j = Ok (if dec_value (slice buf i j) \<le> 18446744073709551609
    then Some (of_nat (dec_value (slice buf i j))) else None)"
  using parse_dec_exact [of i j buf] assms by (simp add: dec_max_def list_all_slice)

theorem parse_dec_spec_witness:
  "parse_dec (''1048576'' @ crlf) 0 7 = Ok (Some 1048576)"
proof -
  have v: "dec_value (slice (''1048576'' @ crlf) 0 7) = 1048576"
    by (simp add: slice_def dec_value_def octet_def)
  show ?thesis
    using parse_dec_spec [of 0 7 "''1048576'' @ crlf"] unfolding v
    by (simp add: slice_def parser_is_digit_iff rfc_digit_def octet_def)
qed

text \<open>Whatever \<open>parse_dec\<close> accepts is a non-empty run of digits that fills the value
  exactly, and the number returned is its value: an accepted Content-Length is never a
  wrapped or truncated one.\<close>

theorem parse_dec_sound:
  assumes "parse_dec buf i j = Ok (Some v)"
  shows "i < j \<and> j < length buf \<and> list_all parser_is_digit (slice buf i j) \<and>
    unat v = dec_value (slice buf i j)"
  using parse_dec_Some [OF assms] by (simp add: list_all_slice)

theorem parse_dec_sound_witness:
  "unat (42 :: u64) = dec_value (slice (''42'' @ crlf) 0 2)"
proof -
  have "parse_dec (''42'' @ crlf) 0 2 = Ok (Some 42)" by code_simp
  from parse_dec_sound [OF this] show ?thesis by blast
qed



text \<open>C38: the octets \<open>unhex\<close> takes for hexadecimal digits are the digits of the RFC, with
  their values, and 16 others: eight where the table's initialiser lacks a comma and the
  eight last, which the initialiser therefore leaves 0.\<close>

theorem unhex_accepts:
  "unhex c = (case rfc_hexval (octet c) of
     Some v \<Rightarrow> Some (nat v)
   | None \<Rightarrow> if octet c \<in> {127, 142, 157, 172, 187, 202, 217, 232} then Some 254
             else if 248 \<le> octet c then Some 0 else None)"
  using unhex_eq [of c] by (simp only: unhex_fused_def)

section \<open>Lists\<close>

text \<open>C29: \<open>validate_list\<close> accepts exactly the values that, split at the commas, have only
  pieces that are empty or a token with optional white space around it.\<close>

theorem validate_list_spec: "validate_list s \<longleftrightarrow> list_well_formed s"
  using list_run_spec [of s] by (simp add: validate_list_run)

text \<open>C30: iterating an \<open>opt_token_list\<close> over a value that \<open>validate_list\<close> accepts gives its
  non-empty pieces, trimmed and in order.\<close>

theorem opt_token_list_spec:
  assumes "validate_list s"
  shows "opt_token_list s = list_elements s"
  using list_run_spec [of s] assms by (simp add: validate_list_run opt_token_list_run)

theorem opt_token_list_spec_witness:
  "opt_token_list ''keep-alive ,, Upgrade'' = [''keep-alive'', ''Upgrade'']"
  using opt_token_list_spec [of "''keep-alive ,, Upgrade''"] by code_simp

text \<open>The hand-written iterator of \<open>token_list\<close> and the policy-based \<open>opt_token_list\<close>
  enumerate the same tokens on every input, well formed or not.\<close>

theorem token_lists_agree: "token_list s = opt_token_list s"
  by (simp add: token_list_run opt_token_list_run)

section \<open>The parser\<close>

text \<open>C9: parsing a header never reads outside the buffer presented, also when an earlier call
  left \<open>skip_\<close> behind; on success it consumed nothing, or exactly up to a CRLF CRLF inside
  the buffer.\<close>

theorem parse_header_safe:
  assumes "header_searched buf p"
  shows "case fst (parse_header isRequest h buf p) of
      Ok n \<Rightarrow> n = 0 \<or> n \<le> length buf \<and> eom_at buf n
    | Err e \<Rightarrow> True
    | Oob \<Rightarrow> False"
proof -
  have s: "searched buf p" by (rule header_searched_searched [OF assms])
  show ?thesis
    using parse_header_not_Oob [OF s, of isRequest h] parse_header_Ok [OF s, of isRequest h]
      find_eom_Some [of buf 0 "length buf"]
    by (cases "parse_header isRequest h buf p") (auto split: outcome.split)
qed

theorem parse_header_safe_witness:
  "case fst (parse_header True recorder (''GET / HTTP/1.1'' @ crlf @ crlf) (parser_init [])) of
      Ok n \<Rightarrow> n = 0 \<or> n \<le> length (''GET / HTTP/1.1'' @ crlf @ crlf) \<and> eom_at (''GET / HTTP/1.1'' @ crlf @ crlf) n
    | Err e \<Rightarrow> True
    | Oob \<Rightarrow> False"
  by (rule parse_header_safe) (simp add: header_searched_def parser_init_def)

text \<open>C26: the loop over the fields of a header or trailer stops, if without an error, exactly at
  the end that \<open>find_eom\<close> found, as the code asserts.\<close>

theorem parse_fields_ends:
  assumes "line_start buf it lst"
  shows "case fst (parse_fields h buf it lst p) of Ok j \<Rightarrow> j = lst | Err e \<Rightarrow> True | Oob \<Rightarrow> False"
  using runsD [OF runs_parse_fields [OF assms], of h p] by (simp add: yields_def)

theorem parse_fields_ends_witness:
  "case fst (parse_fields recorder (''x'' @ crlf @ ''Host: a'' @ crlf @ crlf) 3 14 (parser_init [])) of
     Ok j \<Rightarrow> j = 14 | Err e \<Rightarrow> True | Oob \<Rightarrow> False"
proof (rule parse_fields_ends)
  let ?b = "''x'' @ crlf @ ''Host: a'' @ crlf @ crlf"
  have "find_eom ?b 0 (length ?b) = Ok (Some 14)" by code_simp
  from eom_first_line [OF this] obtain k where k: "line_start ?b (k + 2) 14"
    "find_eol ?b 0 (length ?b) = Ok (Some (k + 2))" by auto
  moreover have "find_eol ?b 0 (length ?b) = Ok (Some 3)" by code_simp
  ultimately have e: "k + 2 = 3" by simp
  show "line_start ?b 3 14" using k(1) unfolding e .
qed

text \<open>C3: cutting a header into pieces does not matter. A caller that presents the growing
  prefix of the input until the header is consumed gets the result, and leaves the parser
  and the derived object in the state, of presenting the whole input at once (only the
  search position \<open>skip_\<close> may differ, after an error).\<close>

theorem header_split:
  assumes "p_state p = header" "p_skip p = 0"
  shows "same_result (header_feed isRequest isDirect h [] xs p)
    (do_write isRequest isDirect h (concat xs) p)"
  using header_feed_aux [of p "[]" p isRequest isDirect h xs] assms
  by (simp add: header_searched_def)

theorem header_split_witness:
  "same_result
    (header_feed True False recorder [] [''GET / HT'', ''TP/1.1'' @ [CR], [LF, CR], [LF, CHR ''x'']] (parser_init []))
    (do_write True False recorder (''GET / HTTP/1.1'' @ crlf @ crlf @ ''x'') (parser_init []))"
  using header_split [of "parser_init []" True False recorder
      "[''GET / HT'', ''TP/1.1'' @ [CR], [LF, CR], [LF, CHR ''x'']]"]
  by (simp add: parser_init_def)



end
