(* ===== verification/Http_Fields.thy ===== *)
theory Http_Fields
  imports Http_Lists "HOL-Library.List_Lexorder" "HOL-Library.Multiset"
begin

text \<open>
  \<open>basic_fields\<close>, \<open>include/beast/http/fields.hpp\<close>, \<open>detail/fields.hpp\<close> and \<open>impl/fields.ipp\<close>: the
  container of header fields, one element in both a multiset ordered by \<open>ci_less\<close> and a list in
  the order of insertion. \<open>el_addr\<close> is the address of an element, \<open>fs_set\<close> the multiset from
  \<open>begin\<close> to \<open>end\<close>; the searches of Boost.Intrusive are their documented results on it: \<open>find\<close> is
  the first equivalent element, \<open>upper_bound\<close> the first one above. The contract the users of the
  container rely on is the locale \<open>field_map\<close>.
\<close>

section \<open>The container\<close>

record element =
  el_addr :: nat
  el_name :: string
  el_value :: string

record fields =
  fs_set :: "element list"
  fs_list :: "element list"
  fs_next :: nat

definition fields_init :: fields where
  "fields_init = \<lparr>fs_set = [], fs_list = [], fs_next = 0\<rparr>"

definition upper_bound :: "string \<Rightarrow> element list \<Rightarrow> nat" where
  "upper_bound name xs = length (takeWhile (\<lambda>e. \<not> ci_less name (el_name e)) xs)"

definition set_find :: "string \<Rightarrow> element list \<Rightarrow> nat option" where
  "set_find name xs =
     (let i = length (takeWhile (\<lambda>e. ci_less (el_name e) name) xs)
      in if i < length xs \<and> \<not> ci_less name (el_name (xs ! i)) then Some i else None)"

definition fields_empty :: "fields \<Rightarrow> bool" where
  "fields_empty f \<longleftrightarrow> fs_set f = []"

definition fields_size :: "fields \<Rightarrow> nat" where
  "fields_size f = length (fs_set f)"

definition fields_exists :: "fields \<Rightarrow> string \<Rightarrow> bool" where
  "fields_exists f name \<longleftrightarrow> set_find name (fs_set f) \<noteq> None"

definition fields_count :: "fields \<Rightarrow> string \<Rightarrow> nat" where
  "fields_count f name =
     (case set_find name (fs_set f) of
        None \<Rightarrow> 0
      | Some it \<Rightarrow> upper_bound name (fs_set f) - it)"

definition fields_find :: "fields \<Rightarrow> string \<Rightarrow> element option" where
  "fields_find f name = map_option (\<lambda>it. fs_set f ! it) (set_find name (fs_set f))"

definition fields_at :: "fields \<Rightarrow> string \<Rightarrow> string" where
  "fields_at f name = (case fields_find f name of None \<Rightarrow> [] | Some e \<Rightarrow> el_value e)"

definition fields_clear :: "fields \<Rightarrow> fields" where
  "fields_clear f = f\<lparr>fs_set := [], fs_list := []\<rparr>"

text \<open>The elements from \<open>it\<close> to \<open>last\<close> leave the set and the list one by one.\<close>

definition unlink :: "element \<Rightarrow> fields \<Rightarrow> fields" where
  "unlink e f =
     f\<lparr>fs_set := filter (\<lambda>x. el_addr x \<noteq> el_addr e) (fs_set f),
       fs_list := filter (\<lambda>x. el_addr x \<noteq> el_addr e) (fs_list f)\<rparr>"

fun erase_loop :: "element list \<Rightarrow> nat \<Rightarrow> fields \<Rightarrow> nat \<times> fields" where
  "erase_loop [] n f = (n, f)"
| "erase_loop [e] n f = (n, unlink e f)"
| "erase_loop (e # es) n f = erase_loop es (n + 1) (unlink e f)"

definition fields_erase :: "string \<Rightarrow> fields \<Rightarrow> nat \<times> fields" where
  "fields_erase name f =
     (case set_find name (fs_set f) of
        None \<Rightarrow> (0, f)
      | Some it \<Rightarrow> erase_loop (slice (fs_set f) it (upper_bound name (fs_set f))) 1 f)"

definition fields_insert :: "string \<Rightarrow> string \<Rightarrow> fields \<Rightarrow> fields" where
  "fields_insert name value f =
     (let value = trim value;
          p = \<lparr>el_addr = fs_next f, el_name = name, el_value = value\<rparr>;
          u = upper_bound name (fs_set f)
      in f\<lparr>fs_next := fs_next f + 1, fs_set := take u (fs_set f) @ p # drop u (fs_set f),
           fs_list := fs_list f @ [p]\<rparr>)"

definition fields_replace :: "string \<Rightarrow> string \<Rightarrow> fields \<Rightarrow> fields" where
  "fields_replace name value f =
     (let value = trim value
      in fields_insert name value (snd (fields_erase name f)))"

text \<open>\<open>copy_from\<close> and the range constructor insert what they iterate over. The copy assignment
  has no test for self-assignment: with \<open>same\<close>, \<open>other\<close> is the object just cleared.\<close>

definition copy_from :: "(string \<times> string) list \<Rightarrow> fields \<Rightarrow> fields" where
  "copy_from = fold (\<lambda>(name, value). fields_insert name value)"

definition fields_entries :: "fields \<Rightarrow> (string \<times> string) list" where
  "fields_entries f = map (\<lambda>e. (el_name e, el_value e)) (fs_list f)"

definition fields_copy :: "fields \<Rightarrow> fields" where
  "fields_copy other = copy_from (fields_entries other) fields_init"

definition copy_assign :: "bool \<Rightarrow> fields \<Rightarrow> fields \<Rightarrow> fields" where
  "copy_assign same other f =
     (let f = fields_clear f in copy_from (fields_entries (if same then f else other)) f)"

section \<open>The order\<close>

text \<open>\<open>ci_less\<close> is the order of the names in lower case, octet by octet.\<close>

definition ci_key :: "string \<Rightarrow> int list" where
  "ci_key s = map (\<lambda>c. schar (c_tolower c)) s"

abbreviation el_key :: "element \<Rightarrow> int list" where
  "el_key e \<equiv> ci_key (el_name e)"

lemma schar_eq: "schar c = schar d \<longleftrightarrow> c = d"
  using octet_less [of c] octet_less [of d] by (auto simp: schar_def simp del: octet_less split: if_splits)

lemma ci_less_key: "ci_less s t \<longleftrightarrow> ci_key s < ci_key t"
  by (induction s t rule: ci_less.induct)
    (auto simp: ci_key_def beast_tolower_eq Let_def schar_eq not_less)

lemma ci_equal_key: "ci_equal s t \<longleftrightarrow> ci_key s = ci_key t"
proof -
  have "ci_key s = map schar (map c_tolower s)" for s by (simp add: ci_key_def)
  moreover have "inj schar" by (rule injI) (simp add: schar_eq)
  ultimately show ?thesis by (simp only: ci_equal_map inj_map_eq_map)
qed


section \<open>Searches in the multiset\<close>

lemma sorted_split:
  fixes f :: "'a \<Rightarrow> 'b :: linorder"
  assumes "sorted (map f xs)"
  shows "xs = filter (\<lambda>x. f x < k) xs @ filter (\<lambda>x. f x = k) xs @ filter (\<lambda>x. k < f x) xs"
  using assms
proof (induction xs)
  case (Cons x xs)
  have none: "k \<le> f x \<Longrightarrow> filter (\<lambda>x. f x < k) xs = []"
    "k < f x \<Longrightarrow> filter (\<lambda>x. f x = k) xs = []"
    using Cons.prems by (auto simp: filter_empty_conv)
  from Cons.IH Cons.prems have "xs = filter (\<lambda>x. f x < k) xs @ filter (\<lambda>x. f x = k) xs @ filter (\<lambda>x. k < f x) xs"
    by simp
  with none show ?case by (cases "f x" k rule: linorder_cases) auto
qed simp

lemma takeWhile_split: "(\<forall>x \<in> set xs. P x) \<Longrightarrow> (\<forall>y \<in> set ys. \<not> P y) \<Longrightarrow> takeWhile P (xs @ ys) = xs"
  by (induction xs) (auto simp: takeWhile_eq_Nil_iff hd_in_set)

definition of_key :: "string \<Rightarrow> element list \<Rightarrow> element list" where
  "of_key name = filter (\<lambda>e. ci_equal name (el_name e))"

definition below_key :: "string \<Rightarrow> element list \<Rightarrow> element list" where
  "below_key name = filter (\<lambda>e. ci_less (el_name e) name)"

definition above_key :: "string \<Rightarrow> element list \<Rightarrow> element list" where
  "above_key name = filter (\<lambda>e. ci_less name (el_name e))"

lemmas key_parts = of_key_def below_key_def above_key_def ci_less_key ci_equal_key

lemma set_parts:
  assumes "sorted (map el_key xs)"
  shows "xs = below_key name xs @ of_key name xs @ above_key name xs"
  using sorted_split [OF assms, of "ci_key name"]
  by (simp add: key_parts eq_commute [of "ci_key name"])

lemma upper_bound_at:
  assumes "sorted (map el_key xs)"
  shows "upper_bound name xs = length (below_key name xs) + length (of_key name xs)"
proof -
  let ?P = "\<lambda>e. \<not> ci_less name (el_name e)"
  have "takeWhile ?P ((below_key name xs @ of_key name xs) @ above_key name xs) =
      below_key name xs @ of_key name xs"
    by (rule takeWhile_split) (auto simp: key_parts)
  then show ?thesis
    unfolding upper_bound_def append.assoc set_parts [OF assms, of name, symmetric] by simp
qed

lemma set_find_at:
  assumes "sorted (map el_key xs)"
  shows "set_find name xs = (if of_key name xs = [] then None else Some (length (below_key name xs)))"
    and "of_key name xs \<noteq> [] \<Longrightarrow> xs ! length (below_key name xs) = hd (of_key name xs)"
    and "slice xs (length (below_key name xs)) (upper_bound name xs) = of_key name xs"
proof -
  let ?P = "\<lambda>e. ci_less (el_name e) name"
  note split = set_parts [OF assms, of name]
  have "takeWhile ?P (below_key name xs @ of_key name xs @ above_key name xs) = below_key name xs"
    by (rule takeWhile_split) (auto simp: key_parts)
  then have w: "takeWhile ?P xs = below_key name xs" by (simp only: split [symmetric])
  show nth: "of_key name xs \<noteq> [] \<Longrightarrow> xs ! length (below_key name xs) = hd (of_key name xs)"
    by (subst split) (simp add: nth_append hd_conv_nth)
  show "slice xs (length (below_key name xs)) (upper_bound name xs) = of_key name xs"
    unfolding upper_bound_at [OF assms]
    by (subst (1) split) (rule slice_mid)
  have len: "length xs = length (below_key name xs) + length (of_key name xs) + length (above_key name xs)"
    by (subst split) simp
  show "set_find name xs = (if of_key name xs = [] then None else Some (length (below_key name xs)))"
  proof (cases "of_key name xs = []")
    case False
    then have "hd (of_key name xs) \<in> set (of_key name xs)" by simp
    then have "\<not> ci_less name (el_name (hd (of_key name xs)))" by (simp add: key_parts)
    with False nth len show ?thesis by (simp add: set_find_def w Let_def)
  next
    case True
    have "ci_less name (el_name (xs ! length (below_key name xs)))" if "length (below_key name xs) < length xs"
    proof -
      have "xs ! length (below_key name xs) = hd (above_key name xs)" "above_key name xs \<noteq> []"
        using True that len by (subst (1) split, auto simp: nth_append hd_conv_nth)
      then have "xs ! length (below_key name xs) \<in> set (above_key name xs)" by simp
      then show ?thesis by (simp add: above_key_def)
    qed
    with True show ?thesis by (simp add: set_find_def w Let_def)
  qed
qed

lemma of_key_append: "of_key m (xs @ ys) = of_key m xs @ of_key m ys"
  by (simp add: of_key_def)

section \<open>Invariant\<close>

text \<open>Set and list have the same elements; those of one name stand in the set in the order of
  the list.\<close>

definition fields_inv :: "fields \<Rightarrow> bool" where
  "fields_inv f \<longleftrightarrow>
     sorted (map el_key (fs_set f)) \<and>
     (\<forall>name. of_key name (fs_set f) = of_key name (fs_list f)) \<and>
     distinct (map el_addr (fs_list f)) \<and> (\<forall>e \<in> set (fs_list f). el_addr e < fs_next f)"

lemma fields_inv_init: "fields_inv fields_init"
  by (simp add: fields_inv_def fields_init_def of_key_def)

lemma inv_sorted: "fields_inv f \<Longrightarrow> sorted (map el_key (fs_set f))"
  by (simp add: fields_inv_def)

lemma inv_of_key: "fields_inv f \<Longrightarrow> of_key name (fs_set f) = of_key name (fs_list f)"
  by (simp add: fields_inv_def)

lemma in_of_key: "e \<in> set xs \<longleftrightarrow> e \<in> set (of_key (el_name e) xs)"
  by (simp add: of_key_def)

lemma inv_set: "fields_inv f \<Longrightarrow> set (fs_set f) = set (fs_list f)"
  using in_of_key inv_of_key by (metis (no_types, lifting) subsetI subset_antisym)

lemma inv_mset: "fields_inv f \<Longrightarrow> mset (fs_set f) = mset (fs_list f)"
proof (rule multiset_eqI)
  fix e assume inv: "fields_inv f"
  have in_key: "count (mset xs) e = count (mset (of_key (el_name e) xs)) e" for xs
    by (simp add: of_key_def)
  show "count (mset (fs_set f)) e = count (mset (fs_list f)) e"
    unfolding in_key [of "fs_set f"] in_key [of "fs_list f"] inv_of_key [OF inv] by (rule refl)
qed


lemma insert_inv: "fields_inv f \<Longrightarrow> fields_inv (fields_insert name value f)"
proof -
  assume inv: "fields_inv f"
  note sorted = inv_sorted [OF inv]
  define p where "p = \<lparr>el_addr = fs_next f, el_name = name, el_value = trim value\<rparr>"
  let ?b = "below_key name (fs_set f)" and ?o = "of_key name (fs_set f)" and ?a = "above_key name (fs_set f)"
  have "fs_set f = (?b @ ?o) @ ?a" using set_parts [OF sorted, of name] by simp
  then have set': "fs_set (fields_insert name value f) = (?b @ ?o) @ p # ?a"
    unfolding fields_insert_def Let_def upper_bound_at [OF sorted] p_def [symmetric]
    by (simp add: ) (metis append_eq_conv_conj append_assoc length_append)
  have "sorted (map el_key ((?b @ ?o) @ ?a))"
    using sorted set_parts [OF sorted, of name] by simp
  then have "sorted (map el_key ((?b @ ?o) @ p # ?a))"
    by (auto simp: sorted_append p_def key_parts)
  moreover have "of_key m ((?b @ ?o) @ p # ?a) = of_key m (fs_list f @ [p])" for m
  proof -
    have parts: "of_key m (fs_list f) = of_key m (?b @ ?o) @ of_key m ?a"
      using arg_cong [OF set_parts [OF sorted, of name], of "of_key m"] inv_of_key [OF inv, of m]
      by (simp only: of_key_append append.assoc)
    have "of_key m [p] = [] \<or> of_key m ?a = []"
      by (auto simp: key_parts p_def filter_empty_conv)
    then show ?thesis
      unfolding of_key_append of_key_append [of m "[p]" ?a, simplified] parts by auto
  qed
  ultimately show ?thesis
    using inv unfolding fields_inv_def set'
    by (auto simp: fields_insert_def Let_def p_def less_Suc_eq)
qed

definition without :: "element list \<Rightarrow> element list \<Rightarrow> element list" where
  "without es = filter (\<lambda>x. el_addr x \<notin> el_addr ` set es)"

lemma erase_loop_without:
  "es \<noteq> [] \<Longrightarrow> erase_loop es n f =
     (n + length es - 1, f\<lparr>fs_set := without es (fs_set f), fs_list := without es (fs_list f)\<rparr>)"
  by (induction es n f rule: erase_loop.induct)
    (auto simp: unlink_def without_def filter_filter intro!: filter_cong)

lemma without_key:
  assumes "fields_inv f" "set xs \<subseteq> set (fs_list f)"
  shows "without (of_key name (fs_list f)) xs = filter (\<lambda>e. \<not> ci_equal name (el_name e)) xs"
proof (unfold without_def, rule filter_cong [OF refl])
  fix x assume "x \<in> set xs"
  with assms(2) have x: "x \<in> set (fs_list f)" by blast
  have "inj_on el_addr (set (fs_list f))" using assms(1) by (simp add: fields_inv_def distinct_map)
  with x have "el_addr x \<in> el_addr ` set (of_key name (fs_list f)) \<longleftrightarrow> x \<in> set (of_key name (fs_list f))"
    by (auto simp: of_key_def dest: inj_onD)
  with x show "el_addr x \<notin> el_addr ` set (of_key name (fs_list f)) \<longleftrightarrow> \<not> ci_equal name (el_name x)"
    by (simp add: of_key_def)
qed

lemma erase_filters:
  assumes inv: "fields_inv f"
  shows "fields_erase name f = (length (of_key name (fs_list f)),
    f\<lparr>fs_set := filter (\<lambda>e. \<not> ci_equal name (el_name e)) (fs_set f),
      fs_list := filter (\<lambda>e. \<not> ci_equal name (el_name e)) (fs_list f)\<rparr>)"
proof (cases "of_key name (fs_list f) = []")
  case True
  then have "filter (\<lambda>e. \<not> ci_equal name (el_name e)) (fs_set f) = fs_set f"
    "filter (\<lambda>e. \<not> ci_equal name (el_name e)) (fs_list f) = fs_list f"
    using inv_set [OF inv] by (auto simp: of_key_def filter_empty_conv intro!: filter_True)
  with True show ?thesis
    by (simp add: fields_erase_def set_find_at(1) [OF inv_sorted [OF inv]] inv_of_key [OF inv])
next
  case False
  then show ?thesis
    using without_key [OF inv, of "fs_set f"] without_key [OF inv, of "fs_list f"] inv_set [OF inv]
    by (simp add: fields_erase_def set_find_at [OF inv_sorted [OF inv]] inv_of_key [OF inv]
        erase_loop_without)
qed

lemma sorted_map_filter: "sorted (map f xs) \<Longrightarrow> sorted (map f (filter P xs))"
  by (induction xs) auto

lemma erase_inv: "fields_inv f \<Longrightarrow> fields_inv (snd (fields_erase name f))"
proof -
  assume inv: "fields_inv f"
  have "of_key m (filter P (fs_set f)) = of_key m (filter P (fs_list f))" for m P
    using inv_of_key [OF inv, of m] unfolding of_key_def by (metis (no_types, lifting) filter_filter conj_commute filter_cong)
  then show ?thesis
    using inv by (simp add: erase_filters fields_inv_def sorted_map_filter distinct_map inj_on_def)
qed

lemma clear_inv: "fields_inv f \<Longrightarrow> fields_inv (fields_clear f)"
  by (simp add: fields_inv_def fields_clear_def of_key_def)

section \<open>The contract\<close>

lemma find_SomeD: "find P xs = Some x \<Longrightarrow> x \<in> set xs \<and> P x"
  by (induction xs) (auto split: if_splits)

lemma find_snoc:
  "find P (xs @ [x]) = (if \<exists>y \<in> set xs. P y then find P xs else if P x then Some x else None)"
  by (induction xs) auto

definition has_name :: "string \<Rightarrow> string \<times> string \<Rightarrow> bool" where
  "has_name n p \<longleftrightarrow> ci_equal n (fst p)"

locale field_map =
  fixes inv :: "'f \<Rightarrow> bool"
    and entries :: "'f \<Rightarrow> (string \<times> string) list"
    and insert :: "string \<Rightarrow> string \<Rightarrow> 'f \<Rightarrow> 'f"
    and erase :: "string \<Rightarrow> 'f \<Rightarrow> nat \<times> 'f"
    and at :: "'f \<Rightarrow> string \<Rightarrow> string"
    and exists :: "'f \<Rightarrow> string \<Rightarrow> bool"
  assumes inv_insert: "inv f \<Longrightarrow> inv (insert n v f)"
    and inv_erase: "inv f \<Longrightarrow> inv (snd (erase n f))"
    and entries_insert: "inv f \<Longrightarrow> entries (insert n v f) = entries f @ [(n, trim v)]"
    and entries_erase: "inv f \<Longrightarrow> entries (snd (erase n f)) = filter (\<lambda>p. \<not> has_name n p) (entries f)"
    and erased: "inv f \<Longrightarrow> fst (erase n f) = length (filter (has_name n) (entries f))"
    and at_find: "inv f \<Longrightarrow>
      at f n = (case find (has_name n) (entries f) of None \<Rightarrow> [] | Some p \<Rightarrow> snd p)"
    and exists_entry: "inv f \<Longrightarrow> exists f n \<longleftrightarrow> (\<exists>p \<in> set (entries f). has_name n p)"
begin

lemma exists_insert: "inv f \<Longrightarrow> exists (insert n v f) m \<longleftrightarrow> exists f m \<or> ci_equal m n"
  by (auto simp: exists_entry inv_insert entries_insert has_name_def)

lemma at_insert:
  "inv f \<Longrightarrow> at (insert n v f) m =
     (if exists f m then at f m else if ci_equal m n then trim v else [])"
  by (auto simp: at_find exists_entry inv_insert entries_insert find_snoc has_name_def find_None_iff
      split: option.split)

lemma at_missing: "inv f \<Longrightarrow> \<not> exists f n \<Longrightarrow> at f n = []"
  by (auto simp: at_find exists_entry find_None_iff split: option.split dest: find_SomeD)

lemma exists_erase: "inv f \<Longrightarrow> exists (snd (erase n f)) m \<longleftrightarrow> exists f m \<and> \<not> ci_equal n m"
proof -
  assume inv: "inv f"
  have "has_name m p \<Longrightarrow> has_name n p \<longleftrightarrow> ci_equal n m" for p
    by (simp add: has_name_def ci_equal_key)
  then show ?thesis
    using inv by (auto simp: exists_entry inv_erase entries_erase simp del: split_paired_Ex)
qed

end


section \<open>The container meets it\<close>

lemma entries_find:
  assumes "fields_inv f"
  shows "fields_find f n = find (\<lambda>e. ci_equal n (el_name e)) (fs_list f)"
proof -
  have "find P xs = (case filter P xs of [] \<Rightarrow> None | x # _ \<Rightarrow> Some x)" for P and xs :: "element list"
    by (induction xs) simp_all
  then show ?thesis
    using set_find_at [OF inv_sorted [OF assms], of n] inv_of_key [OF assms, of n]
    by (cases "of_key n (fs_list f)") (simp_all add: fields_find_def of_key_def)
qed

lemma find_map: "find P (map f xs) = map_option f (find (P \<circ> f) xs)"
  by (induction xs) simp_all

lemma fields_at_entry:
  assumes "fields_inv f"
  shows "fields_at f n = (case find (has_name n) (fields_entries f) of None \<Rightarrow> [] | Some p \<Rightarrow> snd p)"
  unfolding fields_at_def entries_find [OF assms] fields_entries_def find_map
  by (simp add: has_name_def comp_def split: option.split)

lemma fields_exists_entry:
  assumes "fields_inv f"
  shows "fields_exists f n \<longleftrightarrow> (\<exists>p \<in> set (fields_entries f). has_name n p)"
  using set_find_at(1) [OF inv_sorted [OF assms], of n] inv_of_key [OF assms, of n]
    inv_set [OF assms]
  by (auto simp: fields_exists_def fields_entries_def has_name_def of_key_def filter_empty_conv)

lemma fields_count_entries:
  assumes "fields_inv f"
  shows "fields_count f n = length (filter (has_name n) (fields_entries f))"
  using set_find_at(1) [OF inv_sorted [OF assms], of n] inv_of_key [OF assms, of n]
    upper_bound_at [OF inv_sorted [OF assms], of n]
  by (auto simp: fields_count_def fields_entries_def has_name_def of_key_def filter_map comp_def)

lemma fields_size_entries: "fields_inv f \<Longrightarrow> fields_size f = length (fields_entries f)"
  using mset_eq_length [OF inv_mset] by (simp add: fields_size_def fields_entries_def)

lemma fields_entries_insert: "fields_entries (fields_insert n v f) = fields_entries f @ [(n, trim v)]"
  by (simp add: fields_entries_def fields_insert_def Let_def)

interpretation fm: field_map fields_inv fields_entries fields_insert fields_erase fields_at fields_exists
proof unfold_locales
  fix f n v assume inv: "fields_inv f"
  show "fields_inv (fields_insert n v f)" by (rule insert_inv [OF inv])
  show "fields_inv (snd (fields_erase n f))" by (rule erase_inv [OF inv])
  show "fields_entries (fields_insert n v f) = fields_entries f @ [(n, trim v)]"
    by (rule fields_entries_insert)
  show "fields_entries (snd (fields_erase n f)) = filter (\<lambda>p. \<not> has_name n p) (fields_entries f)"
    by (simp add: erase_filters [OF inv] fields_entries_def filter_map comp_def has_name_def)
  show "fst (fields_erase n f) = length (filter (has_name n) (fields_entries f))"
    by (simp add: erase_filters [OF inv] fields_entries_def filter_map comp_def has_name_def of_key_def)
qed (rule fields_at_entry fields_exists_entry, assumption)+

lemma dropWhile_id: "xs = [] \<or> \<not> P (hd xs) \<Longrightarrow> dropWhile P xs = xs"
  by (cases xs) auto

lemma trim_id: "s = [] \<or> (\<not> is_ows (hd s) \<and> \<not> is_ows (last s)) \<Longrightarrow> trim s = s"
  using dropWhile_id [of s is_ows] dropWhile_id [of "rev s" is_ows]
  by (cases "s = []") (simp_all add: trim_def ows_skip_dropWhile hd_rev)

lemma trim_ends: "trim s = [] \<or> (\<not> is_ows (hd (trim s)) \<and> \<not> is_ows (last (trim s)))"
proof (cases "trim s = []")
  case False
  define xs where "xs = dropWhile is_ows s"
  define ys where "ys = dropWhile is_ows (rev xs)"
  have t: "trim s = rev ys" by (simp add: trim_def ows_skip_dropWhile xs_def ys_def)
  with False have ys: "ys \<noteq> []" by simp
  then have "\<not> is_ows (hd ys)" unfolding ys_def by (rule hd_dropWhile)
  moreover have "last (takeWhile is_ows (rev xs) @ ys) = last ys" using ys by (rule last_appendR)
  then have "last ys = last (rev xs)" by (simp add: ys_def)
  moreover have "xs \<noteq> []" using ys by (auto simp: ys_def)
  then have "\<not> is_ows (hd xs)" unfolding xs_def by (rule hd_dropWhile)
  ultimately show ?thesis using ys \<open>xs \<noteq> []\<close> by (simp add: t hd_rev last_rev)
qed simp

lemma trim_trim [simp]: "trim (trim s) = trim s"
  by (rule trim_id [OF trim_ends])

text \<open>The calls that change a container, and what they do to the list of its fields.\<close>

datatype field_call = Insert string string | Replace string string | Erase string | Clear

fun field_op :: "field_call \<Rightarrow> fields \<Rightarrow> fields" where
  "field_op (Insert n v) f = fields_insert n v f"
| "field_op (Replace n v) f = fields_replace n v f"
| "field_op (Erase n) f = snd (fields_erase n f)"
| "field_op Clear f = fields_clear f"

fun entry_op :: "field_call \<Rightarrow> (string \<times> string) list \<Rightarrow> (string \<times> string) list" where
  "entry_op (Insert n v) ps = ps @ [(n, trim v)]"
| "entry_op (Replace n v) ps = filter (\<lambda>p. \<not> ci_equal n (fst p)) ps @ [(n, trim v)]"
| "entry_op (Erase n) ps = filter (\<lambda>p. \<not> ci_equal n (fst p)) ps"
| "entry_op Clear ps = []"

lemma field_op_refines:
  "fields_inv f \<Longrightarrow> fields_inv (field_op c f) \<and> fields_entries (field_op c f) = entry_op c (fields_entries f)"
  by (cases c)
    (auto simp: fields_replace_def Let_def fm.inv_insert fm.inv_erase fm.entries_insert fm.entries_erase
      has_name_def clear_inv, simp add: fields_clear_def fields_entries_def)

lemma field_ops_refine:
  "fields_inv f \<Longrightarrow> fields_inv (fold field_op cs f) \<and>
     fields_entries (fold field_op cs f) = fold entry_op cs (fields_entries f)"
  using field_op_refines by (induction cs arbitrary: f) simp_all

text \<open>C13: Any sequence of operations on a fields container behaves as on the list of its fields
  in the order of insertion: insertion appends the trimmed value, erasing removes every field
  of the name in any case, a search gives the first field of the name, and the multiset and the
  list keep the same elements.\<close>

theorem fields_refine:
  "fields_entries (fold field_op cs fields_init) = fold entry_op cs [] \<and>
   fields_size (fold field_op cs fields_init) = length (fold entry_op cs []) \<and>
   fields_count (fold field_op cs fields_init) n =
     length (filter (\<lambda>p. ci_equal n (fst p)) (fold entry_op cs [])) \<and>
   fields_at (fold field_op cs fields_init) n =
     (case find (\<lambda>p. ci_equal n (fst p)) (fold entry_op cs []) of None \<Rightarrow> [] | Some p \<Rightarrow> snd p) \<and>
   (fields_exists (fold field_op cs fields_init) n \<longleftrightarrow>
     (\<exists>p \<in> set (fold entry_op cs []). ci_equal n (fst p))) \<and>
   mset (fs_set (fold field_op cs fields_init)) = mset (fs_list (fold field_op cs fields_init))"
proof -
  have "fields_entries fields_init = []" by (simp add: fields_init_def fields_entries_def)
  moreover have "has_name n = (\<lambda>p. ci_equal n (fst p))" by (simp add: fun_eq_iff has_name_def)
  ultimately show ?thesis
    using field_ops_refine [OF fields_inv_init, of cs]
    by (simp add: fields_size_entries fields_count_entries fields_at_entry fields_exists_entry inv_mset)
qed

end
