(* ===== verification/Http_Message.thy ===== *)
theory Http_Message
  imports Http_Fields Http_Numbers Http_Lists_Spec
begin

text \<open>
  Message headers, \<open>include/beast/http/message.hpp\<close> and \<open>impl/message.ipp\<close>: \<open>header\<close> with its
  accessors, which keep method, target and reason as fields with a leading colon,
  \<open>is_keep_alive\<close>, \<open>is_upgrade\<close>, \<open>prepare\<close> and \<open>reason_string\<close>; and \<open>prepare\<close>'s promise that the
  body of a message has one framing.
\<close>

section \<open>Headers\<close>

text \<open>\<open>header<true>\<close> and \<open>header<false>\<close>; only the second has \<open>status\<close>.\<close>

record http_header =
  h_version :: int
  h_status :: int
  h_fields :: fields

definition on_fields :: "(fields \<Rightarrow> fields) \<Rightarrow> http_header \<Rightarrow> http_header" where
  "on_fields u m = m\<lparr>h_fields := u (h_fields m)\<rparr>"

definition header_method :: "http_header \<Rightarrow> string" where
  "header_method m = fields_at (h_fields m) '':method''"

definition set_method :: "string \<Rightarrow> http_header \<Rightarrow> http_header" where
  "set_method s = on_fields (fields_replace '':method'' s)"

definition header_target :: "http_header \<Rightarrow> string" where
  "header_target m = fields_at (h_fields m) '':target''"

definition set_target :: "string \<Rightarrow> http_header \<Rightarrow> http_header" where
  "set_target s = on_fields (fields_replace '':target'' s)"

definition header_reason :: "http_header \<Rightarrow> string" where
  "header_reason m = fields_at (h_fields m) '':reason''"

definition set_reason :: "string \<Rightarrow> http_header \<Rightarrow> http_header" where
  "set_reason s = on_fields (fields_replace '':reason'' s)"

definition header_init :: http_header where
  "header_init = \<lparr>h_version = 0, h_status = 0, h_fields = fields_init\<rparr>"

definition has_token :: "http_header \<Rightarrow> string \<Rightarrow> string \<Rightarrow> bool" where
  "has_token m name tok \<longleftrightarrow> token_list_exists (fields_at (h_fields m) name) tok"

text \<open>\<open>BOOST_ASSERT\<close> on the version, which the documentation puts on the caller.\<close>

definition msg_is_keep_alive :: "http_header \<Rightarrow> ('e, bool) outcome" where
  "msg_is_keep_alive m =
     (if \<not> (h_version m = 10 \<or> h_version m = 11) then Oob
      else if h_version m = 11 then
        if has_token m ''Connection'' ''close'' then Ok False else Ok True
      else if has_token m ''Connection'' ''keep-alive'' then Ok True
      else Ok False)"

definition msg_is_upgrade :: "http_header \<Rightarrow> ('e, bool) outcome" where
  "msg_is_upgrade m =
     (if \<not> (h_version m = 10 \<or> h_version m = 11) then Oob
      else if h_version m = 10 then Ok False
      else if has_token m ''Connection'' ''upgrade'' then Ok True
      else Ok False)"

section \<open>prepare\<close>

datatype connection = Conn_close | Conn_keep_alive | Conn_upgrade

record prepare_info =
  pi_connection :: "connection option"
  pi_content_length :: "u64 option"

definition prepare_option :: "connection \<Rightarrow> prepare_info \<Rightarrow> prepare_info" where
  "prepare_option c pi = pi\<lparr>pi_connection := Some c\<rparr>"

definition prepare_options :: "connection list \<Rightarrow> prepare_info \<Rightarrow> prepare_info" where
  "prepare_options = fold prepare_option"

text \<open>\<open>boost::lexical_cast<std::string>\<close> of an unsigned integer.\<close>

function dec_string :: "nat \<Rightarrow> string" where
  "dec_string n =
     (if n < 10 then [char_of (48 + n)] else dec_string (n div 10) @ [char_of (48 + n mod 10)])"
  by pat_completeness auto
termination
  by (relation "measure id") auto

declare dec_string.simps [simp del]

datatype prepare_error =
  Connection_set | Content_length_set | Chunked_set | Upgrade_version

definition set_length :: "bool \<Rightarrow> u64 \<Rightarrow> http_header \<Rightarrow> http_header" where
  "set_length isRequest len m =
     (let put = on_fields (fields_insert ''Content-Length'' (dec_string (unat len))) in
      if isRequest then
        if len > 0 \<or> ci_equal (header_method m) ''POST'' then put m else m
      else if h_status m div 100 \<noteq> 1 \<and> h_status m \<noteq> 204 \<and> h_status m \<noteq> 304 then put m
      else m)"

definition set_framing :: "bool \<Rightarrow> prepare_info \<Rightarrow> http_header \<Rightarrow> http_header" where
  "set_framing isRequest pi m =
     (if pi_connection pi \<noteq> Some Conn_upgrade then
        case pi_content_length pi of
          Some len \<Rightarrow> set_length isRequest len m
        | None \<Rightarrow>
            if h_version m \<ge> 11 then on_fields (fields_insert ''Transfer-Encoding'' ''chunked'') m else m
      else m)"

definition set_connection :: "connection option \<Rightarrow> http_header \<Rightarrow> http_header" where
  "set_connection c m =
     (let content_length = fields_exists (h_fields m) ''Content-Length'';
          put = (\<lambda>v. on_fields (fields_insert ''Connection'' v)) in
      case c of
        None \<Rightarrow> m
      | Some Conn_upgrade \<Rightarrow> put ''upgrade'' m
      | Some Conn_keep_alive \<Rightarrow>
          if h_version m < 11 then if content_length then put ''keep-alive'' m else m else m
      | Some Conn_close \<Rightarrow> if h_version m \<ge> 11 then put ''close'' m else m)"

text \<open>\<open>content_length\<close> is what the writer of the body answers, if it has the member. The
  exceptions are values; the last one leaves a changed message.\<close>

definition prepare ::
    "bool \<Rightarrow> u64 option \<Rightarrow> connection list \<Rightarrow> (http_header, prepare_error, unit) act" where
  "prepare isRequest content_length options m =
     (let pi = prepare_options options \<lparr>pi_connection = None, pi_content_length = content_length\<rparr> in
      if fields_exists (h_fields m) ''Connection'' then (Err Connection_set, m)
      else if fields_exists (h_fields m) ''Content-Length'' then (Err Content_length_set, m)
      else if has_token m ''Transfer-Encoding'' ''chunked'' then (Err Chunked_set, m)
      else
        let m = set_framing isRequest pi m;
            m = set_connection (pi_connection pi) m
        in if h_version m < 11 \<and> has_token m ''Connection'' ''upgrade'' then (Err Upgrade_version, m)
           else (Ok (), m))"

section \<open>reason_string\<close>

fun reason_table :: "(int \<times> string) list \<Rightarrow> int \<Rightarrow> string" where
  "reason_table [] status = ''<unknown-status>''"
| "reason_table ((code, text) # cases) status = (if status = code then text else reason_table cases status)"

definition reason_string :: "int \<Rightarrow> string" where
  "reason_string = reason_table [
     (100, ''Continue''), (101, ''Switching Protocols''), (200, ''OK''), (201, ''Created''),
     (202, ''Accepted''), (203, ''Non-Authoritative Information''), (204, ''No Content''),
     (205, ''Reset Content''), (206, ''Partial Content''), (300, ''Multiple Choices''),
     (301, ''Moved Permanently''), (302, ''Found''), (303, ''See Other''), (304, ''Not Modified''),
     (305, ''Use Proxy''), (307, ''Temporary Redirect''), (400, ''Bad Request''),
     (401, ''Unauthorized''), (402, ''Payment Required''), (403, ''Forbidden''), (404, ''Not Found''),
     (405, ''Method Not Allowed''), (406, ''Not Acceptable''),
     (407, ''Proxy Authentication Required''), (408, ''Request Timeout''), (409, ''Conflict''),
     (410, ''Gone''), (411, ''Length Required''), (412, ''Precondition Failed''),
     (413, ''Request Entity Too Large''), (414, ''Request-URI Too Long''),
     (415, ''Unsupported Media Type''), (416, ''Requested Range Not Satisfiable''),
     (417, ''Expectation Failed''), (500, ''Internal Server Error''), (501, ''Not Implemented''),
     (502, ''Bad Gateway''), (503, ''Service Unavailable''), (504, ''Gateway Timeout''),
     (505, ''HTTP Version Not Supported''), (306, ''<reserved>'')]"


section \<open>Decimal numbers\<close>

lemma dec_string_digits: "list_all parser_is_digit (dec_string n) \<and> dec_string n \<noteq> [] \<and> dec_value (dec_string n) = n"
proof (induction n rule: dec_string.induct)
  case (1 n)
  have digit: "parser_is_digit (char_of (48 + d)) \<and> octet (char_of (48 + d)) = 48 + d" if "d < 10" for d :: nat
    using that by (simp add: parser_is_digit_iff rfc_digit_def)
  show ?case
  proof (cases "n < 10")
    case True
    with digit [of n] show ?thesis by (simp add: dec_string.simps [of n] dec_value_def)
  next
    case False
    with 1 digit [of "n mod 10"] show ?thesis by (simp add: dec_string.simps [of n])
  qed
qed

lemma trim_dec_string [simp]: "trim (dec_string n) = dec_string n"
proof (rule trim_id)
  have "\<not> is_ows c" if "parser_is_digit c" for c
    using that by (auto simp: is_ows_def parser_is_digit_iff rfc_digit_def octet_def)
  then show "dec_string n = [] \<or> (\<not> is_ows (hd (dec_string n)) \<and> \<not> is_ows (last (dec_string n)))"
    using dec_string_digits [of n] by (simp add: list_all_iff)
qed

section \<open>What prepare leaves\<close>

lemma token_list_single: "s \<noteq> [] \<Longrightarrow> list_all is_tchar s \<Longrightarrow> token_list s = [s]"
proof -
  assume s: "s \<noteq> []" "list_all is_tchar s"
  have "\<not> is_tchar (CHR '','')" by code_simp
  then have "CHR '','' \<notin> set s" using s(2) by (auto simp: list_all_iff)
  moreover have "trim s = s" using s by (intro trim_id) (simp add: list_all_iff tchar_not_ows)
  ultimately have "list_well_formed s" "list_elements s = [s]"
    using s by (simp_all add: list_well_formed_def list_elements_def good_piece_def split_commas_last)
  then show ?thesis using list_run_spec [of s] by (simp add: token_list_run)
qed

lemma token_exists_single:
  "s \<noteq> [] \<Longrightarrow> list_all is_tchar s \<Longrightarrow> token_list_exists s t \<longleftrightarrow> ci_equal t s"
  by (simp add: token_list_exists_def token_list_single)

lemma tokens_chars:
  "list_all is_tchar ''upgrade''" "list_all is_tchar ''close''" "list_all is_tchar ''keep-alive''"
  "list_all is_tchar ''chunked''" "list_all is_tchar ''websocket''"
  by code_simp+

lemma names_differ:
  "\<not> ci_equal ''Content-Length'' ''Connection''" "\<not> ci_equal ''Connection'' ''Content-Length''"
  "\<not> ci_equal ''Content-Length'' ''Transfer-Encoding''" "\<not> ci_equal ''Transfer-Encoding'' ''Content-Length''"
  "\<not> ci_equal ''Connection'' ''Transfer-Encoding''" "\<not> ci_equal ''Transfer-Encoding'' ''Connection''"
  "\<not> ci_equal ''close'' ''upgrade''"
  by (simp_all add: ci_equal_map)


lemma token_list_empty: "\<not> token_list_exists [] t"
  by (simp add: token_list_exists_def token_list_run list_run_end)

lemma token_values:
  "token_list_exists ''upgrade'' t \<longleftrightarrow> ci_equal t ''upgrade''"
  "token_list_exists ''close'' t \<longleftrightarrow> ci_equal t ''close''"
  "token_list_exists ''keep-alive'' t \<longleftrightarrow> ci_equal t ''keep-alive''"
  "token_list_exists ''chunked'' t \<longleftrightarrow> ci_equal t ''chunked''"
  "token_list_exists ''websocket'' t \<longleftrightarrow> ci_equal t ''websocket''"
  "\<not> token_list_exists [] t"
  by (rule token_exists_single, simp, rule tokens_chars)+ (rule token_list_empty)

lemma trim_tokens:
  "trim ''upgrade'' = ''upgrade''" "trim ''close'' = ''close''" "trim ''keep-alive'' = ''keep-alive''"
  "trim ''chunked'' = ''chunked''"
  by (rule trim_id, simp add: is_ows_def)+

text \<open>The connection option that counts is the last one given.\<close>

lemma prepare_options_last:
  "pi_connection (prepare_options opts pi) = (if opts = [] then pi_connection pi else Some (last opts))"
  "pi_content_length (prepare_options opts pi) = pi_content_length pi"
  by (induction opts arbitrary: pi) (simp_all add: prepare_options_def prepare_option_def)

definition wants :: "connection list \<Rightarrow> connection \<Rightarrow> bool" where
  "wants opts c \<longleftrightarrow> opts \<noteq> [] \<and> last opts = c"

lemma fields_on_fields [simp]: "h_fields (on_fields u m) = u (h_fields m)" "h_version (on_fields u m) = h_version m"
    "h_status (on_fields u m) = h_status m"
  by (simp_all add: on_fields_def)

lemma set_framing_fields:
  assumes inv: "fields_inv (h_fields m)"
    and none: "\<not> fields_exists (h_fields m) ''Content-Length''" "\<not> fields_exists (h_fields m) ''Connection''"
      "\<not> has_token m ''Transfer-Encoding'' ''chunked''"
    and m': "m' = set_framing isRequest pi m"
  shows "fields_inv (h_fields m')" "h_version m' = h_version m"
    "\<not> fields_exists (h_fields m') ''Connection''"
    "fields_exists (h_fields m') ''Content-Length'' \<longrightarrow> \<not> has_token m' ''Transfer-Encoding'' ''chunked''"
  using assms
  by (auto simp: m' set_framing_def set_length_def has_token_def Let_def fm.inv_insert fm.exists_insert
      fm.at_insert fm.at_missing names_differ split: option.split)

lemma set_connection_fields:
  assumes inv: "fields_inv (h_fields m)" and none: "\<not> fields_exists (h_fields m) ''Connection''"
    and m': "m' = set_connection c m"
  shows "fields_inv (h_fields m')" "h_version m' = h_version m"
    "fields_exists (h_fields m') ''Content-Length'' \<longleftrightarrow> fields_exists (h_fields m) ''Content-Length''"
    "has_token m' ''Transfer-Encoding'' t \<longleftrightarrow> has_token m ''Transfer-Encoding'' t"
    "has_token m' ''Connection'' ''upgrade'' \<longleftrightarrow> c = Some Conn_upgrade"
    "has_token m' ''Connection'' ''close'' \<longleftrightarrow> c = Some Conn_close \<and> h_version m \<ge> 11"
    "has_token m' ''Connection'' ''keep-alive'' \<longleftrightarrow>
       c = Some Conn_keep_alive \<and> h_version m < 11 \<and> fields_exists (h_fields m) ''Content-Length''"
  using assms
  by (auto simp: m' set_connection_def has_token_def Let_def fm.inv_insert fm.exists_insert
      fm.at_insert fm.at_missing names_differ token_values trim_tokens ci_equal_map split: option.split connection.split)





text \<open>Without a known length the framing does not look at the status: the message of a 204
  response, which has no body, announces one in chunks.\<close>

lemma prepare_204_chunked:
  assumes "fields_inv (h_fields m)" "h_version m = 11" "h_status m = 204"
    "\<not> fields_exists (h_fields m) ''Connection''" "\<not> fields_exists (h_fields m) ''Content-Length''"
    "\<not> fields_exists (h_fields m) ''Transfer-Encoding''"
  shows "fst (prepare False None [] m) = Ok () \<and>
    has_token (snd (prepare False None [] m)) ''Transfer-Encoding'' ''chunked''"
  using assms
  by (simp add: prepare_def prepare_options_def set_framing_def set_connection_def has_token_def Let_def
      fm.at_insert fm.at_missing token_values trim_tokens)

end
