(* ===== verification/Http_Write.thy ===== *)
theory Http_Write
  imports Http_Message
begin

text \<open>
  Serialisation: \<open>write_start_line\<close>, \<open>write_fields\<close> and the synchronous \<open>write\<close> of
  \<open>include/beast/http/impl/write.ipp\<close>, the chunk encoding of \<open>chunk_encode.hpp\<close> and
  \<open>detail/chunk_encode.hpp\<close>, and the writers of \<open>string_body.hpp\<close> and \<open>dynamic_body.hpp\<close>. An
  \<open>std::ostream\<close> over a buffer is the text written to it; \<open>Oob\<close> is a failed assertion. The
  stream is the parameter \<open>put\<close>, \<open>boost::asio::write\<close>, with the stream's state.
\<close>

section \<open>Start line and fields\<close>

text \<open>\<open>os << status\<close> for an \<open>int\<close>.\<close>

definition int_string :: "int \<Rightarrow> string" where
  "int_string i = (if i < 0 then CHR ''-'' # dec_string (nat (- i)) else dec_string (nat i))"

definition write_start_line :: "bool \<Rightarrow> http_header \<Rightarrow> ('e, string) outcome" where
  "write_start_line isRequest msg =
     (if \<not> (h_version msg = 10 \<or> h_version msg = 11) then Oob
      else if isRequest then
        Ok (header_method msg @ '' '' @ header_target msg @
          (if h_version msg = 10 then '' HTTP/1.0'' @ [CR, LF] else '' HTTP/1.1'' @ [CR, LF]))
      else
        Ok ((if h_version msg = 10 then ''HTTP/1.0 '' else ''HTTP/1.1 '') @
          int_string (h_status msg) @ '' '' @ header_reason msg @ [CR, LF]))"

fun write_fields :: "(string \<times> string) list \<Rightarrow> ('e, string) outcome" where
  "write_fields [] = Ok []"
| "write_fields ((name, value) # fs) =
     (if name = [] then Oob
      else if name ! 0 = CHR '':'' then write_fields fs
      else ob (write_fields fs) (\<lambda>rest. Ok (name @ '': '' @ value @ [CR, LF] @ rest)))"

definition header_octets :: "bool \<Rightarrow> http_header \<Rightarrow> ('e, string) outcome" where
  "header_octets isRequest msg =
     ob (write_start_line isRequest msg) (\<lambda>line.
     ob (write_fields (fields_entries (h_fields msg))) (\<lambda>fs.
     Ok (line @ fs @ [CR, LF])))"

type_synonym ('n, 'e) sink = "string \<Rightarrow> ('n, 'e, unit) act"

definition write_header :: "('n, 'e) sink \<Rightarrow> bool \<Rightarrow> http_header \<Rightarrow> ('n, 'e, unit) act" where
  "write_header put isRequest msg = act_bind (act_lift (header_octets isRequest msg)) put"

section \<open>Chunks\<close>

text \<open>\<open>to_hex\<close> writes backwards from the end of its buffer; the text after the iterator is an
  argument. \<open>chunk_capacity\<close> is the size of \<open>buf_\<close>.\<close>

definition hex_digits :: string where
  "hex_digits = ''0123456789abcdef''"

function to_hex_loop :: "string \<Rightarrow> u64 \<Rightarrow> string" where
  "to_hex_loop lst n =
     (if n = 0 then lst else to_hex_loop (hex_digits ! unat (n AND 0xf) # lst) (drop_bit 4 n))"
  by pat_completeness auto

lemma drop_bit_less: "n \<noteq> 0 \<Longrightarrow> unat (drop_bit 4 (n :: u64)) < unat n"
proof -
  assume "n \<noteq> 0"
  then have "0 < unat n" by (simp add: unat_gt_0)
  moreover have "unat (drop_bit 4 n) = unat n div 2 ^ 4"
    unfolding unat_drop_bit_eq by (rule drop_bit_eq_div)
  ultimately show ?thesis by simp
qed

termination to_hex_loop
  by (relation "measure (\<lambda>(lst, n). unat n)") (auto simp: drop_bit_less)

declare to_hex_loop.simps [simp del]

definition to_hex :: "string \<Rightarrow> u64 \<Rightarrow> string" where
  "to_hex lst n = (if n = 0 then CHR ''0'' # lst else to_hex_loop lst n)"

definition chunk_capacity :: nat where
  "chunk_capacity = 2 * 8 + 2"

definition chunk_encode_delim :: "u64 \<Rightarrow> string" where
  "chunk_encode_delim n = to_hex [CR, LF] n"

definition chunk_encode :: "bool \<Rightarrow> string list \<Rightarrow> string" where
  "chunk_encode fin buffers =
     chunk_encode_delim (of_nat (length (concat buffers))) @ concat buffers @
     (if fin then [CR, LF] @ ''0'' @ [CR, LF, CR, LF] else [CR, LF])"

definition chunk_encode_final :: string where
  "chunk_encode_final = ''0'' @ [CR, LF, CR, LF]"

section \<open>Messages\<close>

text \<open>A writer of a body: \<open>init\<close>, and \<open>write\<close> with the error it sets, the buffers it passes to
  the function object, if it calls it, and whether it is done.\<close>

record ('w, 'e) body_writer =
  bw_init :: "'w \<Rightarrow> 'e option \<times> 'w"
  bw_write :: "'w \<Rightarrow> ('e option \<times> string list option \<times> bool) \<times> 'w"

text \<open>\<open>string_body::writer\<close> and \<open>basic_dynamic_body::writer\<close>: one call with the whole body, one
  buffer or the sequence of the dynamic buffer.\<close>

definition string_writer :: "(string, 'e) body_writer" where
  "string_writer = \<lparr>bw_init = (\<lambda>w. (None, w)), bw_write = (\<lambda>w. ((None, Some [w], True), w))\<rparr>"

definition dynamic_writer :: "(string list, 'e) body_writer" where
  "dynamic_writer = \<lparr>bw_init = (\<lambda>w. (None, w)), bw_write = (\<lambda>w. ((None, Some w, True), w))\<rparr>"

record write_preparation =
  wp_b :: string
  wp_chunked :: bool
  wp_close :: bool

definition preparation :: "http_header \<Rightarrow> write_preparation" where
  "preparation msg =
     \<lparr>wp_b = [], wp_chunked = has_token msg ''Transfer-Encoding'' ''chunked'',
      wp_close = has_token msg ''Connection'' ''close'' \<or>
        (h_version msg < 11 \<and> \<not> fields_exists (h_fields msg) ''Content-Length'')\<rparr>"

text \<open>\<open>writef0_lambda\<close> and \<open>writef_lambda\<close>: what goes to the stream for the buffers of one call.\<close>

definition writef :: "write_preparation \<Rightarrow> string list \<Rightarrow> string" where
  "writef wp buffers = wp_b wp @ (if wp_chunked wp then chunk_encode False buffers else concat buffers)"

type_synonym ('n, 'w, 'e, 'a) wact = "('n \<times> 'w, 'e, 'a) act"

definition call_writer ::
    "('n, 'e) sink \<Rightarrow> ('w, 'e) body_writer \<Rightarrow> write_preparation \<Rightarrow> ('n, 'w, 'e, bool) wact" where
  "call_writer put bw wp = (\<lambda>(s, w).
     case bw_write bw w of ((e, buffers, result), w) \<Rightarrow>
       case (case buffers of None \<Rightarrow> (Ok (), s) | Some bs \<Rightarrow> put (writef wp bs) s) of
         (Ok _, s) \<Rightarrow> (case e of None \<Rightarrow> (Ok result, (s, w)) | Some e \<Rightarrow> (Err e, (s, w)))
       | (Err e', s) \<Rightarrow> (case e of None \<Rightarrow> (Err e', (s, w)) | Some e \<Rightarrow> (Err e, (s, w)))
       | (Oob, s) \<Rightarrow> (Oob, (s, w)))"

text \<open>The loop ends when the writer says so, hence the partial function.\<close>

partial_function (option) write_body_loop ::
    "('n, 'e) sink \<Rightarrow> ('w, 'e) body_writer \<Rightarrow> write_preparation \<Rightarrow> 'n \<times> 'w \<Rightarrow>
     (('e, unit) outcome \<times> 'n \<times> 'w) option" where
  "write_body_loop put bw wp st =
     (case call_writer put bw wp st of
        (Ok result, st) \<Rightarrow> if result then Some (Ok (), st) else write_body_loop put bw wp st
      | (Err e, st) \<Rightarrow> Some (Err e, st)
      | (Oob, st) \<Rightarrow> Some (Oob, st))"

definition write_end :: "('n, 'e) sink \<Rightarrow> 'e \<Rightarrow> write_preparation \<Rightarrow> ('n, 'w, 'e, unit) wact" where
  "write_end put eof wp = (\<lambda>(s, w).
     case (if wp_chunked wp then put chunk_encode_final s else (Ok (), s)) of
       (Ok _, s) \<Rightarrow> (if wp_close wp then Err eof else Ok (), (s, w))
     | (Err e, s) \<Rightarrow> (Err e, (s, w))
     | (Oob, s) \<Rightarrow> (Oob, (s, w)))"

definition write_message ::
    "('n, 'e) sink \<Rightarrow> 'e \<Rightarrow> ('w, 'e) body_writer \<Rightarrow> bool \<Rightarrow> http_header \<Rightarrow> 'n \<times> 'w \<Rightarrow>
     (('e, unit) outcome \<times> 'n \<times> 'w) option" where
  "write_message put eof bw isRequest msg = (\<lambda>(s, w).
     let wp = preparation msg in
     case bw_init bw w of
       (Some e, w) \<Rightarrow> Some (Err e, (s, w))
     | (None, w) \<Rightarrow>
       (case header_octets isRequest msg of
          Err e \<Rightarrow> Some (Err e, (s, w))
        | Oob \<Rightarrow> Some (Oob, (s, w))
        | Ok h \<Rightarrow>
          (case call_writer put bw (wp\<lparr>wp_b := h\<rparr>) (s, w) of
             (Err e, st) \<Rightarrow> Some (Err e, st)
           | (Oob, st) \<Rightarrow> Some (Oob, st)
           | (Ok result, st) \<Rightarrow>
             (case (if result then Some (Ok (), st) else write_body_loop put bw wp st) of
                None \<Rightarrow> None
              | Some (Ok _, st) \<Rightarrow> Some (write_end put eof wp st)
              | Some (Err e, st) \<Rightarrow> Some (Err e, st)
              | Some (Oob, st) \<Rightarrow> Some (Oob, st)))))"

end
