(* ===== verification/Http_Transfer.thy ===== *)
theory Http_Transfer
  imports Http_Write Http_Parser_Resume
begin

text \<open>
  From the writer to the parser: \<open>header_parser\<close> (\<open>include/beast/http/header_parser.hpp\<close>) as the
  callbacks of \<open>basic_parser\<close>, and the round trip of a header, field by field: each scanning
  routine is run on text of which the octets at the pointer are known.
\<close>

section \<open>header_parser\<close>

definition header_handler :: "http_header handler" where
  "header_handler =
     \<lparr>on_request = (\<lambda>method target version h.
        (None, (set_method method (set_target target h))\<lparr>h_version := version\<rparr>)),
      on_response = (\<lambda>status reason version h.
        (None, set_reason reason (h\<lparr>h_status := status, h_version := version\<rparr>))),
      on_field = (\<lambda>name value h. (None, on_fields (fields_insert name value) h)),
      on_header = (\<lambda>h. (None, h)),
      on_body = (\<lambda>_ h. (None, h)),
      on_body_direct = (\<lambda>_ h. h),
      on_data = (\<lambda>_ h. (None, h)),
      on_prepare = (\<lambda>_ h. (0, h)),
      on_fill = (\<lambda>_ h. h),
      on_commit = (\<lambda>_ h. h),
      on_chunk = (\<lambda>_ _ h. (None, h)),
      on_complete = (\<lambda>h. (None, h))\<rparr>"

section \<open>Scanning known text\<close>

lemma nth_mid:
  "(xs @ ys) ! (length xs + k) = ys ! k"
  "(xs @ ys) ! (Suc (length xs)) = ys ! 1" "(xs @ ys) ! length xs = ys ! 0"
  by (simp_all add: nth_append)

lemma scan_known:
  assumes "list_all P s" "\<not> P c"
  shows "scan_while P (xs @ s @ c # ys) (length xs) = Ok (length xs + length s)"
  using assms by (auto simp: scan_while_Ok_iff nth_append list_all_iff)

lemma slice_known: "slice (xs @ s @ ys) (length xs) (length xs + length s) = s"
  by (rule slice_mid)

lemma rd_known: "rd (xs @ c # ys) (length xs) = Ok c"
  by simp

lemma method_known:
  "list_all is_tchar s \<Longrightarrow> \<not> is_tchar c \<Longrightarrow>
     parse_method (xs @ s @ c # ys) (length xs) = Ok (s, length xs + length s)"
  by (simp add: parse_method_def scan_known slice_known)

lemma name_known:
  "list_all is_tchar s \<Longrightarrow> \<not> is_tchar c \<Longrightarrow>
     parse_name (xs @ s @ c # ys) (length xs) = Ok (s, length xs + length s)"
proof -
  assume s: "list_all is_tchar s" "\<not> is_tchar c"
  have tchar: "to_field_char d \<noteq> CHR 0x00 \<longleftrightarrow> is_tchar d" for d
  proof -
    have "c_tolower d \<noteq> CHR 0x00" if "is_tchar d"
    proof
      assume "c_tolower d = CHR 0x00"
      then have "octet (c_tolower d) = 0" by (simp add: octet_def)
      then show False using tchar_ascii [OF that] that by (auto simp: c_tolower_def ascii_lower_def is_tchar_iff rfc_tchar_def rfc_digit_def rfc_alpha_def split: if_splits)
    qed
    then show ?thesis by (simp add: to_field_char_eq)
  qed
  show ?thesis using s by (simp add: parse_name_def tchar scan_known slice_known)
qed

lemma target_known:
  "list_all is_pathchar s \<Longrightarrow> parse_target (xs @ s @ SP # ys) (length xs) = Ok (s, length xs + length s)"
proof -
  assume s: "list_all is_pathchar s"
  have "\<not> is_pathchar SP" by code_simp
  then show ?thesis
    using s by (simp add: parse_target_def scan_known slice_known rd_eq_Ok nth_append ob_def rd_def)
qed

lemma crlf_known: "parse_crlf (xs @ CR # LF # ys) (length xs) = Ok (True, length xs + 2)"
  by (simp add: parse_crlf_def nth_append)

lemma eol_known:
  assumes "CR \<notin> set s" "n \<le> length ys"
  shows "find_eol (xs @ s @ CR # LF # ys) (length xs) (length xs + length s + 2 + n) =
    Ok (Some (length xs + length s + 2))"
proof (rule find_eol_first_CR)
  show "\<forall>m. length xs \<le> m \<and> m < length xs + length s \<longrightarrow> (xs @ s @ CR # LF # ys) ! m \<noteq> CR"
    using assms(1) by (auto simp: nth_append) (metis add_diff_inverse_nat nat_add_left_cancel_less not_less nth_mem)
qed (use assms(2) in \<open>simp_all add: nth_append\<close>)


lemma skip_known:
  assumes "v = [] \<or> \<not> is_ows (hd v)"
  shows "skip_ows (xs @ SP # v @ ys) (length xs) (Suc (length xs + length v)) = Ok (Suc (length xs))"
proof -
  have first: "skip_ows (xs @ SP # v @ ys) (length xs) (Suc (length xs + length v)) =
      skip_ows (xs @ SP # v @ ys) (Suc (length xs)) (Suc (length xs + length v))"
    by (subst skip_ows.simps) simp
  show ?thesis
    using assms unfolding first by (subst skip_ows.simps) (cases v; auto simp: nth_append)
qed

lemma skip_rev_known:
  assumes "v = [] \<or> \<not> is_ows (last v)"
  shows "skip_ows_rev (xs @ v @ ys) (length xs + length v) (length xs) = Ok (length xs + length v)"
proof (cases v rule: rev_cases)
  case Nil
  then show ?thesis by (cases "length xs") simp_all
next
  case (snoc w c)
  with assms show ?thesis by (simp add: nth_append)
qed

section \<open>Flags\<close>

lemma bit_of_flag: "i < 32 \<Longrightarrow> has_flag (push_bit i 1) p \<longleftrightarrow> bit (p_f p) i"
proof -
  assume "i < 32"
  have "p_f p AND push_bit i 1 = (if bit (p_f p) i then push_bit i 1 else 0)"
    by (rule bit_word_eqI) (auto simp: bit_simps)
  moreover have "push_bit i (1 :: u32) \<noteq> 0"
  proof
    assume "push_bit i (1 :: u32) = 0"
    then have "bit (push_bit i (1 :: u32)) i = bit (0 :: u32) i" by (rule arg_cong)
    with \<open>i < 32\<close> show False by (simp add: bit_simps del: push_bit_of_1)
  qed
  ultimately show ?thesis by (simp add: has_flag_def)
qed

lemma flag_bits:
  "has_flag flagSkipBody p \<longleftrightarrow> bit (p_f p) 0" "has_flag flagContentLength p \<longleftrightarrow> bit (p_f p) 11"
  "has_flag flagChunked p \<longleftrightarrow> bit (p_f p) 12" "has_flag flagOnBody p \<longleftrightarrow> bit (p_f p) 1"
  "has_flag flagExpectCRLF p \<longleftrightarrow> bit (p_f p) 6" "has_flag flagFinalChunk p \<longleftrightarrow> bit (p_f p) 7"
  unfolding flagSkipBody_def flagContentLength_def flagChunked_def flagOnBody_def flagExpectCRLF_def
    flagFinalChunk_def
  by (rule bit_of_flag, simp)+

lemma bit_set_flag: "i < 32 \<Longrightarrow> j < 32 \<Longrightarrow> bit (p_f (set_flag (push_bit j 1) p)) i \<longleftrightarrow> bit (p_f p) i \<or> i = j"
  by (auto simp: set_flag_def bit_simps)

text \<open>The flags the framing of the body depends on.\<close>

definition frames :: "'s parser \<Rightarrow> u64 option \<Rightarrow> bool \<Rightarrow> bool" where
  "frames p len chunked \<longleftrightarrow>
     (has_flag flagContentLength p \<longleftrightarrow> len \<noteq> None) \<and> (\<forall>n. len = Some n \<longrightarrow> p_len p = n) \<and>
     (has_flag flagChunked p \<longleftrightarrow> chunked) \<and> p_state p = header \<and> \<not> has_flag flagSkipBody p"

lemma bit_body_flags:
  "i < 32 \<Longrightarrow> bit (p_f (set_flag flagContentLength p)) i \<longleftrightarrow> bit (p_f p) i \<or> i = 11"
  "i < 32 \<Longrightarrow> bit (p_f (set_flag flagChunked p)) i \<longleftrightarrow> bit (p_f p) i \<or> i = 12"
  unfolding flagContentLength_def flagChunked_def by (rule bit_set_flag, assumption, simp)+

lemma frames_set:
  assumes "frames p len chunked" "i < 32" "i \<notin> {0, 11, 12}"
  shows "frames (set_flag (push_bit i 1) p) len chunked"
  using assms by (simp add: frames_def flag_bits bit_set_flag del: push_bit_of_1)

lemma frames_other:
  assumes "frames p len chunked"
  shows "frames (set_flag flagOnBody p) len chunked" "frames (set_flag flagGotSome p) len chunked"
    "frames (set_flag flagHTTP11 p) len chunked" "frames (set_flag flagConnectionClose p) len chunked"
    "frames (set_flag flagConnectionUpgrade p) len chunked"
    "frames (set_flag flagConnectionKeepAlive p) len chunked" "frames (set_flag flagUpgrade p) len chunked"
  unfolding flagOnBody_def flagGotSome_def flagHTTP11_def flagConnectionClose_def
    flagConnectionUpgrade_def flagConnectionKeepAlive_def flagUpgrade_def
  by (rule frames_set [OF assms], simp, simp)+

section \<open>Fields\<close>

text \<open>What the fields of a message say of its body: its length or chunks, \<open>None\<close> for a
  contradiction or a length that is no number.\<close>

definition length_value :: "string \<Rightarrow> u64 option" where
  "length_value v =
     (if v \<noteq> [] \<and> list_all parser_is_digit v \<and> dec_value v \<le> 18446744073709551609
      then Some (of_nat (dec_value v)) else None)"

definition ends_chunked :: "string \<Rightarrow> bool" where
  "ends_chunked v \<longleftrightarrow> length (dropWhile (\<lambda>s. \<not> strieq ''chunked'' s) (token_list v)) = 1"

fun frame_fields :: "u64 option \<Rightarrow> bool \<Rightarrow> (string \<times> string) list \<Rightarrow> (u64 option \<times> bool) option" where
  "frame_fields len chunked [] = Some (len, chunked)"
| "frame_fields len chunked ((n, v) # fs) =
     (if strieq ''content-length'' n then
        if len \<noteq> None \<or> chunked then None
        else (case length_value v of None \<Rightarrow> None | Some k \<Rightarrow> frame_fields (Some k) chunked fs)
      else if strieq ''transfer-encoding'' n then
        if len \<noteq> None \<or> chunked then None else frame_fields len (ends_chunked v) fs
      else frame_fields len chunked fs)"

definition connection_field :: "string \<Rightarrow> bool" where
  "connection_field n \<longleftrightarrow> strieq ''connection'' n \<or> strieq ''proxy-connection'' n"

definition good_field :: "string \<times> string \<Rightarrow> bool" where
  "good_field = (\<lambda>(n, v). n \<noteq> [] \<and> list_all is_tchar n \<and> list_all parser_is_text v \<and> trim v = v \<and>
     (connection_field n \<longrightarrow> validate_list v))"

text \<open>\<open>do_field\<close> on a value in its buffer, followed by an octet that is no digit.\<close>

lemma strieq_apart:
  "strieq ''connection'' n \<Longrightarrow> \<not> strieq ''content-length'' n \<and> \<not> strieq ''transfer-encoding'' n"
  "strieq ''proxy-connection'' n \<Longrightarrow> \<not> strieq ''content-length'' n \<and> \<not> strieq ''transfer-encoding'' n"
  by (auto simp: strieq_def)

lemma connection_tokens_keep:
  "frames p len chunked \<Longrightarrow> frames (fold connection_token ts p) len chunked \<and>
     p_impl (fold connection_token ts p) = p_impl p"
  by (induction ts arbitrary: p) (simp_all add: connection_token_def frames_other)

lemma parse_dec_known:
  assumes "length_value v = Some k" "\<not> parser_is_digit c"
  shows "parse_dec (xs @ v @ c # ys) (length xs) (length xs + length v) = Ok (Some k)"
proof -
  have v: "v \<noteq> []" "list_all parser_is_digit v" "dec_value v \<le> dec_max" "k = of_nat (dec_value v)"
    using assms(1) by (auto simp: length_value_def dec_max_def split: if_splits)
  have "\<forall>m. length xs \<le> m \<and> m < length xs + length v \<longrightarrow> parser_is_digit ((xs @ v @ c # ys) ! m)"
    using v(2) by (auto simp: nth_append list_all_length)
  then show ?thesis
    using parse_dec_exact [of "length xs" "length xs + length v" "xs @ v @ c # ys"] v assms(2)
    by (simp add: slice_known nth_append)
qed

lemma do_field_known:
  assumes good: "good_field (n, v)" and fr: "frames p len chunked"
    and "frame_fields len chunked ((n, v) # fs) = Some r" "\<not> parser_is_digit c"
  obtains p' len' chunked' where
    "do_field n (xs @ v @ c # ys) (length xs) (length xs + length v) p = (Ok (), p')"
    "frames p' len' chunked'" "p_impl p' = p_impl p" "frame_fields len' chunked' fs = Some r"
proof (cases "connection_field n")
  case True
  with good fr connection_tokens_keep [of p len chunked "opt_token_list v"] strieq_apart [of n] assms(3)
  show ?thesis
    by (intro that [of "fold connection_token (opt_token_list v) p" len chunked])
      (auto simp: do_field_def slice_known good_field_def connection_field_def)
next
  case False
  then have conn: "\<not> strieq ''connection'' n" "\<not> strieq ''proxy-connection'' n"
    by (simp_all add: connection_field_def)
  have visible: "list_all parser_is_text v" using good by (simp add: good_field_def)
  have flags: "has_flag flagContentLength p \<longleftrightarrow> len \<noteq> None" "has_flag flagChunked p \<longleftrightarrow> chunked"
    using fr by (simp_all add: frames_def)
  consider (cl) "strieq ''content-length'' n" | (te) "\<not> strieq ''content-length'' n" "strieq ''transfer-encoding'' n"
    | (other) "\<not> strieq ''content-length'' n" "\<not> strieq ''transfer-encoding'' n" by blast
  then show ?thesis
  proof cases
    case cl
    with assms(3) obtain k where k: "length_value v = Some k" "len = None" "\<not> chunked"
      "frame_fields (Some k) chunked fs = Some r" by (auto split: if_splits option.splits)
    have "frames (set_flag flagContentLength (p\<lparr>p_len := k\<rparr>)) (Some k) False"
      using fr k by (simp add: frames_def flag_bits bit_body_flags)
    with cl conn visible flags k parse_dec_known [OF k(1) assms(4)] show ?thesis
      by (intro that [of "set_flag flagContentLength (p\<lparr>p_len := k\<rparr>)" "Some k" chunked])
        (simp_all add: do_field_def slice_known)
  next
    case te
    with assms(3) have k: "len = None" "\<not> chunked" "frame_fields None (ends_chunked v) fs = Some r"
      by (auto split: if_splits)
    show ?thesis
    proof (cases "ends_chunked v")
      case True
      then obtain s where s: "dropWhile (\<lambda>s. \<not> strieq ''chunked'' s) (token_list v) = [s]"
        by (auto simp: ends_chunked_def length_Suc_conv)
      have "frames (set_flag flagChunked (p\<lparr>p_len := 0\<rparr>)) None True"
        using fr k by (simp add: frames_def flag_bits bit_body_flags)
      with te conn visible flags k s True show ?thesis
        by (intro that [of "set_flag flagChunked (p\<lparr>p_len := 0\<rparr>)" None True])
          (simp_all add: do_field_def slice_known)
    next
      case no: False
      with te conn visible flags k fr show ?thesis
        by (intro that [of p None False])
          (auto simp: do_field_def slice_known ends_chunked_def split: list.split)
    qed
  next
    case other
    with conn visible assms(3) fr frames_other(7) [OF fr] show ?thesis
      by (cases "strieq ''upgrade'' n") (auto simp: do_field_def slice_known intro: that)
  qed
qed

lemma char_facts: "\<not> is_tchar (CHR '':'')" "\<not> is_tchar CR" "\<not> is_tchar SP" "\<not> parser_is_digit CR"
    "\<not> parser_is_text CR" "\<not> is_ows CR" "\<not> is_pathchar SP"
  by code_simp+

lemma text_no_CR: "list_all parser_is_text v \<Longrightarrow> CR \<notin> set v"
  using char_facts by (auto simp: list_all_iff)

lemma tchar_no_CR: "list_all is_tchar n \<Longrightarrow> CR \<notin> set n"
  using char_facts by (auto simp: list_all_iff)

lemma act_lift_bind: "act_bind (act_lift (Ok a)) f s = f a s"
  by (simp add: act_bind_def act_lift_def)

lemma callback_None: "f (p_impl p) = (None, s) \<Longrightarrow> callback f p = (Ok (), p\<lparr>p_impl := s\<rparr>)"
  by (simp add: callback_def)

lemma frames_impl: "frames (p\<lparr>p_impl := s\<rparr>) len chunked = frames p len chunked"
  by (simp add: frames_def has_flag_def)

lemma parse_field_known:
  fixes h :: "'s handler" and xs :: string
  assumes good: "good_field (n, v)" and fr: "frames p len chunked"
    and "frame_fields len chunked ((n, v) # fs) = Some r"
    and rest: "rest \<noteq> []" "\<not> is_ows (hd rest)"
    and upd: "\<And>s. on_field h n v s = (None, upd n v s)"
  defines "tm \<equiv> length xs + length n + 2 + length v + 2"
  obtains p' len' chunked' where
    "parse_field h (xs @ n @ '': '' @ v @ [CR, LF] @ rest) (length xs) tm lst p = (Ok tm, p')"
    "frames p' len' chunked'" "p_impl p' = upd n v (p_impl p)" "frame_fields len' chunked' fs = Some r"
proof -
  let ?buf = "xs @ n @ '': '' @ v @ [CR, LF] @ rest"
  let ?it = "length xs + length n" and ?val = "xs @ n @ '': ''"
  have n: "n \<noteq> []" "list_all is_tchar n" and v: "list_all parser_is_text v" "trim v = v"
    using good by (simp_all add: good_field_def)
  have ends: "v = [] \<or> \<not> is_ows (hd v)" "v = [] \<or> \<not> is_ows (last v)"
    using trim_ends [of v] v(2) by auto
  have at_name: "parse_name ?buf (length xs) = Ok (n, ?it)"
    using name_known [OF n(2) char_facts(1), of xs "SP # v @ [CR, LF] @ rest"] by simp
  have colon: "rd ?buf ?it = (Ok (CHR '':'') :: char pout)"
    using rd_known [of "xs @ n" "CHR '':''" "SP # v @ [CR, LF] @ rest"] by simp
  have next_line: "rd ?buf tm = (Ok (hd rest) :: char pout)"
    using rd_known [of "?val @ v @ [CR, LF]" "hd rest" "tl rest"] rest(1) by (simp add: tm_def add.assoc)
  have ows: "skip_ows ?buf (?it + 1) (tm - 2) = Ok (length ?val)"
    using skip_known [OF ends(1), of "xs @ n @ '':''" "[CR, LF] @ rest"] by (simp add: tm_def)
  have rev: "skip_ows_rev ?buf (tm - 2) (length ?val) = Ok (tm - 2)"
    using skip_rev_known [OF ends(2), of ?val "[CR, LF] @ rest"] by (simp add: tm_def)
  have val: "slice ?buf (length ?val) (tm - 2) = v"
    using slice_known [of ?val v "[CR, LF] @ rest"] by (simp add: tm_def)
  from do_field_known [OF good fr assms(3) char_facts(4), of ?val "LF # rest"]
  obtain p1 len' chunked' where p1:
    "do_field n ?buf (length ?val) (tm - 2) p = (Ok (), p1)"
    "frames p1 len' chunked'" "p_impl p1 = p_impl p" "frame_fields len' chunked' fs = Some r"
    by (auto simp: tm_def)
  have "parse_field h ?buf (length xs) tm lst p = (Ok tm, p1\<lparr>p_impl := upd n v (p_impl p)\<rparr>)"
    unfolding parse_field_def at_name act_lift_bind prod.case
    using n(1) rest(2) p1(1,3) callback_None [of "on_field h n v" p1, OF upd]
    by (simp only: if_False colon act_lift_bind Let_def next_line ows rev val act_bind_simps(1) if_True
        simp_thms act_run)
  with p1 show ?thesis
    by (intro that [of "p1\<lparr>p_impl := upd n v (p_impl p)\<rparr>" len' chunked']) (simp_all add: frames_impl)
qed

definition field_line :: "string \<times> string \<Rightarrow> string" where
  "field_line = (\<lambda>(n, v). n @ '': '' @ v @ [CR, LF])"

definition field_text :: "(string \<times> string) list \<Rightarrow> string" where
  "field_text fs = concat (map field_line fs)"

lemma line_starts: "list_all good_field fs \<Longrightarrow>
    field_text fs @ [CR, LF] \<noteq> [] \<and> \<not> is_ows (hd (field_text fs @ [CR, LF]))"
proof (cases fs)
  case (Cons f fs')
  assume "list_all good_field fs"
  with Cons have "fst f \<noteq> []" "list_all is_tchar (fst f)" by (auto simp: good_field_def)
  then have "hd (fst f) \<in> set (fst f)" "\<not> is_ows (hd (fst f))" by (auto simp: list_all_iff tchar_not_ows)
  with Cons \<open>fst f \<noteq> []\<close> show ?thesis
    by (cases f) (auto simp: field_text_def field_line_def hd_append)
qed (simp add: field_text_def char_facts)

lemma length_field_line: "length (field_line (n, v)) = length n + 2 + length v + 2"
  by (simp add: field_line_def)

lemma parse_fields_known:
  fixes h :: "'s handler"
  assumes "list_all good_field fs" "frames p len chunked" "frame_fields len chunked fs = Some (len', chunked')"
    and upd: "\<And>n v s. on_field h n v s = (None, upd n v s)"
  shows "\<exists>p'. parse_fields h (xs @ field_text fs @ [CR, LF] @ ys) (length xs)
      (length xs + length (field_text fs) + 2) p = (Ok (length xs + length (field_text fs) + 2), p') \<and>
    frames p' len' chunked' \<and> p_impl p' = fold (\<lambda>(n, v). upd n v) fs (p_impl p)"
  using assms(1-3)
proof (induction fs arbitrary: xs p len chunked)
  case Nil
  have "find_eol (xs @ [CR, LF] @ ys) (length xs) (length xs + 2) = Ok (Some (length xs + 2))"
    using eol_known [of "[]" 0 ys xs] by simp
  with Nil show ?case by (subst parse_fields.simps) (simp add: field_text_def)
next
  case (Cons f fs)
  obtain n v where f: "f = (n, v)" by (cases f)
  let ?rest = "field_text fs @ [CR, LF] @ ys"
  let ?buf = "xs @ n @ '': '' @ v @ [CR, LF] @ ?rest"
  let ?tm = "length xs + length n + 2 + length v + 2" and ?lst = "length xs + length (field_text (f # fs)) + 2"
  have buf: "xs @ field_text (f # fs) @ [CR, LF] @ ys = ?buf"
    by (simp add: field_text_def f field_line_def)
  have lst: "?lst = length (xs @ field_line f) + length (field_text fs) + 2"
    by (simp add: field_text_def)
  have good: "good_field (n, v)" "list_all good_field fs" using Cons.prems(1) by (simp_all add: f)
  then have nv: "n \<noteq> []" "list_all is_tchar n" "list_all parser_is_text v" by (simp_all add: good_field_def)
  have "?rest \<noteq> []" "\<not> is_ows (hd ?rest)" using line_starts [OF good(2)] by (auto simp: hd_append)
  from parse_field_known [where upd = upd, OF good(1) Cons.prems(2) Cons.prems(3) [unfolded f] this upd]
  obtain p1 l c where p1: "parse_field h ?buf (length xs) ?tm ?lst p = (Ok ?tm, p1)"
    "frames p1 l c" "p_impl p1 = upd n v (p_impl p)" "frame_fields l c fs = Some (len', chunked')" .
  have "CR \<notin> set (n @ '': '' @ v)" using tchar_no_CR [OF nv(2)] text_no_CR [OF nv(3)] by simp
  from eol_known [OF this, of "length (field_text fs) + 2" "?rest" xs]
  have eol: "find_eol ?buf (length xs) ?lst = Ok (Some ?tm)"
    by (simp add: field_text_def f length_field_line add.assoc)
  have next_line: "xs @ field_line f @ ?rest = ?buf" "?tm = length (xs @ field_line f)"
    by (simp_all add: f field_line_def)
  have start: "length xs \<noteq> ?tm - 2" using nv(1) by simp
  have "parse_fields h ?buf (length xs) ?lst p = parse_fields h ?buf ?tm ?lst p1"
    unfolding parse_fields.simps [of h ?buf "length xs"] eol outcome.case option.case
    using start p1(1) by (simp only: if_False act_bind_simps(1))
  then show ?case
    using Cons.IH [OF good(2) p1(2,4), of "xs @ field_line f"] p1(3)
    unfolding buf lst next_line(1) [symmetric] next_line(2) by (simp add: f)
qed

section \<open>The end of the header\<close>

definition lines_text :: "string list \<Rightarrow> string" where
  "lines_text ls = concat (map (\<lambda>l. l @ [CR, LF]) ls) @ [CR, LF]"

definition plain_line :: "string \<Rightarrow> bool" where
  "plain_line l \<longleftrightarrow> l \<noteq> [] \<and> CR \<notin> set l"

lemma lines_text_Cons: "lines_text (l # ls) = l @ CR # LF # lines_text ls"
  by (simp add: lines_text_def)

lemma lines_text_starts: "list_all plain_line ls \<Longrightarrow> ls = [] \<or> lines_text ls ! 0 \<noteq> CR"
  by (cases ls) (auto simp: lines_text_Cons plain_line_def nth_append, metis length_greater_0_conv nth_mem)

lemma lines_text_pairs:
  assumes "list_all plain_line ls" "ls \<noteq> []" "k + 4 < length (lines_text ls)" "lines_text ls ! k = CR"
  shows "lines_text ls ! (k + 1) = LF \<and> lines_text ls ! (k + 2) \<noteq> CR"
  using assms
proof (induction ls arbitrary: k)
  case (Cons l ls)
  have l: "l \<noteq> []" "CR \<notin> set l" using Cons.prems(1) by (simp_all add: plain_line_def)
  have at: "lines_text (l # ls) ! (length l + j) = (CR # LF # lines_text ls) ! j" for j
    by (simp add: lines_text_Cons)
  from Cons.prems(4) l(2) have "length l \<le> k"
    by (metis lines_text_Cons not_le nth_append nth_mem)
  then obtain j where k: "k = length l + j" using le_Suc_ex by blast
  then have j: "(CR # LF # lines_text ls) ! j = CR" "j + 4 < length (lines_text ls) + 2"
    using Cons.prems(3,4) at by (simp_all add: lines_text_Cons)
  have more: "ls \<noteq> []"
  proof
    assume "ls = []"
    with j show False by (simp add: lines_text_def)
  qed
  show ?case
  proof (cases j)
    case 0
    then show ?thesis
      using lines_text_starts [of ls] more Cons.prems(1) at [of 1] at [of 2] by (simp add: k)
  next
    case (Suc i)
    with j obtain m where m: "j = m + 2" by (cases i) auto
    with j have "lines_text ls ! m = CR" "m + 4 < length (lines_text ls)" by simp_all
    with Cons.IH [of m] Cons.prems(1) more show ?thesis
      using at [of "m + 3"] at [of "m + 4"] by (simp add: k m add.assoc numeral_eq_Suc)
  qed
qed simp

lemma eom_lines:
  assumes "list_all plain_line ls" "ls \<noteq> []"
  shows "find_eom (lines_text ls @ ys) 0 (length (lines_text ls @ ys)) = Ok (Some (length (lines_text ls)))"
proof (rule find_eom_first)
  obtain l ls' where "ls = ls' @ [l]" using assms(2) by (cases ls rule: rev_cases) auto
  then have t: "lines_text ls = concat (map (\<lambda>l. l @ [CR, LF]) ls') @ l @ [CR, LF, CR, LF]"
    by (simp add: lines_text_def)
  then show "0 + 4 \<le> length (lines_text ls)" by simp
  show "eom_at (lines_text ls @ ys) (length (lines_text ls))"
    unfolding t by (simp add: eom_at_def nth_append)
  show "\<forall>k. 0 \<le> k \<and> k + 4 < length (lines_text ls) \<and> (lines_text ls @ ys) ! k = CR \<longrightarrow>
      (lines_text ls @ ys) ! (k + 1) = LF \<and> (lines_text ls @ ys) ! (k + 2) \<noteq> CR"
    using lines_text_pairs [OF assms] by (simp add: nth_append)
qed simp_all

section \<open>Start lines\<close>

definition version_text :: "int \<Rightarrow> string" where
  "version_text v = (if v = 10 then ''HTTP/1.0'' else ''HTTP/1.1'')"

lemma rd_plus: "rd (xs @ ys) (length xs + k) = rd ys k" "rd (xs @ ys) (length xs) = rd ys 0"
  by (simp_all add: rd_def nth_append)

lemma version_chars: "parser_is_digit (CHR ''1'')" "parser_is_digit (CHR ''0'')"
    "digit_val (CHR ''1'') = 1" "digit_val (CHR ''0'') = 0"
  by code_simp+

lemma version_known:
  "v = 10 \<or> v = 11 \<Longrightarrow> parse_version (xs @ version_text v @ ys) (length xs) = Ok (v, length xs + 8)"
  unfolding parse_version_def rd_plus
  by (auto simp: version_text_def rd_def version_chars)

lemma length_version_text [simp]: "length (version_text v) = 8"
  by (simp add: version_text_def)

definition good_request :: "string \<Rightarrow> string \<Rightarrow> int \<Rightarrow> bool" where
  "good_request method target v \<longleftrightarrow> method \<noteq> [] \<and> list_all is_tchar method \<and>
     target \<noteq> [] \<and> list_all is_pathchar target \<and> (v = 10 \<or> v = 11)"

definition request_line :: "string \<Rightarrow> string \<Rightarrow> int \<Rightarrow> string" where
  "request_line method target v = method @ '' '' @ target @ '' '' @ version_text v"

lemma request_known:
  fixes h :: "'s handler"
  assumes good: "good_request me target v"
    and upd: "on_request h me target v (p_impl p) = (None, s)"
  shows "parse_startline True h (request_line me target v @ [CR, LF] @ ys) 0 p =
    (Ok (v, 0, length (request_line me target v) + 2), p\<lparr>p_impl := s\<rparr>)"
proof -
  let ?buf = "request_line me target v @ [CR, LF] @ ys"
  let ?i = "length me" and ?j = "length me + 1 + length target"
  note g = good [unfolded good_request_def]
  have m: "parse_method ?buf 0 = Ok (me, ?i)"
    using method_known [of me SP "[]" "target @ '' '' @ version_text v @ [CR, LF] @ ys"] g char_facts(3)
    by (simp add: request_line_def)
  have sp1: "rd ?buf ?i = (Ok SP :: char pout)"
    using rd_known [of me SP "target @ '' '' @ version_text v @ [CR, LF] @ ys"] by (simp add: request_line_def)
  have t: "parse_target ?buf (?i + 1) = Ok (target, ?j)"
    using target_known [of target "me @ '' ''" "version_text v @ [CR, LF] @ ys"] g by (simp add: request_line_def)
  have sp2: "rd ?buf ?j = (Ok SP :: char pout)"
    using rd_known [of "me @ '' '' @ target" SP "version_text v @ [CR, LF] @ ys"] by (simp add: request_line_def)
  have v: "parse_version ?buf (?j + 1) = Ok (v, ?j + 9)"
    using version_known [of v "me @ '' '' @ target @ '' ''" "[CR, LF] @ ys"] g by (simp add: request_line_def)
  have len: "length (request_line me target v) = ?j + 9" by (simp add: request_line_def)
  have e: "parse_crlf ?buf (?j + 9) = Ok (True, ?j + 11)"
    using crlf_known [of "request_line me target v" ys] by (simp add: len)
  have "\<not> v < 0" "length (request_line me target v) + 2 = ?j + 11"
    using g len by auto
  moreover have "parse_startline_request h ?buf 0 p = (Ok (v, ?j + 11), p\<lparr>p_impl := s\<rparr>)"
    if "\<not> v < 0"
    unfolding parse_startline_request_def m act_lift_bind prod.case
    using g that callback_None [of "on_request h me target v" p s, OF upd]
    by (simp only: act_lift_bind prod.case if_False sp1 Let_def t sp2 v e act_bind_simps(1) simp_thms
        act_run if_True)
  ultimately show ?thesis
    by (simp only: parse_startline_def if_True act_bind_simps(1) prod.case act_run not_False_eq_True simp_thms)
qed

lemma reason_loop_known:
  "list_all parser_is_text s \<Longrightarrow> parse_reason_loop (xs @ s @ CR # ys) k (length xs) =
     Ok (slice (xs @ s @ CR # ys) k (length xs + length s), length xs + length s)"
proof (induction s arbitrary: xs)
  case Nil
  show ?case by (subst parse_reason_loop.simps) simp
next
  case (Cons c s)
  then have "c \<noteq> CR" using char_facts(5) by auto
  then have "parse_reason_loop (xs @ (c # s) @ CR # ys) k (length xs) =
      parse_reason_loop (xs @ (c # s) @ CR # ys) k (Suc (length xs))"
    using Cons.prems by (subst parse_reason_loop.simps) simp
  then show ?case using Cons.IH [of "xs @ [c]"] Cons.prems by simp
qed

lemma reason_known:
  "list_all parser_is_text s \<Longrightarrow>
     parse_reason (xs @ s @ CR # ys) (length xs) = Ok (s, length xs + length s)"
  using reason_loop_known [of s xs ys "length xs"] by (simp add: parse_reason_def slice_known)

lemma dec_string_3:
  assumes "100 \<le> k" "k < 1000"
  shows "dec_string k = [char_of (48 + k div 100), char_of (48 + k div 10 mod 10), char_of (48 + k mod 10)]"
proof -
  have "k div 100 < 10" "10 \<le> k div 10" "\<not> k < 10" "k div 10 div 10 = k div 100"
    using assms by (simp_all add: div_mult2_eq [symmetric])
  then show ?thesis
    by (simp add: dec_string.simps [of k] dec_string.simps [of "k div 10"] dec_string.simps [of "k div 100"])
qed

lemma digit_char: "d < 10 \<Longrightarrow> parser_is_digit (char_of (48 + d)) \<and> digit_val (char_of (48 + d)) = int d"
  by (simp add: parser_is_digit_iff rfc_digit_def digit_val_def) (simp add: octet_def)

lemma status_known:
  assumes "100 \<le> k" "k < 1000"
  shows "parse_status (xs @ dec_string k @ ys) (length xs) = Ok (int k, length xs + 3)"
proof -
  let ?a = "k div 100" and ?b = "k div 10 mod 10" and ?c = "k mod 10"
  have "?a < 10" "?b < 10" "?c < 10" using assms by simp_all
  note digits = digit_char [OF this(1)] digit_char [OF this(2)] digit_char [OF this(3)]
  have "k = 10 * (k div 10) + ?c" "k div 10 = 10 * (k div 10 div 10) + ?b" by simp_all
  moreover have "k div 10 div 10 = ?a" by (simp add: div_mult2_eq [symmetric])
  ultimately have "k = 100 * ?a + 10 * ?b + ?c" by linarith
  then have "100 * int ?a + 10 * int ?b + int ?c = int k" by linarith
  then show ?thesis
    unfolding parse_status_def rd_plus dec_string_3 [OF assms] using digits by (simp add: rd_def)
qed

definition good_response :: "int \<Rightarrow> string \<Rightarrow> int \<Rightarrow> bool" where
  "good_response status reason v \<longleftrightarrow> 100 \<le> status \<and> status < 1000 \<and>
     list_all parser_is_text reason \<and> trim reason = reason \<and> (v = 10 \<or> v = 11)"

definition response_line :: "int \<Rightarrow> string \<Rightarrow> int \<Rightarrow> string" where
  "response_line status reason v = version_text v @ '' '' @ dec_string (nat status) @ '' '' @ reason"

lemma response_known:
  fixes h :: "'s handler"
  assumes good: "good_response status reason v"
    and upd: "on_response h status reason v (p_impl p) = (None, s)"
  shows "parse_startline False h (response_line status reason v @ [CR, LF] @ ys) 0 p =
    (Ok (v, status, length (response_line status reason v) + 2), p\<lparr>p_impl := s\<rparr>)"
proof -
  let ?k = "nat status" and ?buf = "response_line status reason v @ [CR, LF] @ ys"
  note g = good [unfolded good_response_def]
  have k: "100 \<le> ?k" "?k < 1000" "int ?k = status" using g by auto
  have l3: "length (dec_string ?k) = 3" by (simp add: dec_string_3 [OF k(1,2)])
  have v: "parse_version ?buf 0 = Ok (v, 8)"
    using version_known [of v "[]" "'' '' @ dec_string ?k @ '' '' @ reason @ [CR, LF] @ ys"] g
    by (simp add: response_line_def)
  have sp1: "rd ?buf 8 = (Ok SP :: char pout)"
    using rd_known [of "version_text v" SP "dec_string ?k @ '' '' @ reason @ [CR, LF] @ ys"]
    by (simp add: response_line_def)
  have st: "parse_status ?buf 9 = Ok (status, 12)"
    using status_known [OF k(1,2), of "version_text v @ '' ''" "'' '' @ reason @ [CR, LF] @ ys"] k(3)
    by (simp add: response_line_def)
  have sp2: "rd ?buf 12 = (Ok SP :: char pout)"
    using rd_known [of "version_text v @ '' '' @ dec_string ?k" SP "reason @ [CR, LF] @ ys"] l3
    by (simp add: response_line_def)
  have re: "parse_reason ?buf 13 = Ok (reason, 13 + length reason)"
    using reason_known [of reason "version_text v @ '' '' @ dec_string ?k @ '' ''" "LF # ys"] l3 g
    by (simp add: response_line_def)
  have len: "length (response_line status reason v) = 13 + length reason"
    by (simp add: response_line_def l3)
  have e: "parse_crlf ?buf (13 + length reason) = Ok (True, 13 + length reason + 2)"
    using crlf_known [of "response_line status reason v" ys] by (simp add: len)
  have "\<not> v < 0" "\<not> status < 0" using g by auto
  moreover have "8 + 1 = (9 :: nat)" "12 + 1 = (13 :: nat)" by simp_all
  ultimately show ?thesis
    unfolding parse_startline_def parse_startline_response_def len if_False v act_lift_bind prod.case
    using callback_None [of "on_response h status reason v" p s, OF upd]
    by (simp only: act_lift_bind prod.case if_False sp1 Let_def st sp2 re e act_bind_simps(1) simp_thms
        act_run if_True)
qed

section \<open>A header\<close>

lemma header_text_lines:
  "line @ [CR, LF] @ field_text fs @ [CR, LF] = lines_text (line # map (\<lambda>(n, v). n @ '': '' @ v) fs)"
proof -
  have "field_text fs = concat (map ((\<lambda>l. l @ [CR, LF]) \<circ> (\<lambda>(n, v). n @ '': '' @ v)) fs)"
    unfolding field_text_def by (rule arg_cong [of _ _ concat]) (auto simp: field_line_def)
  then show ?thesis by (simp add: lines_text_def)
qed

lemma good_lines: "list_all good_field fs \<Longrightarrow> list_all plain_line (map (\<lambda>(n, v). n @ '': '' @ v) fs)"
  by (auto simp: list_all_iff good_field_def plain_line_def tchar_no_CR [unfolded list_all_iff]
      text_no_CR [unfolded list_all_iff])

text \<open>The state after a header that says \<open>len\<close> and \<open>chunked\<close> of its body.\<close>

definition body_state :: "bool \<Rightarrow> int \<Rightarrow> u64 option \<Rightarrow> bool \<Rightarrow> parse_state" where
  "body_state isRequest status len chunked =
     (if \<not> isRequest \<and> (status div 100 = 1 \<or> status = 204 \<or> status = 304) then complete
      else case len of
        Some n \<Rightarrow> if n > 0 then body else complete
      | None \<Rightarrow> if chunked then chunk_header else if isRequest then complete else body_to_eof)"

lemma do_header_frames:
  assumes "frames p len chunked"
  shows "p_state (do_header isRequest status p) = body_state isRequest status len chunked"
    and "len = Some n \<Longrightarrow> p_len (do_header isRequest status p) = n"
    and "p_impl (do_header isRequest status p) = p_impl p"
    and "p_skip (do_header isRequest status p) = p_skip p"
  using assms
  by (auto simp: do_header_def do_header_request_def do_header_response_def frames_def body_state_def
      split: option.split)

definition good_start :: "bool \<Rightarrow> 's handler \<Rightarrow> string \<Rightarrow> int \<Rightarrow> int \<Rightarrow> 's parser \<Rightarrow> 's \<Rightarrow> bool" where
  "good_start isRequest h line v status p s \<longleftrightarrow>
     plain_line line \<and>
     (\<forall>ys. parse_startline isRequest h (line @ [CR, LF] @ ys) 0 p =
        (Ok (v, status, length line + 2), p\<lparr>p_impl := s\<rparr>))"

lemma header_known:
  fixes h :: "'s handler"
  assumes start: "good_start isRequest h line v status p s"
    and p: "frames p None False" "p_skip p = 0"
    and fs: "list_all good_field fs" "frame_fields None False fs = Some (len, chunked)"
    and upd: "\<And>n v s. on_field h n v s = (None, upd n v s)"
    and done': "\<And>s. on_header h s = (None, s)" "\<And>s. on_complete h s = (None, s)"
  shows "\<exists>p'. parse_header isRequest h ((line @ [CR, LF] @ field_text fs @ [CR, LF]) @ ys) p =
      (Ok (length (line @ [CR, LF] @ field_text fs @ [CR, LF])), p') \<and>
    p_state p' = body_state isRequest status len chunked \<and> (\<forall>n. len = Some n \<longrightarrow> p_len p' = n) \<and>
    p_impl p' = fold (\<lambda>(n, v). upd n v) fs s"
proof -
  let ?text = "line @ [CR, LF] @ field_text fs @ [CR, LF]"
  let ?it = "length line + 2"
  define p1 where "p1 = p\<lparr>p_impl := s\<rparr>"
  define p2 where "p2 = (if v \<ge> 11 then set_flag flagHTTP11 p1 else p1)"
  have line: "plain_line line" using start by (simp add: good_start_def)
  have eom: "find_eom (?text @ ys) 0 (length (?text @ ys)) = Ok (Some (length ?text))"
    unfolding header_text_lines using line good_lines [OF fs(1)] by (intro eom_lines) simp_all
  have first: "parse_startline isRequest h (?text @ ys) 0 p = (Ok (v, status, ?it), p1)"
    using start by (simp add: good_start_def p1_def)
  have "frames p1 None False" using p(1) by (simp add: p1_def frames_impl)
  then have "frames p2 None False" by (simp add: p2_def frames_other)
  from parse_fields_known [where upd = upd, OF fs(1) this fs(2) upd, of "line @ [CR, LF]" ys]
  obtain p3 where p3: "parse_fields h (?text @ ys) ?it (length ?text) p2 = (Ok (length ?text), p3)"
    "frames p3 len chunked" "p_impl p3 = fold (\<lambda>(n, v). upd n v) fs (p_impl p2)"
    by (auto simp: add.assoc)
  define p4 where "p4 = do_header isRequest status p3"
  have p4: "p4\<lparr>p_impl := p_impl p4\<rparr> = p4" by simp
  have impl: "p_impl p2 = s" by (simp add: p2_def p1_def)
  have skip: "p\<lparr>p_skip := 0\<rparr> = p" using p(2) by simp
  have "parse_header isRequest h (?text @ ys) p = (Ok (length ?text), p4)"
    using eom p(2) first p3(1) callback_None [of "on_header h" p4 "p_impl p4", OF done'(1)]
      callback_None [of "on_complete h" p4 "p_impl p4", OF done'(2)]
    by (simp add: parse_header_def Let_def parse_header_at_def skip p2_def [symmetric] p4_def [symmetric])
  moreover note do_header_frames [OF p3(2), where isRequest = isRequest and status = status]
  ultimately show ?thesis using p3(3) by (simp add: p4_def impl)
qed

section \<open>Headers that parse back\<close>

text \<open>The fields of a header that are written: those with a leading colon are not.\<close>

definition shown :: "(string \<times> string) list \<Rightarrow> (string \<times> string) list" where
  "shown = filter (\<lambda>(n, v). n = [] \<or> hd n \<noteq> CHR '':'')"

definition visible :: "http_header \<Rightarrow> (string \<times> string) list" where
  "visible m = shown (fields_entries (h_fields m))"

lemma write_fields_text:
  "list_all good_field (shown es) \<Longrightarrow> write_fields es = Ok (field_text (shown es))"
proof (induction es)
  case Nil
  show ?case by (simp add: shown_def field_text_def)
next
  case (Cons e es)
  obtain n v where e: "e = (n, v)" by (cases e)
  show ?case
  proof (cases "n = [] \<or> hd n \<noteq> CHR '':''")
    case True
    then have "shown (e # es) = (n, v) # shown es" by (simp add: shown_def e)
    moreover from this Cons.prems have "n \<noteq> []" by (simp add: good_field_def)
    ultimately show ?thesis
      using True Cons by (simp add: e hd_conv_nth field_text_def field_line_def)
  next
    case False
    then show ?thesis using Cons by (auto simp: shown_def e hd_conv_nth)
  qed
qed

lemma trim_chars: "(\<And>c. c \<in> set s \<Longrightarrow> \<not> is_ows c) \<Longrightarrow> trim s = s"
  by (rule trim_id) (cases "s = []", auto)

lemma tchars_trim: "list_all is_tchar s \<Longrightarrow> trim s = s"
  by (rule trim_chars) (simp add: list_all_iff tchar_not_ows)

lemma pathchar_not_ows: "is_pathchar c \<Longrightarrow> \<not> is_ows c"
proof -
  have "\<not> is_pathchar HT" by code_simp
  then show "is_pathchar c \<Longrightarrow> \<not> is_ows c" using char_facts(7) by (auto simp: is_ows_def)
qed

lemma pathchar_CR: "\<not> is_pathchar CR"
  by code_simp

lemma pathchars_trim: "list_all is_pathchar s \<Longrightarrow> trim s = s"
  by (rule trim_chars) (simp add: list_all_iff pathchar_not_ows)

text \<open>A header object after the callbacks of a parser.\<close>

definition put_fields :: "(string \<times> string) list \<Rightarrow> http_header \<Rightarrow> http_header" where
  "put_fields fs h = fold (\<lambda>(n, v). on_fields (fields_insert n v)) fs h"

lemma put_fields_entries:
  assumes "list_all good_field fs" "fields_inv (h_fields h)"
  shows "fields_inv (h_fields (put_fields fs h)) \<and> h_version (put_fields fs h) = h_version h \<and>
    h_status (put_fields fs h) = h_status h \<and>
    fields_entries (h_fields (put_fields fs h)) = fields_entries (h_fields h) @ fs"
  using assms
proof (induction fs arbitrary: h)
  case Nil
  then show ?case by (simp add: put_fields_def)
next
  case (Cons f fs)
  obtain n v where f: "f = (n, v)" by (cases f)
  have "trim v = v" using Cons.prems(1) by (simp add: good_field_def f)
  then show ?case
    using Cons.IH [of "on_fields (fields_insert n v) h"] Cons.prems
    by (simp add: put_fields_def f fm.inv_insert fm.entries_insert)
qed

lemma good_shown: "list_all good_field fs \<Longrightarrow> shown fs = fs"
proof -
  assume g: "list_all good_field fs"
  have "n = [] \<or> hd n \<noteq> CHR '':''" if "(n, v) \<in> set fs" for n v
  proof -
    from that g have "n \<noteq> []" "list_all is_tchar n" by (auto simp: list_all_iff good_field_def)
    then have "is_tchar (hd n)" by (simp add: list_all_iff)
    then show ?thesis using char_facts(1) by auto
  qed
  then show ?thesis unfolding shown_def by (intro filter_True) auto
qed

lemma colon_names:
  "ci_equal '':method'' '':method''" "\<not> ci_equal '':method'' '':target''" "\<not> ci_equal '':target'' '':method''"
  "\<not> ci_equal '':reason'' '':method''"
  by (simp_all add: ci_equal_map c_tolower_def ascii_lower_def octet_def)

lemma fields_init_entries: "fields_entries fields_init = []"
  by (simp add: fields_entries_def fields_init_def)

text \<open>The start line a parser read, in an object that was fresh.\<close>

definition request_start :: "string \<Rightarrow> string \<Rightarrow> int \<Rightarrow> http_header" where
  "request_start method target v = (set_method method (set_target target header_init))\<lparr>h_version := v\<rparr>"

definition response_start :: "int \<Rightarrow> string \<Rightarrow> int \<Rightarrow> http_header" where
  "response_start status reason v = set_reason reason (header_init\<lparr>h_status := status, h_version := v\<rparr>)"

lemma replace_inv: "fields_inv f \<Longrightarrow> fields_inv (fields_replace n v f)"
  by (simp add: fields_replace_def Let_def fm.inv_insert fm.inv_erase)

lemma replace_entries:
  "fields_inv f \<Longrightarrow> fields_entries (fields_replace n v f) =
     filter (\<lambda>p. \<not> has_name n p) (fields_entries f) @ [(n, trim v)]"
  by (simp add: fields_replace_def Let_def fm.entries_insert fm.inv_erase fm.entries_erase)

lemma request_start_fields:
  assumes "good_request method target v"
  shows "fields_inv (h_fields (request_start method target v)) \<and>
    fields_entries (h_fields (request_start method target v)) = [('':target'', target), ('':method'', method)] \<and>
    h_version (request_start method target v) = v"
  using assms
  by (simp add: request_start_def set_method_def set_target_def header_init_def replace_inv replace_entries
      fields_inv_init fields_init_entries has_name_def colon_names good_request_def tchars_trim pathchars_trim)

lemma response_start_fields:
  assumes "good_response status reason v"
  shows "fields_inv (h_fields (response_start status reason v)) \<and>
    fields_entries (h_fields (response_start status reason v)) = [('':reason'', reason)] \<and>
    h_version (response_start status reason v) = v \<and> h_status (response_start status reason v) = status"
  using assms
  by (simp add: response_start_def set_reason_def header_init_def replace_inv replace_entries
      fields_inv_init fields_init_entries good_response_def)

lemma fresh_frames: "frames (parser_init s) None False"
  by (simp add: frames_def parser_init_def flag_bits)

text \<open>Any parser whose callbacks set no error reads the text of a header, start line and good
  fields.\<close>

lemma write_known:
  fixes h :: "'s handler"
  assumes start: "\<And>p. p_impl p = s0 \<Longrightarrow> good_start isRequest h line v status p s"
    and fs: "list_all good_field fs" "frame_fields None False fs = Some (len, chunked)"
    and upd: "\<And>n v s. on_field h n v s = (None, upd n v s)"
    and done': "\<And>s. on_header h s = (None, s)" "\<And>s. on_complete h s = (None, s)"
  shows "\<exists>p'. do_write isRequest isDirect h ((line @ [CR, LF] @ field_text fs @ [CR, LF]) @ ys) (parser_init s0) =
      (Ok (length (line @ [CR, LF] @ field_text fs @ [CR, LF])), p') \<and>
    p_state p' = body_state isRequest status len chunked \<and> (\<forall>n. len = Some n \<longrightarrow> p_len p' = n) \<and>
    p_impl p' = fold (\<lambda>(n, v). upd n v) fs s"
proof -
  let ?p = "set_flag flagGotSome (parser_init s0)"
  have p: "frames ?p None False" "p_skip ?p = 0" "p_impl ?p = s0" "p_state (parser_init s0) = header"
    by (simp_all add: frames_other fresh_frames) (simp_all add: parser_init_def)
  from header_known [OF start [OF p(3)] p(1,2) fs upd done', of ys]
  show ?thesis by (simp add: do_write_header [OF p(4)])
qed

lemma header_handler_simps [simp]:
  "on_field header_handler n v s = (None, on_fields (fields_insert n v) s)"
  "on_header header_handler s = (None, s)" "on_complete header_handler s = (None, s)"
  "on_request header_handler me ta w s = (None, (set_method me (set_target ta s))\<lparr>h_version := w\<rparr>)"
  "on_response header_handler st re w s = (None, set_reason re (s\<lparr>h_status := st, h_version := w\<rparr>))"
  by (simp_all add: header_handler_def)

lemma request_octets:
  assumes "good_request (header_method m) (header_target m) (h_version m)" "list_all good_field (visible m)"
  shows "header_octets True m = Ok (request_line (header_method m) (header_target m) (h_version m) @ [CR, LF] @
    field_text (visible m) @ [CR, LF])"
  using assms
  by (auto simp: write_fields_text header_octets_def write_start_line_def visible_def request_line_def version_text_def
      good_request_def)

lemma response_octets:
  assumes "good_response (h_status m) (header_reason m) (h_version m)" "list_all good_field (visible m)"
  shows "header_octets False m = Ok (response_line (h_status m) (header_reason m) (h_version m) @ [CR, LF] @
    field_text (visible m) @ [CR, LF])"
  using assms
  by (auto simp: write_fields_text header_octets_def write_start_line_def visible_def response_line_def version_text_def
      good_response_def int_string_def)

lemma request_good_start:
  assumes "good_request me ta v" "p_impl p = header_init"
  shows "good_start True header_handler (request_line me ta v) v 0 p (request_start me ta v)"
proof -
  have "plain_line (request_line me ta v)"
    using assms(1) tchar_no_CR [of me] char_facts(2)
    by (auto simp: plain_line_def request_line_def good_request_def version_text_def list_all_iff pathchar_CR)
  then show ?thesis
    using request_known [OF assms(1), of header_handler p] assms(2)
    by (simp add: good_start_def request_start_def)
qed

lemma response_good_start:
  assumes "good_response st re v" "p_impl p = header_init"
  shows "good_start False header_handler (response_line st re v) v st p (response_start st re v)"
proof -
  have "CR \<notin> set (dec_string (nat st))"
    using dec_string_digits [of "nat st"] char_facts(4) by (auto simp: list_all_iff)
  then have "plain_line (response_line st re v)"
    using assms(1) text_no_CR [of re]
    by (auto simp: plain_line_def response_line_def good_response_def version_text_def)
  then show ?thesis
    using response_known [OF assms(1), of header_handler p] assms(2)
    by (simp add: good_start_def response_start_def)
qed

text \<open>C4: A request header that is written can be read back: the parser consumes exactly the
  text of the header, whatever follows it, and the header it builds has the version, the method,
  the target and the fields of the one written, in their order; the state it goes on in is the
  one the framing fields ask for.\<close>

theorem request_round_trip:
  assumes good: "good_request (header_method m) (header_target m) (h_version m)"
    and fs: "list_all good_field (visible m)" "frame_fields None False (visible m) = Some (len, chunked)"
  shows "\<exists>buf p. header_octets True m = (Ok buf :: (unit, string) outcome) \<and>
    parser_write True False header_handler [buf @ ys] (parser_init header_init) = (Ok (length buf), p) \<and>
    p_state p = body_state True 0 len chunked \<and> (\<forall>n. len = Some n \<longrightarrow> p_len p = n) \<and>
    h_version (p_impl p) = h_version m \<and> header_method (p_impl p) = header_method m \<and>
    header_target (p_impl p) = header_target m \<and> visible (p_impl p) = visible m"
proof -
  let ?me = "header_method m" and ?ta = "header_target m" and ?v = "h_version m"
  let ?s = "request_start ?me ?ta ?v"
  note start = request_start_fields [OF good]
  from write_known [where upd = "\<lambda>n v. on_fields (fields_insert n v)" and isDirect = False and ys = ys,
      OF request_good_start [OF good] fs header_handler_simps(1-3)]
  obtain p where p: "do_write True False header_handler
      ((request_line ?me ?ta ?v @ [CR, LF] @ field_text (visible m) @ [CR, LF]) @ ys) (parser_init header_init) =
      (Ok (length (request_line ?me ?ta ?v @ [CR, LF] @ field_text (visible m) @ [CR, LF])), p)"
    "p_state p = body_state True 0 len chunked" "\<forall>n. len = Some n \<longrightarrow> p_len p = n"
    "p_impl p = put_fields (visible m) ?s"
    unfolding put_fields_def by blast
  note final = put_fields_entries [OF fs(1), of ?s]
  have "fields_entries (h_fields (p_impl p)) = ('':target'', ?ta) # ('':method'', ?me) # visible m"
    using final start p(4) by simp
  then have "header_method (p_impl p) = ?me" "header_target (p_impl p) = ?ta" "visible (p_impl p) = visible m"
    using final start p(4) good_shown [OF fs(1)]
    by (simp_all add: header_method_def header_target_def visible_def fm.at_find has_name_def colon_names)
      (simp add: shown_def)
  with p final start show ?thesis
    by (simp add: request_octets [OF good fs(1)] parser_write_def maybe_flatten_def)
qed

lemma built_request:
  assumes "good_request me ta v" "list_all good_field fs"
  defines "m \<equiv> put_fields fs (request_start me ta v)"
  shows "h_version m = v" "header_method m = me" "header_target m = ta" "visible m = fs"
    "fields_inv (h_fields m)" "fields_entries (h_fields m) = ('':target'', ta) # ('':method'', me) # fs"
proof -
  note start = request_start_fields [OF assms(1)] 
  note final = put_fields_entries [OF assms(2), of "request_start me ta v"]
  show es: "fields_entries (h_fields m) = ('':target'', ta) # ('':method'', me) # fs"
    and inv: "fields_inv (h_fields m)" and "h_version m = v"
    using start final by (simp_all add: m_def)
  show "header_method m = me" "header_target m = ta" "visible m = fs"
    using inv es good_shown [OF assms(2)]
    by (simp_all add: header_method_def header_target_def visible_def fm.at_find has_name_def colon_names)
      (simp add: shown_def)
qed

theorem request_round_trip_witness:
  "\<exists>buf p. header_octets True
       (put_fields [(''Host'', ''example.com''), (''Content-Length'', ''5'')] (request_start ''POST'' ''/x'' 11)) =
       (Ok buf :: (unit, string) outcome) \<and>
     parser_write True False header_handler [buf @ ''Hello''] (parser_init header_init) = (Ok (length buf), p) \<and>
     p_state p = body \<and> p_len p = 5 \<and> header_target (p_impl p) = ''/x''"
proof -
  let ?fs = "[(''Host'', ''example.com''), (''Content-Length'', ''5'')]"
  have good: "good_request ''POST'' ''/x'' 11" by code_simp
  have "\<not> strieq ''content-length'' ''Host''" "\<not> strieq ''transfer-encoding'' ''Host''"
    "strieq ''content-length'' ''Content-Length''" "\<not> strieq ''connection'' ''Host''"
    "\<not> strieq ''proxy-connection'' ''Host''" "\<not> strieq ''connection'' ''Content-Length''"
    "\<not> strieq ''proxy-connection'' ''Content-Length''"
    by code_simp+
  moreover have "list_all is_tchar ''Host''" "list_all is_tchar ''Content-Length''"
    "list_all parser_is_text ''example.com''" "list_all parser_is_text ''5''"
    by code_simp+
  moreover have "trim ''5'' = ''5''" "trim ''example.com'' = ''example.com''"
    by (rule trim_id, simp add: is_ows_def)+
  ultimately have fs: "list_all good_field ?fs" by (simp add: good_field_def connection_field_def)
  have "parser_is_digit (CHR ''5'')" by code_simp
  then have "length_value ''5'' = Some 5"
    by (simp add: length_value_def dec_value_def octet_def)
  then have frame: "frame_fields None False ?fs = Some (Some 5, False)"
    using \<open>strieq ''content-length'' ''Content-Length''\<close> \<open>\<not> strieq ''content-length'' ''Host''\<close>
      \<open>\<not> strieq ''transfer-encoding'' ''Host''\<close> by simp
  note built = built_request [OF good fs]
  from request_round_trip [of "put_fields ?fs (request_start ''POST'' ''/x'' 11)", unfolded built, OF good fs frame,
      of "''Hello''"]
  show ?thesis by (auto simp: body_state_def)
qed

text \<open>The same for a response.\<close>

theorem response_round_trip:
  assumes good: "good_response (h_status m) (header_reason m) (h_version m)"
    and fs: "list_all good_field (visible m)" "frame_fields None False (visible m) = Some (len, chunked)"
  shows "\<exists>buf p. header_octets False m = (Ok buf :: (unit, string) outcome) \<and>
    parser_write False False header_handler [buf @ ys] (parser_init header_init) = (Ok (length buf), p) \<and>
    p_state p = body_state False (h_status m) len chunked \<and> (\<forall>n. len = Some n \<longrightarrow> p_len p = n) \<and>
    h_version (p_impl p) = h_version m \<and> h_status (p_impl p) = h_status m \<and>
    header_reason (p_impl p) = header_reason m \<and> visible (p_impl p) = visible m \<and>
    fields_inv (h_fields (p_impl p))"
proof -
  let ?st = "h_status m" and ?re = "header_reason m" and ?v = "h_version m"
  let ?s = "response_start ?st ?re ?v"
  note start = response_start_fields [OF good]
  from write_known [where upd = "\<lambda>n v. on_fields (fields_insert n v)" and isDirect = False and ys = ys,
      OF response_good_start [OF good] fs header_handler_simps(1-3)]
  obtain p where p: "do_write False False header_handler
      ((response_line ?st ?re ?v @ [CR, LF] @ field_text (visible m) @ [CR, LF]) @ ys) (parser_init header_init) =
      (Ok (length (response_line ?st ?re ?v @ [CR, LF] @ field_text (visible m) @ [CR, LF])), p)"
    "p_state p = body_state False ?st len chunked" "\<forall>n. len = Some n \<longrightarrow> p_len p = n"
    "p_impl p = put_fields (visible m) ?s"
    unfolding put_fields_def by blast
  note final = put_fields_entries [OF fs(1), of ?s]
  have "fields_entries (h_fields (p_impl p)) = ('':reason'', ?re) # visible m"
    using final start p(4) by simp
  then have "header_reason (p_impl p) = ?re" "visible (p_impl p) = visible m"
    using final start p(4) good_shown [OF fs(1)]
    by (simp_all add: header_reason_def visible_def fm.at_find has_name_def) (simp add: shown_def)
  with p final start show ?thesis
    by (simp add: response_octets [OF good fs(1)] parser_write_def maybe_flatten_def)
qed

end
