(* ===== verification/Core_Base64.thy ===== *)
theory Core_Base64
  imports Prelude
begin

text \<open>
  Base64, \<open>include/beast/core/detail/base64.hpp\<close>: the alphabet and its inverse table,
  \<open>encode\<close> and \<open>decode\<close> and the string functions on top. An octet is an 8-bit word; the
  code's \<open>int\<close> intermediates are at most 255 before they are used as an index or stored in
  an \<open>unsigned char\<close>.
\<close>

section \<open>Tables\<close>

definition alphabet :: string where
  "alphabet = ''ABCDEFGHIJKLMNOPQRSTUVWXYZabcdefghijklmnopqrstuvwxyz0123456789+/''"

definition inverse_tab :: "int list" where
  "inverse_tab = [
    -1, -1, -1, -1, -1, -1, -1, -1, -1, -1, -1, -1, -1, -1, -1, -1,
    -1, -1, -1, -1, -1, -1, -1, -1, -1, -1, -1, -1, -1, -1, -1, -1,
    -1, -1, -1, -1, -1, -1, -1, -1, -1, -1, -1, 62, -1, -1, -1, 63,
    52, 53, 54, 55, 56, 57, 58, 59, 60, 61, -1, -1, -1, -1, -1, -1,
    -1, -1,  1,  2,  3,  4,  5,  6,  7,  8,  9, 10, 11, 12, 13, 14,
    15, 16, 17, 18, 19, 20, 21, 22, 23, 24, 25, -1, -1, -1, -1, -1,
    -1, 26, 27, 28, 29, 30, 31, 32, 33, 34, 35, 36, 37, 38, 39, 40,
    41, 42, 43, 44, 45, 46, 47, 48, 49, 50, 51, -1, -1, -1, -1, -1,
    -1, -1, -1, -1, -1, -1, -1, -1, -1, -1, -1, -1, -1, -1, -1, -1,
    -1, -1, -1, -1, -1, -1, -1, -1, -1, -1, -1, -1, -1, -1, -1, -1,
    -1, -1, -1, -1, -1, -1, -1, -1, -1, -1, -1, -1, -1, -1, -1, -1,
    -1, -1, -1, -1, -1, -1, -1, -1, -1, -1, -1, -1, -1, -1, -1, -1,
    -1, -1, -1, -1, -1, -1, -1, -1, -1, -1, -1, -1, -1, -1, -1, -1,
    -1, -1, -1, -1, -1, -1, -1, -1, -1, -1, -1, -1, -1, -1, -1, -1,
    -1, -1, -1, -1, -1, -1, -1, -1, -1, -1, -1, -1, -1, -1, -1, -1,
    -1, -1, -1, -1, -1, -1, -1, -1, -1, -1, -1, -1, -1, -1, -1, -1]"

section \<open>Sizes\<close>

definition encoded_size :: "nat \<Rightarrow> nat" where
  "encoded_size n = 4 * ((n + 2) div 3)"

definition decoded_size :: "nat \<Rightarrow> nat" where
  "decoded_size n = n div 4 * 3"

section \<open>encode\<close>

definition b64_char :: "u8 \<Rightarrow> char" where
  "b64_char i = alphabet ! unat i"

fun encode :: "bytes \<Rightarrow> string" where
  "encode (a # b # c # r) =
     [b64_char (drop_bit 2 (a AND 0xFC)),
      b64_char (push_bit 4 (a AND 0x03) + drop_bit 4 (b AND 0xF0)),
      b64_char (drop_bit 6 (c AND 0xC0) + push_bit 2 (b AND 0x0F)),
      b64_char (c AND 0x3F)] @ encode r"
| "encode [a, b] =
     [b64_char (drop_bit 2 (a AND 0xFC)),
      b64_char (push_bit 4 (a AND 0x03) + drop_bit 4 (b AND 0xF0)),
      b64_char (push_bit 2 (b AND 0x0F)),
      CHR ''='']"
| "encode [a] =
     [b64_char (drop_bit 2 (a AND 0xFC)),
      b64_char (push_bit 4 (a AND 0x03)),
      CHR ''='', CHR ''='']"
| "encode [] = []"

section \<open>decode\<close>

text \<open>
  \<open>decode3\<close> is the computation of \<open>c3\<close> from \<open>c4\<close>. In the final call the entries of \<open>c4\<close>
  that were not read are left as they were; the outputs taken do not depend on them, and
  the model has 0 there.
\<close>

definition decode3 :: "u8 \<Rightarrow> u8 \<Rightarrow> u8 \<Rightarrow> u8 \<Rightarrow> bytes" where
  "decode3 c0 c1 c2 c3 =
     [push_bit 2 c0 + drop_bit 4 (c1 AND 0x30),
      push_bit 4 (c1 AND 0x0F) + drop_bit 2 (c2 AND 0x3C),
      push_bit 6 (c2 AND 0x03) + c3]"

definition c4_at :: "bytes \<Rightarrow> nat \<Rightarrow> u8" where
  "c4_at c4 k = (if k < length c4 then c4 ! k else 0)"

definition decode3_of :: "bytes \<Rightarrow> bytes" where
  "decode3_of c4 = decode3 (c4_at c4 0) (c4_at c4 1) (c4_at c4 2) (c4_at c4 3)"

text \<open>The octets written and the number of characters read. \<open>c4\<close> holds \<open>i\<close> values.\<close>

fun decode_loop :: "string \<Rightarrow> bytes \<Rightarrow> bytes \<Rightarrow> nat \<Rightarrow> bytes \<times> nat" where
  "decode_loop s c4 out n =
     (case s of
        [] \<Rightarrow> (if c4 \<noteq> [] then out @ take (length c4 - 1) (decode3_of c4) else out, n)
      | c # s' \<Rightarrow>
          let v = inverse_tab ! octet c in
          if c = CHR ''='' \<or> v = - 1
          then (if c4 \<noteq> [] then out @ take (length c4 - 1) (decode3_of c4) else out, n)
          else
            let c4 = c4 @ [of_int v] in
            if length c4 = 4 then decode_loop s' [] (out @ decode3_of c4) (n + 1)
            else decode_loop s' c4 out (n + 1))"

declare decode_loop.simps [simp del]

definition decode :: "string \<Rightarrow> bytes \<times> nat" where
  "decode s = decode_loop s [] [] 0"

definition base64_encode :: "bytes \<Rightarrow> string" where
  "base64_encode s = encode s"

text \<open>\<open>decode\<close> writes into a string of \<open>decoded_size\<close> octets: more is out of bounds.\<close>

definition base64_decode :: "string \<Rightarrow> (unit, bytes) outcome" where
  "base64_decode s =
     (let (out, n) = decode s in if length out \<le> decoded_size (length s) then Ok out else Oob)"

section \<open>Lemmas\<close>

lemma length_encode: "length (encode s) = encoded_size (length s)"
proof (induction s rule: encode.induct)
  case (1 a b c r)
  have "(length (a # b # c # r) + 2) div 3 = Suc ((length r + 2) div 3)" by simp
  with 1 show ?case by (simp add: encoded_size_def)
qed (simp_all add: encoded_size_def)

lemma length_decode3 [simp]: "length (decode3 a b c d) = 3"
  by (simp add: decode3_def)

lemma alphabet_inverse:
  assumes "i < 64" "i \<noteq> 0"
  shows "inverse_tab ! octet (b64_char i) = uint i"
proof -
  have "list_all (\<lambda>n. inverse_tab ! octet (alphabet ! n) = int n) [1..<64]"
    by code_simp
  moreover have "unat i \<in> set [1..<64]"
    using assms by (auto simp: word_less_nat_alt unat_gt_0 Suc_le_eq)
  ultimately have "inverse_tab ! octet (alphabet ! unat i) = int (unat i)"
    unfolding list_all_iff by blast
  then show ?thesis by (simp add: b64_char_def)
qed

lemma b64_char_0: "b64_char i = CHR ''A'' \<longleftrightarrow> i = 0" if "i < 64"
proof -
  have "list_all (\<lambda>n. alphabet ! n \<noteq> CHR ''A'') [1..<64]"
    by code_simp
  moreover have "i = 0 \<or> unat i \<in> set [1..<64]"
    using that by (auto simp: word_less_nat_alt unat_gt_0 Suc_le_eq)
  moreover have "alphabet ! 0 = CHR ''A''" by code_simp
  ultimately show ?thesis
    unfolding list_all_iff b64_char_def by auto
qed

lemma u8_bits: "(\<And>n. n \<in> {0, 1, 2, 3, 4, 5, 6, 7} \<Longrightarrow> bit a n = bit b n) \<Longrightarrow> a = (b :: u8)"
  by (rule bit_word_eqI) (auto simp: numeral_eq_Suc less_Suc_eq)

lemma u8_add_or: "x AND y = 0 \<Longrightarrow> x + y = x OR (y :: u8)"
  by (rule disjunctive_add) (metis bit_and_iff bit_0_eq bot_apply bot_bool_def)

lemma decode3_encode:
  fixes a b c :: u8
  shows "decode3 (drop_bit 2 (a AND 0xFC)) (push_bit 4 (a AND 0x03) + drop_bit 4 (b AND 0xF0))
    (drop_bit 6 (c AND 0xC0) + push_bit 2 (b AND 0x0F)) (c AND 0x3F) = [a, b, c]"
proof -
  have 1: "push_bit 4 (a AND 0x03) + drop_bit 4 (b AND 0xF0) = push_bit 4 (a AND 0x03) OR drop_bit 4 (b AND 0xF0)"
    by (rule u8_add_or, rule u8_bits) (auto simp: bit_simps numeral_2_eq_2 [symmetric] numeral_3_eq_3 [symmetric])
  have 2: "drop_bit 6 (c AND 0xC0) + push_bit 2 (b AND 0x0F) = drop_bit 6 (c AND 0xC0) OR push_bit 2 (b AND 0x0F)"
    by (rule u8_add_or, rule u8_bits) (auto simp: bit_simps numeral_2_eq_2 [symmetric] numeral_3_eq_3 [symmetric])
  define p where "p = push_bit 4 (a AND 0x03) OR drop_bit 4 (b AND 0xF0)"
  define q where "q = drop_bit 6 (c AND 0xC0) OR push_bit 2 (b AND 0x0F)"
  have "push_bit 2 (drop_bit 2 (a AND 0xFC)) + drop_bit 4 (p AND 0x30) =
      push_bit 2 (drop_bit 2 (a AND 0xFC)) OR drop_bit 4 (p AND 0x30)"
    by (rule u8_add_or, rule u8_bits) (auto simp: bit_simps numeral_2_eq_2 [symmetric] numeral_3_eq_3 [symmetric] p_def)
  also have "\<dots> = a" by (rule u8_bits) (auto simp: bit_simps numeral_2_eq_2 [symmetric] numeral_3_eq_3 [symmetric] p_def)
  finally have A: "push_bit 2 (drop_bit 2 (a AND 0xFC)) + drop_bit 4 (p AND 0x30) = a" .
  have "push_bit 4 (p AND 0x0F) + drop_bit 2 (q AND 0x3C) =
      push_bit 4 (p AND 0x0F) OR drop_bit 2 (q AND 0x3C)"
    by (rule u8_add_or, rule u8_bits) (auto simp: bit_simps numeral_2_eq_2 [symmetric] numeral_3_eq_3 [symmetric] p_def q_def)
  also have "\<dots> = b" by (rule u8_bits) (auto simp: bit_simps numeral_2_eq_2 [symmetric] numeral_3_eq_3 [symmetric] p_def q_def)
  finally have B: "push_bit 4 (p AND 0x0F) + drop_bit 2 (q AND 0x3C) = b" .
  have "push_bit 6 (q AND 0x03) + (c AND 0x3F) = push_bit 6 (q AND 0x03) OR (c AND 0x3F)"
    by (rule u8_add_or, rule u8_bits) (auto simp: bit_simps numeral_2_eq_2 [symmetric] numeral_3_eq_3 [symmetric] q_def)
  also have "\<dots> = c" by (rule u8_bits) (auto simp: bit_simps numeral_2_eq_2 [symmetric] numeral_3_eq_3 [symmetric] q_def)
  finally have C: "push_bit 6 (q AND 0x03) + (c AND 0x3F) = c" .
  show ?thesis
    unfolding decode3_def 1 2 p_def [symmetric] q_def [symmetric] A B C ..
qed

text \<open>Six-bit values are less than 64.\<close>

lemma six_bits:
  fixes a b c :: u8
  shows "drop_bit 2 (a AND 0xFC) < 64" "push_bit 4 (a AND 0x03) + drop_bit 4 (b AND 0xF0) < 64"
    "drop_bit 6 (c AND 0xC0) + push_bit 2 (b AND 0x0F) < 64" "c AND 0x3F < 64"
    "push_bit 2 (b AND 0x0F) < 64" "push_bit 4 (a AND 0x03) < 64"
proof -
  have m: "x AND 0x3F = x \<Longrightarrow> x < 64" for x :: u8
  proof -
    assume "x AND 0x3F = x"
    moreover have "x AND 0x3F \<le> 0x3F" by (rule word_and_le1)
    ultimately have "x \<le> 0x3F" by simp
    then show "x < 64" by (rule order_le_less_trans) simp
  qed
  have 1: "push_bit 4 (a AND 0x03) + drop_bit 4 (b AND 0xF0) = push_bit 4 (a AND 0x03) OR drop_bit 4 (b AND 0xF0)"
    by (rule u8_add_or, rule u8_bits) (auto simp: bit_simps numeral_2_eq_2 [symmetric] numeral_3_eq_3 [symmetric])
  have 2: "drop_bit 6 (c AND 0xC0) + push_bit 2 (b AND 0x0F) = drop_bit 6 (c AND 0xC0) OR push_bit 2 (b AND 0x0F)"
    by (rule u8_add_or, rule u8_bits) (auto simp: bit_simps numeral_2_eq_2 [symmetric] numeral_3_eq_3 [symmetric])
  show "drop_bit 2 (a AND 0xFC) < 64" "push_bit 4 (a AND 0x03) + drop_bit 4 (b AND 0xF0) < 64"
    "drop_bit 6 (c AND 0xC0) + push_bit 2 (b AND 0x0F) < 64" "c AND 0x3F < 64"
    "push_bit 2 (b AND 0x0F) < 64" "push_bit 4 (a AND 0x03) < 64"
    unfolding 1 2 by (rule m, rule u8_bits, auto simp: bit_simps numeral_2_eq_2 [symmetric] numeral_3_eq_3 [symmetric])+
qed

lemma decode_loop_char:
  assumes "i < 64" "b64_char i \<noteq> CHR ''A''"
  shows "decode_loop (b64_char i # s) c4 out n =
    (if length c4 = 3 then decode_loop s [] (out @ decode3_of (c4 @ [i])) (n + 1)
     else decode_loop s (c4 @ [i]) out (n + 1))"
proof -
  have "i \<noteq> 0" using assms b64_char_0 by blast
  with assms have v: "inverse_tab ! octet (b64_char i) = uint i" by (intro alphabet_inverse) auto
  moreover have "inverse_tab ! octet (CHR ''='') = - 1" by code_simp
  moreover have "uint i \<noteq> - 1" using uint_ge_0 [of i] by linarith
  ultimately have "b64_char i \<noteq> CHR ''=''" by auto
  with v \<open>uint i \<noteq> - 1\<close> show ?thesis
    by (subst decode_loop.simps) (simp add: Let_def)
qed

lemma decode_loop_pad:
  "decode_loop (CHR ''='' # s) c4 out n =
    (if c4 \<noteq> [] then out @ take (length c4 - 1) (decode3_of c4) else out, n)"
  by (subst decode_loop.simps) simp

lemma b64_char_not_pad: "i < 64 \<Longrightarrow> b64_char i \<noteq> CHR ''=''"
proof -
  have "list_all (\<lambda>n. alphabet ! n \<noteq> CHR ''='') [0..<64]" by code_simp
  moreover assume "i < 64"
  then have "unat i \<in> set [0..<64]" by (simp add: word_less_nat_alt)
  ultimately show ?thesis unfolding list_all_iff b64_char_def by blast
qed

lemmas decode_char_simps =
  decode_loop_char six_bits six_bits [simplified] b64_char_not_pad decode_loop_pad decode3_of_def c4_at_def

lemma decode_loop_encode:
  "CHR ''A'' \<notin> set (encode s) \<Longrightarrow>
     decode_loop (encode s) [] out n = (out @ s, n + length (filter (\<lambda>c. c \<noteq> CHR ''='') (encode s)))"
proof (induction s arbitrary: out n rule: encode.induct)
  case (1 a b c r)
  then show ?case
    using decode3_encode [of a b c] by (auto simp: decode_char_simps)
next
  case (2 a b)
  then show ?case
    using decode3_encode [of a b 0] by (auto simp: decode_char_simps)
next
  case (3 a)
  then show ?case
    using decode3_encode [of a 0 0] by (auto simp: decode_char_simps)
next
  case 4
  then show ?case by (simp add: decode_loop.simps)
qed

lemma decode_loop_length:
  "length c4 < 4 \<Longrightarrow> decode_loop s c4 out n = (out', n') \<Longrightarrow>
     4 * length out' \<le> 4 * length out + 3 * (length c4 + length s)"
proof (induction s c4 out n rule: decode_loop.induct)
  case (1 s c4 out n)
  have stop: "4 * length (if c4 \<noteq> [] then out @ take (length c4 - 1) (decode3_of c4) else out)
      \<le> 4 * length out + 3 * length c4"
    using "1.prems"(1) by (cases c4) (auto simp: decode3_of_def)
  have run: "(out', n') = decode_loop s c4 out n" using "1.prems"(2) by simp
  show ?case
  proof (cases s)
    case Nil
    with run stop show ?thesis by (subst (asm) decode_loop.simps) auto
  next
    case (Cons c r)
    let ?v = "inverse_tab ! octet c"
    show ?thesis
    proof (cases "c = CHR ''='' \<or> ?v = - 1")
      case True
      with run Cons have "out' = (if c4 \<noteq> [] then out @ take (length c4 - 1) (decode3_of c4) else out)"
        by (subst (asm) decode_loop.simps) auto
      with stop show ?thesis by simp
    next
      case False
      with run Cons have "(out', n') =
          (if length c4 = 3 then decode_loop r [] (out @ decode3_of (c4 @ [of_int ?v])) (n + 1)
           else decode_loop r (c4 @ [of_int ?v]) out (n + 1))"
        by (subst (asm) decode_loop.simps) (simp add: Let_def)
      with "1.IH" [OF Cons refl False refl] "1.prems"(1) Cons show ?thesis
        by (auto simp: decode3_of_def split: if_splits)
    qed
  qed
qed

section \<open>Properties\<close>

text \<open>The encoding of RFC 4648: a group of three octets is a 24-bit number, cut in four
  sextets; a final group of two or one octets is filled up with zero bits.\<close>

definition sextet :: "nat \<Rightarrow> nat \<Rightarrow> char" where
  "sextet v k = alphabet ! (v div 2 ^ k mod 64)"

fun rfc4648 :: "nat list \<Rightarrow> string" where
  "rfc4648 (a # b # c # r) =
     (let v = a * 65536 + b * 256 + c in [sextet v 18, sextet v 12, sextet v 6, sextet v 0] @ rfc4648 r)"
| "rfc4648 [a, b] = (let v = a * 65536 + b * 256 in [sextet v 18, sextet v 12, sextet v 6, CHR ''=''])"
| "rfc4648 [a] = (let v = a * 65536 in [sextet v 18, sextet v 12, CHR ''='', CHR ''=''])"
| "rfc4648 [] = []"

lemma unat_u8_masks:
  fixes x :: u8
  shows "unat (x AND 0x03) = unat x mod 4" "unat (x AND 0x0F) = unat x mod 16"
    "unat (x AND 0x3F) = unat x mod 64"
proof -
  have m: "(0x03 :: u8) = mask 2" "(0x0F :: u8) = mask 4" "(0x3F :: u8) = mask 6"
    by (simp_all add: mask_eq_exp_minus_1)
  show "unat (x AND 0x03) = unat x mod 4" "unat (x AND 0x0F) = unat x mod 16"
    "unat (x AND 0x3F) = unat x mod 64"
    unfolding m take_bit_eq_mask [symmetric] by (simp_all only: unsigned_take_bit_eq, simp_all add: take_bit_eq_mod)
qed

lemma unat_u8_shift:
  fixes x :: u8
  shows "unat x < 4 \<Longrightarrow> unat (push_bit 4 x) = unat x * 16"
    "unat x < 16 \<Longrightarrow> unat (push_bit 2 x) = unat x * 4"
    "unat (drop_bit 2 (x AND 0xFC)) = unat x div 4"
    "unat (drop_bit 4 (x AND 0xF0)) = unat x div 16"
    "unat (drop_bit 6 (x AND 0xC0)) = unat x div 64"
proof -
  have high: "\<not> bit x 8" "\<not> bit x 9" "\<not> bit x 10" "\<not> bit x 11" "\<not> bit x 12" "\<not> bit x 13"
    by (auto dest: bit_imp_le_length)
  have d: "drop_bit 2 (x AND 0xFC) = drop_bit 2 x" "drop_bit 4 (x AND 0xF0) = drop_bit 4 x"
    "drop_bit 6 (x AND 0xC0) = drop_bit 6 x"
    by (rule u8_bits; use high in \<open>auto simp: bit_simps\<close>)+
  show "unat (drop_bit 2 (x AND 0xFC)) = unat x div 4"
    "unat (drop_bit 4 (x AND 0xF0)) = unat x div 16"
    "unat (drop_bit 6 (x AND 0xC0)) = unat x div 64"
    unfolding d by (simp_all only: unsigned_drop_bit_eq, simp_all add: drop_bit_eq_div take_bit_nat_eq_self)
qed (simp_all add: push_bit_eq_mult unat_word_ariths)

lemma unat_u8_add: "unat x + unat y < 256 \<Longrightarrow> unat (x + y :: u8) = unat x + unat y"
  by (simp add: unat_word_ariths)

lemma unat_sextets:
  fixes a b c :: u8
  shows "unat (drop_bit 2 (a AND 0xFC)) = unat a div 4"
    "unat (push_bit 4 (a AND 0x03) + drop_bit 4 (b AND 0xF0)) = unat a mod 4 * 16 + unat b div 16"
    "unat (drop_bit 6 (c AND 0xC0) + push_bit 2 (b AND 0x0F)) = unat b mod 16 * 4 + unat c div 64"
    "unat (c AND 0x3F) = unat c mod 64"
    "unat (push_bit 2 (b AND 0x0F)) = unat b mod 16 * 4"
    "unat (push_bit 4 (a AND 0x03)) = unat a mod 4 * 16"
proof -
  have p: "unat (push_bit 4 (a AND 0x03)) = unat a mod 4 * 16"
    "unat (push_bit 2 (b AND 0x0F)) = unat b mod 16 * 4"
    by (subst unat_u8_shift; simp only: unat_u8_masks; simp)+
  have "unat b div 16 < 16" "unat c div 64 < 4"
    using unat_u8_less [of b] unat_u8_less [of c] by linarith+
  then show "unat (push_bit 4 (a AND 0x03) + drop_bit 4 (b AND 0xF0)) = unat a mod 4 * 16 + unat b div 16"
    "unat (drop_bit 6 (c AND 0xC0) + push_bit 2 (b AND 0x0F)) = unat b mod 16 * 4 + unat c div 64"
    by (subst unat_u8_add; simp only: p unat_u8_shift; simp)+
  show "unat (push_bit 2 (b AND 0x0F)) = unat b mod 16 * 4"
    "unat (push_bit 4 (a AND 0x03)) = unat a mod 4 * 16" by (rule p)+
qed (simp_all only: unat_u8_shift unat_u8_masks)

lemma mod_scaled: "k < m \<Longrightarrow> (x * m + k) mod (n * m) = x mod n * m + (k :: nat)"
  using mod_mult2_eq [of "x * m + k" m n] by (simp add: mult.commute)

lemma group_sextets:
  fixes a b c :: nat
  assumes "b < 256" "c < 256"
  shows "(a * 65536 + b * 256 + c) div 2 ^ 18 = a div 4"
    "(a * 65536 + b * 256 + c) div 2 ^ 12 mod 64 = a mod 4 * 16 + b div 16"
    "(a * 65536 + b * 256 + c) div 2 ^ 6 mod 64 = b mod 16 * 4 + c div 64"
    "(a * 65536 + b * 256 + c) div 2 ^ 0 mod 64 = c mod 64"
proof -
  let ?v = "a * 65536 + b * 256 + c"
  have "?v div 2 ^ 18 = ?v div 65536 div 4" by (simp add: div_mult2_eq [symmetric])
  also have "?v div 65536 = a" using assms by simp
  finally show "?v div 2 ^ 18 = a div 4" .
  have "?v div 2 ^ 12 = ?v div 256 div 16" by (simp add: div_mult2_eq [symmetric])
  also have "?v div 256 = a * 256 + b" using assms by simp
  finally have "?v div 2 ^ 12 = (a * 256 + b) div 16" .
  moreover have "(a * 256 + b) div 16 = a * 16 + b div 16" by simp
  moreover have "(a * 16 + b div 16) mod (4 * 16) = a mod 4 * 16 + b div 16"
    by (rule mod_scaled) (use assms in linarith)
  ultimately show "?v div 2 ^ 12 mod 64 = a mod 4 * 16 + b div 16" by simp
  have "?v div 2 ^ 6 = (a * 256 + b) * 4 + c div 64" by simp
  moreover have "((a * 256 + b) * 4 + c div 64) mod (16 * 4) = (a * 256 + b) mod 16 * 4 + c div 64"
    by (rule mod_scaled) (use assms in linarith)
  moreover have "(b + (a * 16) * 16) mod 16 = b mod 16" by (rule mod_mult_self1)
  then have "(a * 256 + b) mod 16 = b mod 16" by (simp add: algebra_simps)
  ultimately show "?v div 2 ^ 6 mod 64 = b mod 16 * 4 + c div 64" by simp
  have "(c + (a * 1024 + b * 4) * 64) mod 64 = c mod 64" by (rule mod_mult_self1)
  then show "?v div 2 ^ 0 mod 64 = c mod 64" by (simp add: algebra_simps)
qed

text \<open>C33: \<open>base64_encode\<close> is the Base64 encoding of RFC 4648.\<close>

theorem base64_encode_rfc: "base64_encode s = rfc4648 (map unat s)"
proof -
  have q: "unat x div 4 mod 64 = unat x div 4" for x :: u8
  proof -
    have "unat x div 4 < 64" using unat_u8_less [of x] by linarith
    then show ?thesis by simp
  qed
  have "encode s = rfc4648 (map unat s)"
  proof (induction s rule: encode.induct)
    case (1 a b c r)
    with group_sextets [of "unat b" "unat c" "unat a"] show ?case
      unfolding encode.simps rfc4648.simps list.map
      by (simp only: b64_char_def unat_sextets sextet_def Let_def q unat_u8_less simp_thms)
  next
    case (2 a b)
    from group_sextets [of "unat b" 0 "unat a"] show ?case
      unfolding encode.simps rfc4648.simps list.map
      by (simp only: b64_char_def unat_sextets sextet_def Let_def q unat_u8_less simp_thms)
        (simp add: q)
  next
    case (3 a)
    from group_sextets [of 0 0 "unat a"] show ?case
      unfolding encode.simps rfc4648.simps list.map
      by (simp only: b64_char_def unat_sextets sextet_def Let_def q unat_u8_less simp_thms)
        (simp add: q)
  qed simp
  then show ?thesis by (simp add: base64_encode_def)
qed

text \<open>C34: decoding an encoded string gives it back, and stays inside the buffer sized with
  \<open>decoded_size\<close>, when the encoded text does not contain the letter A: the inverse table
  has -1 at A, where 0 belongs.\<close>

theorem base64_roundtrip:
  assumes "CHR ''A'' \<notin> set (base64_encode s)"
  shows "base64_decode (base64_encode s) = Ok s"
proof -
  have "length s \<le> decoded_size (length (encode s))"
    by (simp add: length_encode encoded_size_def decoded_size_def)
  with decode_loop_encode [of s "[]" 0] assms show ?thesis
    by (simp add: base64_encode_def base64_decode_def decode_def)
qed

theorem base64_roundtrip_witness:
  "base64_decode (base64_encode [0xDE, 0xAD, 0xBE, 0xEF]) = Ok [0xDE, 0xAD, 0xBE, 0xEF]"
  by (rule base64_roundtrip) code_simp

text \<open>\<open>decode\<close> writes at most three octets for four characters, so it stays inside the
  \<open>decoded_size\<close> octets its caller provides when the number of characters is a multiple of
  four.\<close>

theorem base64_decode_bound:
  assumes "length s mod 4 = 0"
  shows "base64_decode s \<noteq> Oob"
proof -
  obtain out n where d: "decode s = (out, n)" by (cases "decode s")
  have "4 * length out \<le> 3 * length s"
    using decode_loop_length [of "[]" s "[]" 0 out n] d by (simp add: decode_def)
  moreover have "length s = 4 * (length s div 4)" using assms by presburger
  ultimately have "length out \<le> decoded_size (length s)"
    unfolding decoded_size_def by linarith
  with d show ?thesis by (simp add: base64_decode_def)
qed

theorem base64_decode_bound_witness: "base64_decode ''Zm9v'' \<noteq> Oob"
  by (rule base64_decode_bound) simp


end
