(* ===== verification/Core_Sha1.thy ===== *)
theory Core_Sha1
  imports Prelude
begin

text \<open>
  \<open>include/beast/core/detail/sha1.hpp\<close>: the rounds with their 16-word ring, the 80 calls of
  \<open>transform\<close> with the registers they are given, and the context with \<open>init\<close>, \<open>update\<close>
  and \<open>finish\<close>. RFC 3174 is the reference: its message schedule of 80 words, its loop over
  five rotating registers, its padding. \<open>sha1_digest\<close> says that the digest of a text given in any
  pieces is the one of the RFC.
\<close>

section \<open>Rounds\<close>

type_synonym block = "u32 list"
type_synonym round =
  "block \<Rightarrow> u32 \<Rightarrow> u32 \<Rightarrow> u32 \<Rightarrow> u32 \<Rightarrow> u32 \<Rightarrow> nat \<Rightarrow> block \<times> u32 \<times> u32"

definition BLOCK_INTS :: nat where
  "BLOCK_INTS = 16"

definition BLOCK_BYTES :: nat where
  "BLOCK_BYTES = 64"

definition rol :: "u32 \<Rightarrow> nat \<Rightarrow> u32" where
  "rol value bits = push_bit bits value OR drop_bit (32 - bits) value"

text \<open>\<open>x & 15\<close> on an index is \<open>x mod 16\<close>.\<close>

definition blk :: "block \<Rightarrow> nat \<Rightarrow> u32" where
  "blk block i =
     rol (block ! ((i + 13) mod 16) XOR block ! ((i + 8) mod 16) XOR
          block ! ((i + 2) mod 16) XOR block ! i) 1"

text \<open>A round changes \<open>block\<close>, \<open>w\<close> and \<open>z\<close>, which it takes by reference, and returns them.\<close>

definition R0 :: round where
  "R0 block v w x y z i =
     (block, rol w 30,
      z + (((w AND (x XOR y)) XOR y) + block ! i + 0x5a827999 + rol v 5))"

definition R1 :: round where
  "R1 block v w x y z i =
     (let block = block[i := blk block i]
      in (block, rol w 30,
          z + (((w AND (x XOR y)) XOR y) + block ! i + 0x5a827999 + rol v 5)))"

definition R2 :: round where
  "R2 block v w x y z i =
     (let block = block[i := blk block i]
      in (block, rol w 30, z + ((w XOR x XOR y) + block ! i + 0x6ed9eba1 + rol v 5)))"

definition R3 :: round where
  "R3 block v w x y z i =
     (let block = block[i := blk block i]
      in (block, rol w 30,
          z + ((((w OR x) AND y) OR (w AND x)) + block ! i + 0x8f1bbcdc + rol v 5)))"

definition R4 :: round where
  "R4 block v w x y z i =
     (let block = block[i := blk block i]
      in (block, rol w 30, z + ((w XOR x XOR y) + block ! i + 0xca62c1d6 + rol v 5)))"

text \<open>\<open>make_block\<close> reads 64 octets from \<open>p\<close>.\<close>

definition make_block :: "bytes \<Rightarrow> block" where
  "make_block p = map (\<lambda>i.
     ucast (p ! (4 * i + 3)) OR push_bit 8 (ucast (p ! (4 * i + 2))) OR
     push_bit 16 (ucast (p ! (4 * i + 1))) OR push_bit 24 (ucast (p ! (4 * i + 0)))) [0..<BLOCK_INTS]"

section \<open>transform\<close>

text \<open>The local variables of \<open>transform\<close>; the second and the fifth argument of a call are the
  references.\<close>

datatype reg = Reg_a | Reg_b | Reg_c | Reg_d | Reg_e

record regs =
  r_a :: u32
  r_b :: u32
  r_c :: u32
  r_d :: u32
  r_e :: u32

fun reg_get :: "regs \<Rightarrow> reg \<Rightarrow> u32" where
  "reg_get r Reg_a = r_a r"
| "reg_get r Reg_b = r_b r"
| "reg_get r Reg_c = r_c r"
| "reg_get r Reg_d = r_d r"
| "reg_get r Reg_e = r_e r"

fun reg_put :: "reg \<Rightarrow> u32 \<Rightarrow> regs \<Rightarrow> regs" where
  "reg_put Reg_a x r = r\<lparr>r_a := x\<rparr>"
| "reg_put Reg_b x r = r\<lparr>r_b := x\<rparr>"
| "reg_put Reg_c x r = r\<lparr>r_c := x\<rparr>"
| "reg_put Reg_d x r = r\<lparr>r_d := x\<rparr>"
| "reg_put Reg_e x r = r\<lparr>r_e := x\<rparr>"

type_synonym call = "round \<times> reg \<times> reg \<times> reg \<times> reg \<times> reg \<times> nat"

fun call_round :: "call \<Rightarrow> block \<times> regs \<Rightarrow> block \<times> regs" where
  "call_round (R, v, w, x, y, z, i) (block, r) =
     (let (block', w', z') =
            R block (reg_get r v) (reg_get r w) (reg_get r x) (reg_get r y) (reg_get r z) i
      in (block', reg_put z z' (reg_put w w' r)))"

definition transform_calls :: "call list" where
  "transform_calls =
  [
   (R0, Reg_a, Reg_b, Reg_c, Reg_d, Reg_e, 0), (R0, Reg_e, Reg_a, Reg_b, Reg_c, Reg_d, 1),
   (R0, Reg_d, Reg_e, Reg_a, Reg_b, Reg_c, 2), (R0, Reg_c, Reg_d, Reg_e, Reg_a, Reg_b, 3),
   (R0, Reg_b, Reg_c, Reg_d, Reg_e, Reg_a, 4), (R0, Reg_a, Reg_b, Reg_c, Reg_d, Reg_e, 5),
   (R0, Reg_e, Reg_a, Reg_b, Reg_c, Reg_d, 6), (R0, Reg_d, Reg_e, Reg_a, Reg_b, Reg_c, 7),
   (R0, Reg_c, Reg_d, Reg_e, Reg_a, Reg_b, 8), (R0, Reg_b, Reg_c, Reg_d, Reg_e, Reg_a, 9),
   (R0, Reg_a, Reg_b, Reg_c, Reg_d, Reg_e, 10), (R0, Reg_e, Reg_a, Reg_b, Reg_c, Reg_d, 11),
   (R0, Reg_d, Reg_e, Reg_a, Reg_b, Reg_c, 12), (R0, Reg_c, Reg_d, Reg_e, Reg_a, Reg_b, 13),
   (R0, Reg_b, Reg_c, Reg_d, Reg_e, Reg_a, 14), (R0, Reg_a, Reg_b, Reg_c, Reg_d, Reg_e, 15),
   (R1, Reg_e, Reg_a, Reg_b, Reg_c, Reg_d, 0), (R1, Reg_d, Reg_e, Reg_a, Reg_b, Reg_c, 1),
   (R1, Reg_c, Reg_d, Reg_e, Reg_a, Reg_b, 2), (R1, Reg_b, Reg_c, Reg_d, Reg_e, Reg_a, 3),
   (R2, Reg_a, Reg_b, Reg_c, Reg_d, Reg_e, 4), (R2, Reg_e, Reg_a, Reg_b, Reg_c, Reg_d, 5),
   (R2, Reg_d, Reg_e, Reg_a, Reg_b, Reg_c, 6), (R2, Reg_c, Reg_d, Reg_e, Reg_a, Reg_b, 7),
   (R2, Reg_b, Reg_c, Reg_d, Reg_e, Reg_a, 8), (R2, Reg_a, Reg_b, Reg_c, Reg_d, Reg_e, 9),
   (R2, Reg_e, Reg_a, Reg_b, Reg_c, Reg_d, 10), (R2, Reg_d, Reg_e, Reg_a, Reg_b, Reg_c, 11),
   (R2, Reg_c, Reg_d, Reg_e, Reg_a, Reg_b, 12), (R2, Reg_b, Reg_c, Reg_d, Reg_e, Reg_a, 13),
   (R2, Reg_a, Reg_b, Reg_c, Reg_d, Reg_e, 14), (R2, Reg_e, Reg_a, Reg_b, Reg_c, Reg_d, 15),
   (R2, Reg_d, Reg_e, Reg_a, Reg_b, Reg_c, 0), (R2, Reg_c, Reg_d, Reg_e, Reg_a, Reg_b, 1),
   (R2, Reg_b, Reg_c, Reg_d, Reg_e, Reg_a, 2), (R2, Reg_a, Reg_b, Reg_c, Reg_d, Reg_e, 3),
   (R2, Reg_e, Reg_a, Reg_b, Reg_c, Reg_d, 4), (R2, Reg_d, Reg_e, Reg_a, Reg_b, Reg_c, 5),
   (R2, Reg_c, Reg_d, Reg_e, Reg_a, Reg_b, 6), (R2, Reg_b, Reg_c, Reg_d, Reg_e, Reg_a, 7),
   (R3, Reg_a, Reg_b, Reg_c, Reg_d, Reg_e, 8), (R3, Reg_e, Reg_a, Reg_b, Reg_c, Reg_d, 9),
   (R3, Reg_d, Reg_e, Reg_a, Reg_b, Reg_c, 10), (R3, Reg_c, Reg_d, Reg_e, Reg_a, Reg_b, 11),
   (R3, Reg_b, Reg_c, Reg_d, Reg_e, Reg_a, 12), (R3, Reg_a, Reg_b, Reg_c, Reg_d, Reg_e, 13),
   (R3, Reg_e, Reg_a, Reg_b, Reg_c, Reg_d, 14), (R3, Reg_d, Reg_e, Reg_a, Reg_b, Reg_c, 15),
   (R3, Reg_c, Reg_d, Reg_e, Reg_a, Reg_b, 0), (R3, Reg_b, Reg_c, Reg_d, Reg_e, Reg_a, 1),
   (R3, Reg_a, Reg_b, Reg_c, Reg_d, Reg_e, 2), (R3, Reg_e, Reg_a, Reg_b, Reg_c, Reg_d, 3),
   (R3, Reg_d, Reg_e, Reg_a, Reg_b, Reg_c, 4), (R3, Reg_c, Reg_d, Reg_e, Reg_a, Reg_b, 5),
   (R3, Reg_b, Reg_c, Reg_d, Reg_e, Reg_a, 6), (R3, Reg_a, Reg_b, Reg_c, Reg_d, Reg_e, 7),
   (R3, Reg_e, Reg_a, Reg_b, Reg_c, Reg_d, 8), (R3, Reg_d, Reg_e, Reg_a, Reg_b, Reg_c, 9),
   (R3, Reg_c, Reg_d, Reg_e, Reg_a, Reg_b, 10), (R3, Reg_b, Reg_c, Reg_d, Reg_e, Reg_a, 11),
   (R4, Reg_a, Reg_b, Reg_c, Reg_d, Reg_e, 12), (R4, Reg_e, Reg_a, Reg_b, Reg_c, Reg_d, 13),
   (R4, Reg_d, Reg_e, Reg_a, Reg_b, Reg_c, 14), (R4, Reg_c, Reg_d, Reg_e, Reg_a, Reg_b, 15),
   (R4, Reg_b, Reg_c, Reg_d, Reg_e, Reg_a, 0), (R4, Reg_a, Reg_b, Reg_c, Reg_d, Reg_e, 1),
   (R4, Reg_e, Reg_a, Reg_b, Reg_c, Reg_d, 2), (R4, Reg_d, Reg_e, Reg_a, Reg_b, Reg_c, 3),
   (R4, Reg_c, Reg_d, Reg_e, Reg_a, Reg_b, 4), (R4, Reg_b, Reg_c, Reg_d, Reg_e, Reg_a, 5),
   (R4, Reg_a, Reg_b, Reg_c, Reg_d, Reg_e, 6), (R4, Reg_e, Reg_a, Reg_b, Reg_c, Reg_d, 7),
   (R4, Reg_d, Reg_e, Reg_a, Reg_b, Reg_c, 8), (R4, Reg_c, Reg_d, Reg_e, Reg_a, Reg_b, 9),
   (R4, Reg_b, Reg_c, Reg_d, Reg_e, Reg_a, 10), (R4, Reg_a, Reg_b, Reg_c, Reg_d, Reg_e, 11),
   (R4, Reg_e, Reg_a, Reg_b, Reg_c, Reg_d, 12), (R4, Reg_d, Reg_e, Reg_a, Reg_b, Reg_c, 13),
   (R4, Reg_c, Reg_d, Reg_e, Reg_a, Reg_b, 14), (R4, Reg_b, Reg_c, Reg_d, Reg_e, Reg_a, 15)]"

definition transform :: "u32 list \<Rightarrow> block \<Rightarrow> u32 list \<times> block" where
  "transform digest block =
     (let r = \<lparr>r_a = digest ! 0, r_b = digest ! 1, r_c = digest ! 2, r_d = digest ! 3,
               r_e = digest ! 4\<rparr>;
          (block, r) = fold call_round transform_calls (block, r)
      in ([digest ! 0 + r_a r, digest ! 1 + r_b r, digest ! 2 + r_c r, digest ! 3 + r_d r,
           digest ! 4 + r_e r], block))"

section \<open>The context\<close>

record sha1_context =
  sc_buflen :: nat
  sc_blocks :: u64
  sc_digest :: "u32 list"
  sc_buf :: bytes

text \<open>\<open>init\<close> does not touch \<open>buf\<close>, whose 64 octets are what the memory held before.\<close>

definition sha1_init :: "sha1_context \<Rightarrow> sha1_context" where
  "sha1_init ctx = ctx\<lparr>sc_buflen := 0, sc_blocks := 0,
     sc_digest := [0x67452301, 0xefcdab89, 0x98badcfe, 0x10325476, 0xc3d2e1f0]\<rparr>"

definition memcpy_at :: "bytes \<Rightarrow> nat \<Rightarrow> bytes \<Rightarrow> bytes" where
  "memcpy_at buf i xs = take i buf @ xs @ drop (i + length xs) buf"

function sha1_update :: "sha1_context \<Rightarrow> bytes \<Rightarrow> sha1_context" where
  "sha1_update ctx p =
     (let n = min (length p) (BLOCK_BYTES - sc_buflen ctx);
          ctx = ctx\<lparr>sc_buf := memcpy_at (sc_buf ctx) (sc_buflen ctx) (take n p),
                    sc_buflen := sc_buflen ctx + n\<rparr>
      in if sc_buflen ctx \<noteq> 64 then ctx
         else sha1_update
           (ctx\<lparr>sc_buflen := 0, sc_digest := fst (transform (sc_digest ctx) (make_block (sc_buf ctx))),
                sc_blocks := sc_blocks ctx + 1\<rparr>)
           (drop n p))"
  by pat_completeness auto
termination
  by (relation "measures [\<lambda>(ctx, p). length p, \<lambda>(ctx, p). sc_buflen ctx]")
    (auto simp: BLOCK_BYTES_def)

declare sha1_update.simps [simp del]

text \<open>\<open>total_bits\<close> is a \<open>uint64_t\<close> and wraps.\<close>

definition sha1_total_bits :: "sha1_context \<Rightarrow> u64" where
  "sha1_total_bits ctx = (sc_blocks ctx * 64 + of_nat (sc_buflen ctx)) * 8"

definition sha1_pad :: "sha1_context \<Rightarrow> bytes" where
  "sha1_pad ctx = take (sc_buflen ctx) (sc_buf ctx) @ [0x80] @
     replicate (BLOCK_BYTES - (sc_buflen ctx + 1)) 0"

definition sha1_finish :: "sha1_context \<Rightarrow> bytes" where
  "sha1_finish ctx =
     (let total_bits = sha1_total_bits ctx;
          buflen = sc_buflen ctx + 1;
          block = make_block (sha1_pad ctx);
          (digest, block) =
            (if buflen > BLOCK_BYTES - 8 then
               let (digest, block) = transform (sc_digest ctx) block
               in (digest, replicate (BLOCK_INTS - 2) 0 @ drop (BLOCK_INTS - 2) block)
             else (sc_digest ctx, block));
          block = block[BLOCK_INTS - 1 := ucast (total_bits AND 0xffffffff)];
          block = block[BLOCK_INTS - 2 := ucast (drop_bit 32 total_bits)];
          digest = fst (transform digest block)
      in concat (map (\<lambda>d. [ucast (drop_bit 24 d AND 0xff), ucast (drop_bit 16 d AND 0xff),
                            ucast (drop_bit 8 d AND 0xff), ucast (d AND 0xff)]) digest))"


section \<open>RFC 3174\<close>

definition rfc_f :: "nat \<Rightarrow> u32 \<Rightarrow> u32 \<Rightarrow> u32 \<Rightarrow> u32" where
  "rfc_f t B C D =
     (if t < 20 then (B AND C) OR (NOT B AND D)
      else if t < 40 then B XOR C XOR D
      else if t < 60 then (B AND C) OR (B AND D) OR (C AND D)
      else B XOR C XOR D)"

definition rfc_K :: "nat \<Rightarrow> u32" where
  "rfc_K t =
     (if t < 20 then 0x5A827999 else if t < 40 then 0x6ED9EBA1
      else if t < 60 then 0x8F1BBCDC else 0xCA62C1D6)"

text \<open>The words \<open>W(0) \<dots> W(79)\<close>.\<close>

primrec rfc_extend :: "nat \<Rightarrow> u32 list \<Rightarrow> u32 list" where
  "rfc_extend 0 W = W"
| "rfc_extend (Suc n) W =
     (let t = length W
      in rfc_extend n
        (W @ [word_rotl 1 (W ! (t - 3) XOR W ! (t - 8) XOR W ! (t - 14) XOR W ! (t - 16))]))"

definition rfc_W :: "u32 list \<Rightarrow> u32 list" where
  "rfc_W M = rfc_extend 64 M"

type_synonym abcde = "u32 \<times> u32 \<times> u32 \<times> u32 \<times> u32"

fun rfc_step :: "u32 list \<Rightarrow> nat \<Rightarrow> abcde \<Rightarrow> abcde" where
  "rfc_step W t (A, B, C, D, E) =
     (word_rotl 5 A + rfc_f t B C D + E + W ! t + rfc_K t, A, word_rotl 30 B, C, D)"

fun rfc_block :: "abcde \<Rightarrow> u32 list \<Rightarrow> abcde" where
  "rfc_block (H0, H1, H2, H3, H4) M =
     (let (A, B, C, D, E) = fold (rfc_step (rfc_W M)) [0..<80] (H0, H1, H2, H3, H4)
      in (H0 + A, H1 + B, H2 + C, H3 + D, H4 + E))"

fun rfc_words :: "bytes \<Rightarrow> u32 list" where
  "rfc_words (a # b # c # d # xs) =
     (((ucast a * 256 + ucast b) * 256 + ucast c) * 256 + ucast d) # rfc_words xs"
| "rfc_words _ = []"

text \<open>The padding of a text of \<open>l\<close> octets: \<open>80\<close>, zeros up to 56 octets in the last block, and
  the number of bits in two words.\<close>

definition rfc_zeros :: "nat \<Rightarrow> nat" where
  "rfc_zeros l = (119 - l mod 64) mod 64"

definition rfc_padded :: "bytes \<Rightarrow> u32 list" where
  "rfc_padded m =
     rfc_words (m @ 0x80 # replicate (rfc_zeros (length m)) 0) @
     [of_nat (8 * length m div 2 ^ 32), of_nat (8 * length m)]"

function rfc_blocks :: "abcde \<Rightarrow> u32 list \<Rightarrow> abcde" where
  "rfc_blocks H M = (if length M < 16 then H else rfc_blocks (rfc_block H (take 16 M)) (drop 16 M))"
  by pat_completeness auto
termination
  by (relation "measure (\<lambda>(H, M). length M)") auto

declare rfc_blocks.simps [simp del]

definition rfc_init :: abcde where
  "rfc_init = (0x67452301, 0xEFCDAB89, 0x98BADCFE, 0x10325476, 0xC3D2E1F0)"

definition rfc_octets :: "u32 \<Rightarrow> bytes" where
  "rfc_octets w = [ucast (drop_bit 24 w), ucast (drop_bit 16 w), ucast (drop_bit 8 w), ucast w]"

definition rfc3174 :: "bytes \<Rightarrow> bytes" where
  "rfc3174 m =
     (case rfc_blocks rfc_init (rfc_padded m) of
        (H0, H1, H2, H3, H4) \<Rightarrow> concat (map rfc_octets [H0, H1, H2, H3, H4]))"

section \<open>The rounds are those of the RFC\<close>

lemma rotl_index: "n < 32 \<Longrightarrow> bits < 32 \<Longrightarrow>
    (n + 32 - bits) mod 32 = (if bits \<le> n then n - bits else n + 32 - (bits :: nat))"
  by (cases "bits \<le> n") (simp_all add: Nat.add_diff_assoc2 mod_if)

lemma rol_rotl:
  assumes "bits < 32"
  shows "rol v bits = word_rotl bits v"
proof (rule bit_word_eqI)
  fix n assume "n < LENGTH(32)"
  then have n: "n < 32" by simp
  then have "bit (word_rotl bits v) n = bit v (if bits \<le> n then n - bits else n + 32 - bits)"
    using assms by (simp add: bit_simps word_rotl_eq_word_rotr rotl_index Nat.add_diff_assoc less_imp_le)
  moreover have "\<not> bit v m" if "32 \<le> m" for m
    using that bit_imp_le_length [of v m] by auto
  ultimately show "bit (rol v bits) n = bit (word_rotl bits v) n"
    using n assms by (auto simp: rol_def bit_simps add.commute [of 32])
qed

lemma rfc_f_rounds:
  "t < 20 \<Longrightarrow> rfc_f t B C D = (B AND (C XOR D)) XOR D"
  "20 \<le> t \<Longrightarrow> t < 40 \<Longrightarrow> rfc_f t B C D = B XOR C XOR D"
  "40 \<le> t \<Longrightarrow> t < 60 \<Longrightarrow> rfc_f t B C D = ((B OR C) AND D) OR (B AND C)"
  "60 \<le> t \<Longrightarrow> rfc_f t B C D = B XOR C XOR D"
  by (auto simp: rfc_f_def bit_simps intro!: bit_word_eqI)

definition reg_of :: "nat \<Rightarrow> nat \<Rightarrow> reg" where
  "reg_of t k = [Reg_a, Reg_b, Reg_c, Reg_d, Reg_e] ! ((k + 4 * t) mod 5)"

definition round_of :: "nat \<Rightarrow> round" where
  "round_of t = (if t < 16 then R0 else if t < 20 then R1 else if t < 40 then R2
     else if t < 60 then R3 else R4)"

definition call_of :: "nat \<Rightarrow> call" where
  "call_of t =
     (round_of t, reg_of t 0, reg_of t 1, reg_of t 2, reg_of t 3, reg_of t 4, t mod 16)"

lemma transform_calls_rotate: "transform_calls = map call_of [0..<80]"
  by (simp add: transform_calls_def call_of_def reg_of_def round_of_def upt_rec)


definition regs_hold :: "nat \<Rightarrow> regs \<Rightarrow> abcde \<Rightarrow> bool" where
  "regs_hold t r = (\<lambda>(A, B, C, D, E).
     reg_get r (reg_of t 0) = A \<and> reg_get r (reg_of t 1) = B \<and> reg_get r (reg_of t 2) = C \<and>
     reg_get r (reg_of t 3) = D \<and> reg_get r (reg_of t 4) = E)"

lemma reg_of_mod: "reg_of t k = reg_of (t mod 5) k"
  by (simp add: reg_of_def mod_simps mod_mult_right_eq add_mult_distrib2) (metis mod_add_right_eq mod_mult_right_eq)

lemma regs_hold_Suc:
  assumes "regs_hold t r (A, B, C, D, E)"
  shows "regs_hold (Suc t) (reg_put (reg_of t 4) z (reg_put (reg_of t 1) w r)) (z, A, w, C, D)"
proof -
  have "Suc t mod 5 = Suc (t mod 5) mod 5" by (simp add: mod_Suc_eq)
  moreover have "t mod 5 \<in> {0, 1, 2, 3, 4}" by auto
  ultimately show ?thesis
    using assms unfolding regs_hold_def reg_of_mod [of t] reg_of_mod [of "Suc t"]
    by (auto simp: reg_of_def)
qed

lemma length_rfc_extend [simp]: "length (rfc_extend n W) = length W + n"
  by (induction n arbitrary: W) (simp_all add: Let_def)

lemma rfc_extend_old: "i < length W \<Longrightarrow> rfc_extend n W ! i = W ! i"
  by (induction n arbitrary: W) (simp_all add: Let_def nth_append)

lemma rfc_extend_new:
  "16 \<le> length W \<Longrightarrow> length W \<le> t \<Longrightarrow> t < length W + n \<Longrightarrow>
     rfc_extend n W ! t = word_rotl 1 (rfc_extend n W ! (t - 3) XOR rfc_extend n W ! (t - 8) XOR
       rfc_extend n W ! (t - 14) XOR rfc_extend n W ! (t - 16))"
proof (induction n arbitrary: W)
  case (Suc n)
  show ?case
  proof (cases "t = length W")
    case True
    with Suc.prems show ?thesis
      by (simp add: Let_def rfc_extend_old nth_append)
  next
    case False
    with Suc.prems show ?thesis by (simp add: Let_def Suc.IH)
  qed
qed simp

definition ring :: "u32 list \<Rightarrow> nat \<Rightarrow> block \<Rightarrow> bool" where
  "ring W t block \<longleftrightarrow>
     length block = 16 \<and> (\<forall>i < max t 16. t \<le> i + 16 \<longrightarrow> block ! (i mod 16) = W ! i)"

lemma ringD: "ring W t block \<Longrightarrow> i < max t 16 \<Longrightarrow> t \<le> i + 16 \<Longrightarrow> block ! (i mod 16) = W ! i"
  by (simp add: ring_def)

lemma ring_same: "ring W t block \<Longrightarrow> t < 16 \<Longrightarrow> ring W (Suc t) block"
  by (simp add: ring_def)

lemma blk_next:
  assumes "ring (rfc_W M) t block" "length M = 16" "16 \<le> t" "t < 80"
  shows "blk block (t mod 16) = rfc_W M ! t"
proof -
  have "block ! ((t mod 16 + j) mod 16) = rfc_W M ! (t - (16 - j))" if "j < 16" for j
  proof -
    have "(t mod 16 + j) mod 16 = (t + j) mod 16" by (simp add: mod_simps)
    also have "\<dots> = (t - (16 - j)) mod 16"
      using that assms(3) by (metis Nat.diff_add_assoc2 add.commute diff_diff_right le_trans less_imp_le mod_add_self2 le_add_diff_inverse2 diff_le_self add_diff_cancel_right')
    finally show ?thesis
      using ringD [OF assms(1), of "t - (16 - j)"] that assms(3) by simp
  qed
  from this [of 13] this [of 8] this [of 2] this [of 0] show ?thesis
    using assms(2-4) rfc_extend_new [of M t 64]
    by (simp add: blk_def rol_rotl rfc_W_def)
qed


lemma ring_next:
  assumes "ring (rfc_W M) t block" "length M = 16" "16 \<le> t" "t < 80"
  shows "ring (rfc_W M) (Suc t) (block[t mod 16 := blk block (t mod 16)])"
    and "block[t mod 16 := blk block (t mod 16)] ! (t mod 16) = rfc_W M ! t"
proof -
  have len: "length block = 16" using assms(1) by (simp add: ring_def)
  have apart: "i mod 16 \<noteq> t mod 16" if "i < t" "Suc t \<le> i + 16" for i
  proof
    assume "i mod 16 = t mod 16"
    then have "16 dvd t - i" using that(1) mod_eq_dvd_iff_nat [of i t 16] by simp
    then show False using that nat_dvd_not_less [of "t - i" 16] by simp
  qed
  have "block[t mod 16 := blk block (t mod 16)] ! (i mod 16) = rfc_W M ! i"
    if "i < Suc t" "Suc t \<le> i + 16" for i
  proof (cases "i = t")
    case True
    then show ?thesis using blk_next [OF assms] len by simp
  next
    case False
    with that apart [of i] ringD [OF assms(1), of i] show ?thesis by simp
  qed
  then show "ring (rfc_W M) (Suc t) (block[t mod 16 := blk block (t mod 16)])"
    using len assms(3) by (simp add: ring_def)
  show "block[t mod 16 := blk block (t mod 16)] ! (t mod 16) = rfc_W M ! t"
    using blk_next [OF assms] len by simp
qed

lemmas round_defs = R0_def R1_def R2_def R3_def R4_def

lemma transform_step:
  assumes "ring (rfc_W M) t block" "regs_hold t r s" "length M = 16" "t < 80"
  obtains block' r' where "call_round (call_of t) (block, r) = (block', r')"
    "ring (rfc_W M) (Suc t) block'" "regs_hold (Suc t) r' (rfc_step (rfc_W M) t s)"
proof -
  obtain A B C D E where s: "s = (A, B, C, D, E)" by (cases s)
  define block' where
    "block' = (if t < 16 then block else block[t mod 16 := blk block (t mod 16)])"
  have ring': "ring (rfc_W M) (Suc t) block'" and new: "block' ! (t mod 16) = rfc_W M ! t"
    using ring_next [OF assms(1,3) _ assms(4)] ring_same [OF assms(1)] ringD [OF assms(1), of t]
    by (simp_all add: block'_def split: if_splits)
  have regs: "reg_get r (reg_of t 0) = A" "reg_get r (reg_of t 1) = B" "reg_get r (reg_of t 2) = C"
      "reg_get r (reg_of t 3) = D" "reg_get r (reg_of t 4) = E"
    using assms(2) by (simp_all add: regs_hold_def s)
  have round: "round_of t block A B C D E (t mod 16) =
      (block', word_rotl 30 B, word_rotl 5 A + rfc_f t B C D + E + rfc_W M ! t + rfc_K t)"
    using new
    by (simp add: round_of_def round_defs block'_def rol_rotl rfc_f_rounds rfc_K_def not_less
        Let_def ac_simps split: if_splits)
  show ?thesis
    using ring' regs_hold_Suc [OF assms(2) [unfolded s]]
    by (intro that) (simp_all add: call_of_def regs round s del: One_nat_def)
qed

lemma transform_steps:
  assumes "length M = 16" "regs_hold 0 r s" "n \<le> 80"
  shows "\<exists>block r'. fold call_round (map call_of [0..<n]) (M, r) = (block, r') \<and>
    ring (rfc_W M) n block \<and> regs_hold n r' (fold (rfc_step (rfc_W M)) [0..<n] s)"
  using assms(3)
proof (induction n)
  case 0
  have "ring (rfc_W M) 0 M"
    using assms(1) by (simp add: ring_def rfc_W_def rfc_extend_old)
  then show ?case using assms(2) by simp
next
  case (Suc n)
  then obtain block r' where IH: "fold call_round (map call_of [0..<n]) (M, r) = (block, r')"
      "ring (rfc_W M) n block" "regs_hold n r' (fold (rfc_step (rfc_W M)) [0..<n] s)"
    by auto
  from Suc.prems have "n < 80" by simp
  from transform_step [OF IH(2,3) assms(1) this] obtain block2 r2 where
    "call_round (call_of n) (block, r') = (block2, r2)" "ring (rfc_W M) (Suc n) block2"
    "regs_hold (Suc n) r2 (rfc_step (rfc_W M) n (fold (rfc_step (rfc_W M)) [0..<n] s))" .
  then show ?case using IH(1) by simp
qed

definition digest_of :: "u32 list \<Rightarrow> abcde" where
  "digest_of h = (h ! 0, h ! 1, h ! 2, h ! 3, h ! 4)"

lemma transform_rfc:
  assumes "length block = 16"
  shows "digest_of (fst (transform h block)) = rfc_block (digest_of h) block"
    and "length (fst (transform h block)) = 5" and "length (snd (transform h block)) = 16"
proof -
  define r where "r = \<lparr>r_a = h ! 0, r_b = h ! 1, r_c = h ! 2, r_d = h ! 3, r_e = h ! 4\<rparr>"
  have "regs_hold 0 r (digest_of h)"
    by (simp add: regs_hold_def digest_of_def r_def reg_of_def)
  from transform_steps [OF assms this order.refl] obtain block' r' where
    run: "fold call_round transform_calls (block, r) = (block', r')"
      "ring (rfc_W block) 80 block'" "regs_hold 80 r' (fold (rfc_step (rfc_W block)) [0..<80] (digest_of h))"
    unfolding transform_calls_rotate by blast
  have res: "transform h block = ([h ! 0 + r_a r', h ! 1 + r_b r', h ! 2 + r_c r', h ! 3 + r_d r',
      h ! 4 + r_e r'], block')"
    unfolding transform_def r_def [symmetric] Let_def run(1) by simp
  show "length (fst (transform h block)) = 5" by (simp add: res)
  from run(2) show "length (snd (transform h block)) = 16" by (simp add: res ring_def)
  from run(3) show "digest_of (fst (transform h block)) = rfc_block (digest_of h) block"
    by (simp add: res digest_of_def regs_hold_def reg_of_def split: prod.splits)
qed


section \<open>Octets and words\<close>

lemma horner_or:
  fixes a b c d :: u8
  shows "ucast d OR push_bit 8 (ucast c) OR push_bit 16 (ucast b) OR push_bit 24 (ucast a) =
    ((ucast a * 256 + ucast b) * 256 + ucast c) * 256 + (ucast d :: u32)"
proof -
  have small: "\<not> bit x n" if "8 \<le> n" for x :: u8 and n
    using that bit_imp_le_length [of x n] by auto
  have shift: "y * 256 + ucast x = push_bit 8 y OR ucast x" for x :: u8 and y :: u32
  proof -
    have "push_bit 8 y AND ucast x = 0"
      by (rule bit_word_eqI) (auto simp: bit_simps small)
    then have "push_bit 8 y OR ucast x = push_bit 8 y + (ucast x :: u32)"
      using word_plus_and_or [of "push_bit 8 y" "ucast x"] by simp
    then show ?thesis by (simp add: push_bit_eq_mult)
  qed
  show ?thesis
    unfolding shift
    by (rule bit_word_eqI) (auto simp: bit_simps small)
qed

lemma length_rfc_words: "length (rfc_words xs) = length xs div 4"
  by (induction xs rule: rfc_words.induct) simp_all

lemma rfc_words_append: "4 dvd length xs \<Longrightarrow> rfc_words (xs @ ys) = rfc_words xs @ rfc_words ys"
proof (induction xs rule: rfc_words.induct)
  case (1 a b c d xs)
  then have "4 dvd length xs" by simp presburger
  with 1 show ?case by simp
qed (simp; presburger)+

lemma nth_rfc_words:
  "4 * i + 3 < length xs \<Longrightarrow> rfc_words xs ! i =
     ((ucast (xs ! (4 * i)) * 256 + ucast (xs ! (4 * i + 1))) * 256 + ucast (xs ! (4 * i + 2))) * 256 +
     ucast (xs ! (4 * i + 3))"
proof (induction xs arbitrary: i rule: rfc_words.induct)
  case (1 a b c d xs)
  then show ?case by (cases i) (simp_all add: add.commute [of 3])
qed simp_all

lemma make_block_words: "length p = 64 \<Longrightarrow> make_block p = rfc_words p"
  by (rule nth_equalityI)
    (auto simp: make_block_def BLOCK_INTS_def length_rfc_words nth_rfc_words horner_or)

lemma length_make_block [simp]: "length (make_block p) = 16"
  by (simp add: make_block_def BLOCK_INTS_def)

lemma rfc_blocks_short: "length M < 16 \<Longrightarrow> rfc_blocks H M = H"
  by (simp add: rfc_blocks.simps)

lemma rfc_blocks_one: "length M = 16 \<Longrightarrow> rfc_blocks H (M @ Ms) = rfc_blocks (rfc_block H M) Ms"
  by (subst rfc_blocks.simps) simp

lemma rfc_blocks_append:
  "16 dvd length M \<Longrightarrow> rfc_blocks H (M @ Ms) = rfc_blocks (rfc_blocks H M) Ms"
proof (induction H M rule: rfc_blocks.induct)
  case (1 H M)
  show ?case
  proof (cases "length M < 16")
    case True
    with 1(2) have "M = []" by (auto elim!: dvdE)
    then show ?thesis by (simp add: rfc_blocks_short)
  next
    case False
    then have "16 dvd length (drop 16 M)" using 1(2) by (simp add: dvd_diff_nat)
    from 1(1) [OF False this] False show ?thesis
      by (simp add: rfc_blocks.simps [of H "M @ Ms"] rfc_blocks.simps [of H M])
  qed
qed

section \<open>update\<close>

text \<open>The context after the text \<open>m\<close>: the digest of its full blocks, the rest in \<open>buf\<close>.\<close>

definition full_octets :: "bytes \<Rightarrow> nat" where
  "full_octets m = 64 * (length m div 64)"

definition sha1_holds :: "sha1_context \<Rightarrow> bytes \<Rightarrow> bool" where
  "sha1_holds ctx m \<longleftrightarrow>
     length (sc_buf ctx) = 64 \<and> length (sc_digest ctx) = 5 \<and>
     sc_buflen ctx = length m mod 64 \<and> sc_blocks ctx = of_nat (length m div 64) \<and>
     take (sc_buflen ctx) (sc_buf ctx) = drop (full_octets m) m \<and>
     digest_of (sc_digest ctx) = rfc_blocks rfc_init (rfc_words (take (full_octets m) m))"

lemma sha1_init_holds: "length (sc_buf ctx) = 64 \<Longrightarrow> sha1_holds (sha1_init ctx) []"
  by (simp add: sha1_holds_def sha1_init_def full_octets_def rfc_blocks_short digest_of_def rfc_init_def)

lemma full_octets_take: "full_octets m + length m mod 64 = length m" "64 dvd full_octets m"
    "full_octets m \<le> length m"
  by (simp_all add: full_octets_def)

lemma sha1_holds_short:
  assumes "sha1_holds ctx m" "sc_buflen ctx + length p < 64"
  shows "sha1_holds (ctx\<lparr>sc_buf := memcpy_at (sc_buf ctx) (sc_buflen ctx) p,
    sc_buflen := sc_buflen ctx + length p\<rparr>) (m @ p)"
proof -
  have len: "length m mod 64 + length p < 64" using assms by (simp add: sha1_holds_def)
  have "length (m @ p) = length m mod 64 + length p + 64 * (length m div 64)"
    by simp
  with len have "length (m @ p) div 64 = length m div 64"
    and "length (m @ p) mod 64 = length m mod 64 + length p"
    by (simp_all only: div_mult_self2 mod_mult_self2 div_less mod_less)
  then show ?thesis
    using assms full_octets_take(3) [of m]
    by (auto simp: sha1_holds_def full_octets_def memcpy_at_def)
qed


lemma sha1_holds_full:
  assumes "sha1_holds ctx m" "sc_buflen ctx + length p = 64"
  shows "sha1_holds (ctx\<lparr>sc_buf := memcpy_at (sc_buf ctx) (sc_buflen ctx) p, sc_buflen := 0,
    sc_digest := fst (transform (sc_digest ctx) (make_block (memcpy_at (sc_buf ctx) (sc_buflen ctx) p))),
    sc_blocks := sc_blocks ctx + 1\<rparr>) (m @ p)"
proof -
  define block where "block = drop (full_octets m) m @ p"
  have len: "length m mod 64 + length p = 64" and digest: "length (sc_digest ctx) = 5"
    using assms by (simp_all add: sha1_holds_def)
  have "length (m @ p) = length m mod 64 + length p + 64 * (length m div 64)" by simp
  with len have total: "length (m @ p) = 64 * Suc (length m div 64)" by simp
  then have dm: "length (m @ p) div 64 = Suc (length m div 64)" "length (m @ p) mod 64 = 0"
    "full_octets (m @ p) = length (m @ p)"
    by (simp_all only: full_octets_def nonzero_mult_div_cancel_left mod_mult_self1_is_0)
  have bl: "length block = 64" and buf: "memcpy_at (sc_buf ctx) (sc_buflen ctx) p = block"
    using assms full_octets_take(1) [of m] by (auto simp: block_def memcpy_at_def sha1_holds_def)
  have mp: "m @ p = take (full_octets m) m @ block" by (simp add: block_def)
  have "rfc_words (m @ p) = rfc_words (take (full_octets m) m) @ make_block block"
    unfolding mp
    by (simp add: make_block_words bl full_octets_def rfc_words_append)
  then have "rfc_blocks rfc_init (rfc_words (m @ p)) =
      rfc_block (rfc_blocks rfc_init (rfc_words (take (full_octets m) m))) (make_block block)"
    using rfc_blocks_one [of "make_block block" _ "[]"] full_octets_take(3) [of m]
    by (simp add: rfc_blocks_append length_rfc_words full_octets_def rfc_blocks_short)
  then show ?thesis
    using assms(1) unfolding sha1_holds_def buf dm
    by (simp add: transform_rfc bl)
qed

lemma sha1_update_holds: "sha1_holds ctx m \<Longrightarrow> sha1_holds (sha1_update ctx p) (m @ p)"
proof (induction ctx p arbitrary: m rule: sha1_update.induct)
  case (1 ctx p)
  have less: "sc_buflen ctx < 64" using 1(2) by (simp add: sha1_holds_def)
  show ?case
  proof (cases "length p < 64 - sc_buflen ctx")
    case True
    then have "sc_buflen ctx + length p \<noteq> 64" "sc_buflen ctx + length p < 64" by simp_all
    with True sha1_holds_short [OF 1(2), of p] show ?thesis
      by (subst sha1_update.simps) (simp add: BLOCK_BYTES_def min_def Let_def)
  next
    case False
    define n where "n = 64 - sc_buflen ctx"
    have n: "min (length p) (BLOCK_BYTES - sc_buflen ctx) = n" "sc_buflen ctx + n = 64" "n \<le> length p"
      using False less by (auto simp: n_def BLOCK_BYTES_def)
    from n sha1_holds_full [OF 1(2), of "take n p"]
    have "sha1_holds (ctx\<lparr>sc_buf := memcpy_at (sc_buf ctx) (sc_buflen ctx) (take n p), sc_buflen := 0,
        sc_digest := fst (transform (sc_digest ctx)
          (make_block (memcpy_at (sc_buf ctx) (sc_buflen ctx) (take n p)))),
        sc_blocks := sc_blocks ctx + 1\<rparr>) (m @ take n p)" by simp
    moreover note 1(1) [OF refl refl, of "m @ take n p", unfolded n(1)]
    ultimately show ?thesis
      using n(2,3) by (subst sha1_update.simps) (simp add: Let_def n(1))
  qed
qed


section \<open>finish\<close>

lemma ucast_ff: "ucast (w AND 0xff) = (ucast (w :: u32) :: u8)"
proof -
  have "(0xff :: u32) = mask 8" by (simp add: mask_eq_exp_minus_1)
  show ?thesis unfolding \<open>0xff = mask 8\<close> by (rule bit_word_eqI) (simp add: bit_simps)
qed

lemma low_word: "ucast ((of_nat n :: u64) AND 0xffffffff) = (of_nat n :: u32)"
proof -
  have "(0xffffffff :: u64) = mask 32" by (simp add: mask_eq_exp_minus_1)
  show ?thesis unfolding \<open>0xffffffff = mask 32\<close> by (rule bit_word_eqI) (simp add: bit_simps)
qed

lemma high_word: "ucast (drop_bit 32 (of_nat n :: u64)) = (of_nat (n div 2 ^ 32) :: u32)"
  unfolding drop_bit_eq_div [symmetric]
  by (rule bit_word_eqI) (simp add: bit_simps)

lemma total_bits_holds:
  assumes "sha1_holds ctx m"
  shows "sha1_total_bits ctx = of_nat (8 * length m)"
proof -
  define q r where "q = length m div 64" "r = length m mod 64"
  then have m: "length m = 64 * q + r" by simp
  have "sha1_total_bits ctx = (of_nat q * 64 + of_nat r) * 8"
    using assms by (simp add: sha1_total_bits_def sha1_holds_def q_r_def)
  then show ?thesis by (simp add: m algebra_simps)
qed

lemma rfc_words_zeros: "rfc_words (replicate (4 * n) 0) = replicate n 0"
  by (induction n) (simp_all add: eval_nat_numeral)

text \<open>The last blocks: what \<open>finish\<close> passes to \<open>transform\<close> is the padding of the RFC.\<close>

lemma rfc_padded_split:
  "rfc_padded m = rfc_words (take (full_octets m) m) @
     rfc_words (drop (full_octets m) m @ 0x80 # replicate (rfc_zeros (length m)) 0) @
     [of_nat (8 * length m div 2 ^ 32), of_nat (8 * length m)]"
proof -
  have "4 dvd length (take (full_octets m) m)"
    using full_octets_take(3) [of m] by (simp add: full_octets_def)
  from rfc_words_append [OF this, of "drop (full_octets m) m @ 0x80 # replicate (rfc_zeros (length m)) 0"]
  show ?thesis unfolding rfc_padded_def append.assoc [symmetric] by (simp only: append_take_drop_id)
qed

lemma rfc_zeros_short: "l mod 64 < 56 \<Longrightarrow> rfc_zeros l = 55 - l mod 64"
proof -
  assume r: "l mod 64 < 56"
  then have "119 - l mod 64 = (55 - l mod 64) + 64" by simp
  then show ?thesis unfolding rfc_zeros_def by (simp only: mod_add_self2) simp
qed

lemma rfc_zeros_long: "56 \<le> l mod 64 \<Longrightarrow> rfc_zeros l = 119 - l mod 64"
  by (simp add: rfc_zeros_def)

lemma padded_blocks:
  assumes "sha1_holds ctx m"
  defines "lens \<equiv> [of_nat (8 * length m div 2 ^ 32), of_nat (8 * length m)]"
  shows "sc_buflen ctx < 56 \<Longrightarrow> rfc_padded m = rfc_words (take (full_octets m) m) @
      (take 14 (make_block (sha1_pad ctx)) @ lens)"
    and "56 \<le> sc_buflen ctx \<Longrightarrow> rfc_padded m = rfc_words (take (full_octets m) m) @
      make_block (sha1_pad ctx) @ (replicate 14 0 @ lens)"
proof -
  let ?r = "sc_buflen ctx"
  have r: "?r = length m mod 64" and l: "length (sc_buf ctx) = 64"
      and buf: "take ?r (sc_buf ctx) = drop (full_octets m) m"
    using assms(1) unfolding sha1_holds_def by blast+
  then have r64: "?r < 64" by simp
  have rl: "length (drop (full_octets m) m) = ?r" by (simp add: r full_octets_def minus_mult_div_eq_mod)
  have pad: "sha1_pad ctx = drop (full_octets m) m @ 0x80 # replicate (63 - ?r) 0"
    by (simp add: sha1_pad_def BLOCK_BYTES_def buf)
  have pl: "length (sha1_pad ctx) = 64" using pad rl r64 by simp
  {
    assume short: "?r < 56"
    define t where "t = drop (full_octets m) m @ 0x80 # replicate (55 - ?r) 0"
    have z: "rfc_zeros (length m) = 55 - ?r"
      by (simp add: rfc_zeros_short r [symmetric] short)
    have "63 - ?r = (55 - ?r) + 4 * 2" using short by simp
    then have "replicate (63 - ?r) 0 = replicate (55 - ?r) 0 @ replicate (4 * 2) (0 :: u8)"
      by (simp only: replicate_add)
    then have tp: "sha1_pad ctx = t @ replicate (4 * 2) 0" by (simp add: pad t_def)
    have tl: "length t = 56" using rl short by (simp add: t_def)
    have "rfc_words (sha1_pad ctx) = rfc_words t @ replicate 2 0"
      unfolding tp rfc_words_zeros [symmetric] by (rule rfc_words_append) (simp add: tl)
    then have "rfc_words t = take 14 (make_block (sha1_pad ctx))"
      by (simp add: make_block_words [OF pl] length_rfc_words tl)
    then show "rfc_padded m = rfc_words (take (full_octets m) m) @
        (take 14 (make_block (sha1_pad ctx)) @ lens)"
      by (simp add: rfc_padded_split lens_def t_def z)
  next
    assume long: "56 \<le> ?r"
    have z: "rfc_zeros (length m) = (63 - ?r) + 4 * 14"
      using long r64 by (simp add: rfc_zeros_long r [symmetric])
    have "replicate (rfc_zeros (length m)) 0 = replicate (63 - ?r) 0 @ replicate (4 * 14) (0 :: u8)"
      unfolding z by (rule replicate_add)
    then have "drop (full_octets m) m @ 0x80 # replicate (rfc_zeros (length m)) 0 =
        sha1_pad ctx @ replicate (4 * 14) 0"
      by (simp add: pad)
    moreover have "rfc_words (sha1_pad ctx @ replicate (4 * 14) 0) =
        make_block (sha1_pad ctx) @ replicate 14 0"
      by (simp only: make_block_words [OF pl] rfc_words_zeros [symmetric])
        (rule rfc_words_append, simp add: pl)
    ultimately show "rfc_padded m = rfc_words (take (full_octets m) m) @
        make_block (sha1_pad ctx) @ (replicate 14 0 @ lens)"
      by (simp add: rfc_padded_split lens_def)
  }
qed


lemma length_5_digest: "length h = 5 \<Longrightarrow> \<exists>a b c d e. h = [a, b, c, d, e]"
  by (auto simp: length_Suc_conv eval_nat_numeral)

lemma digest_octets:
  assumes "length h = 5" "digest_of h = (H0, H1, H2, H3, H4)"
  shows "concat (map (\<lambda>d. [ucast (drop_bit 24 d AND 0xff), ucast (drop_bit 16 d AND 0xff),
      ucast (drop_bit 8 d AND 0xff), ucast (d AND 0xff)]) h) =
    concat (map rfc_octets [H0, H1, H2, H3, H4])"
proof -
  obtain a b c d e where "h = [a, b, c, d, e]" using length_5_digest [OF assms(1)] by auto
  then show ?thesis using assms(2) by (simp add: digest_of_def rfc_octets_def ucast_ff)
qed

lemma put_lens: "length block = 16 \<Longrightarrow> block[15 := y, 14 := x] = take 14 block @ [x, y]"
  by (auto simp: length_Suc_conv eval_nat_numeral)

lemma sha1_finish_holds:
  assumes "sha1_holds ctx m"
  shows "sha1_finish ctx = rfc3174 m"
proof -
  let ?hi = "of_nat (8 * length m div 2 ^ 32) :: u32" and ?lo = "of_nat (8 * length m) :: u32"
  let ?h = "rfc_blocks rfc_init (rfc_words (take (full_octets m) m))"
  let ?block = "make_block (sha1_pad ctx)"
  have digest: "digest_of (sc_digest ctx) = ?h" "length (sc_digest ctx) = 5"
    using assms by (simp_all add: sha1_holds_def)
  have lens: "ucast (sha1_total_bits ctx AND 0xffffffff) = ?lo" "ucast (drop_bit 32 (sha1_total_bits ctx)) = ?hi"
    unfolding total_bits_holds [OF assms] by (rule low_word, rule high_word)
  have split: "rfc_blocks rfc_init (rfc_words (take (full_octets m) m) @ M) = rfc_blocks ?h M" for M
    using full_octets_take(3) [of m]
    by (simp add: rfc_blocks_append length_rfc_words full_octets_def)
  define h where "h = (if 56 \<le> sc_buflen ctx then fst (transform (sc_digest ctx) ?block) else sc_digest ctx)"
  define M where "M = (if 56 \<le> sc_buflen ctx then replicate 14 0 else take 14 ?block) @ [?hi, ?lo]"
  have hl: "length h = 5" by (simp add: h_def digest transform_rfc)
  have ml: "length M = 16" by (simp add: M_def)
  have "rfc_blocks rfc_init (rfc_padded m) = rfc_block (digest_of h) M"
    using rfc_blocks_one [OF ml, of "digest_of h" "[]"] rfc_blocks_one [of ?block ?h M] padded_blocks [OF assms]
    by (simp add: split h_def M_def digest transform_rfc rfc_blocks_short split: if_splits)
  moreover obtain h' block' where tr: "transform (sc_digest ctx) ?block = (h', block')" "length block' = 16"
    using transform_rfc(3) [of ?block] by (cases "transform (sc_digest ctx) ?block") (metis length_make_block snd_conv)
  have "sha1_finish ctx = concat (map (\<lambda>d. [ucast (drop_bit 24 d AND 0xff),
      ucast (drop_bit 16 d AND 0xff), ucast (drop_bit 8 d AND 0xff), ucast (d AND 0xff)])
      (fst (transform h M)))"
    by (simp add: sha1_finish_def BLOCK_BYTES_def BLOCK_INTS_def lens put_lens h_def M_def tr
        Let_def)
  ultimately show ?thesis
    using digest_octets [OF transform_rfc(2) [OF ml]] transform_rfc(1) [OF ml, of h]
    by (simp add: rfc3174_def split: prod.split)
qed

text \<open>C25: The digest of a text that is given to \<open>update\<close> in any pieces is the SHA-1 of RFC 3174
  of the text, whatever the buffer of the context held before \<open>init\<close>. The 80 calls of
  \<open>transform\<close>, which permute the registers instead of moving them and keep 16 words of the
  schedule in a ring, are the loop of the RFC.\<close>

theorem sha1_digest:
  assumes "length (sc_buf ctx) = 64"
  shows "sha1_finish (fold (\<lambda>p ctx. sha1_update ctx p) pieces (sha1_init ctx)) = rfc3174 (concat pieces)"
proof -
  have "sha1_holds (fold (\<lambda>p ctx. sha1_update ctx p) ps c) (m @ concat ps)" if "sha1_holds c m" for ps c m
    using that
  proof (induction ps arbitrary: c m)
    case (Cons p ps)
    from Cons.IH [OF sha1_update_holds [OF Cons.prems]] show ?case by simp
  qed simp
  from sha1_finish_holds [OF this [OF sha1_init_holds [OF assms]]] show ?thesis by simp
qed


theorem sha1_digest_witness:
  "sha1_finish (fold (\<lambda>p ctx. sha1_update ctx p) [[0x61], [0x62, 0x63]]
     (sha1_init \<lparr>sc_buflen = 7, sc_blocks = 9, sc_digest = [], sc_buf = replicate 64 1\<rparr>)) =
     rfc3174 [0x61, 0x62, 0x63]"
  using sha1_digest [of "\<lparr>sc_buflen = 7, sc_blocks = 9, sc_digest = [], sc_buf = replicate 64 1\<rparr>"
      "[[0x61], [0x62, 0x63]]"] by simp

end
