(* ===== verification/Core_Buffers.thy ===== *)
theory Core_Buffers
  imports Prelude
begin

text \<open>
  Dynamic buffers: \<open>static_buffer\<close> and \<open>basic_flat_buffer\<close>
  (\<open>include/beast/core/static_buffer.hpp\<close>, \<open>flat_buffer.hpp\<close> and their \<open>impl\<close> files), and
  the DynamicBuffer concept the templates of the library rely on, as a locale that both
  implement. A block of memory is the list of its octets and the pointers into it are
  offsets. Sizes are natural numbers: the classes never compute a size above \<open>max_size\<close>.
\<close>

section \<open>The DynamicBuffer concept\<close>

text \<open>
  The operations a template uses of its parameter \<open>DynamicBuffer\<close>: \<open>data\<close>, the readable
  buffers; \<open>prepare\<close>, which makes room for \<open>n\<close> octets or throws \<open>std::length_error\<close>; storing
  octets through the buffers \<open>prepare\<close> returned; \<open>commit\<close> and \<open>consume\<close>.
\<close>

datatype length_error = Length_error

record 'b dynbuf =
  db_data :: "'b \<Rightarrow> bytes list"
  db_prepare :: "nat \<Rightarrow> 'b \<Rightarrow> (length_error, 'b) outcome"
  db_store :: "bytes \<Rightarrow> 'b \<Rightarrow> 'b"
  db_commit :: "nat \<Rightarrow> 'b \<Rightarrow> 'b"
  db_consume :: "nat \<Rightarrow> 'b \<Rightarrow> 'b"

definition db_contents :: "'b dynbuf \<Rightarrow> 'b \<Rightarrow> bytes" where
  "db_contents db b = concat (db_data db b)"

text \<open>The idiom \<open>db.commit(buffer_copy(db.prepare(n), src))\<close>.\<close>

definition db_append :: "'b dynbuf \<Rightarrow> bytes \<Rightarrow> 'b \<Rightarrow> (length_error, 'b) outcome" where
  "db_append db xs b =
     ob (db_prepare db (length xs) b) (\<lambda>b. Ok (db_commit db (length xs) (db_store db xs b)))"

fun db_append_all :: "'b dynbuf \<Rightarrow> bytes list \<Rightarrow> 'b \<Rightarrow> (length_error, 'b) outcome" where
  "db_append_all db [] b = Ok b"
| "db_append_all db (x # xs) b = ob (db_append db x b) (db_append_all db xs)"

text \<open>
  Sequences of calls: \<open>Put n xs\<close> prepares \<open>n\<close> octets, or more if \<open>xs\<close> has more, writes \<open>xs\<close> there and
  commits it; \<open>Take n\<close> consumes. \<open>calls_need\<close> is the most a sequence needs to have room for.
\<close>

datatype buffer_call = Put nat bytes | Take nat

fun db_run :: "'b dynbuf \<Rightarrow> buffer_call list \<Rightarrow> 'b \<Rightarrow> (length_error, 'b) outcome" where
  "db_run db [] b = Ok b"
| "db_run db (Put n ys # xs) b =
     ob (db_prepare db (max n (length ys)) b) (\<lambda>b. db_run db xs (db_commit db (length ys) (db_store db ys b)))"
| "db_run db (Take n # xs) b = db_run db xs (db_consume db n b)"

fun queue_calls :: "buffer_call list \<Rightarrow> bytes \<Rightarrow> bytes" where
  "queue_calls [] q = q"
| "queue_calls (Put n ys # xs) q = queue_calls xs (q @ ys)"
| "queue_calls (Take n # xs) q = queue_calls xs (drop n q)"

fun calls_need :: "buffer_call list \<Rightarrow> nat" where
  "calls_need [] = 0"
| "calls_need (Put n ys # xs) = max n (length ys + calls_need xs)"
| "calls_need (Take n # xs) = calls_need xs"

text \<open>
  The promises. \<open>inv\<close> is the invariant of the class, \<open>prepared\<close> the size of the output
  sequence, \<open>room\<close> the largest \<open>n\<close> that \<open>prepare\<close> takes.
\<close>

locale dynamic_octets =
  fixes db :: "'b dynbuf"
    and inv :: "'b \<Rightarrow> bool"
    and prepared :: "'b \<Rightarrow> nat"
    and room :: "'b \<Rightarrow> nat"
  assumes prepare_ok: "inv b \<Longrightarrow> n \<le> room b \<Longrightarrow>
      \<exists>b'. db_prepare db n b = Ok b' \<and> inv b' \<and> db_contents db b' = db_contents db b \<and>
        prepared b' = n \<and> room b' = room b"
    and store_commit: "inv b \<Longrightarrow> length xs \<le> prepared b \<Longrightarrow>
      inv (db_commit db (length xs) (db_store db xs b)) \<and>
      db_contents db (db_commit db (length xs) (db_store db xs b)) = db_contents db b @ xs \<and>
      prepared (db_commit db (length xs) (db_store db xs b)) = prepared b - length xs \<and>
      room (db_commit db (length xs) (db_store db xs b)) = room b - length xs"
    and commit_nothing: "inv b \<Longrightarrow> prepared b = 0 \<Longrightarrow> db_commit db n b = b"
    and consume: "inv b \<Longrightarrow> inv (db_consume db n b) \<and>
      db_contents db (db_consume db n b) = drop n (db_contents db b) \<and>
      room b \<le> room (db_consume db n b)"
begin

lemma append_ok:
  assumes "inv b" "length xs \<le> room b"
  obtains b' where "db_append db xs b = Ok b'" "inv b'"
    "db_contents db b' = db_contents db b @ xs" "room b' = room b - length xs" "prepared b' = 0"
proof -
  from prepare_ok [OF assms] obtain b1 where "db_prepare db (length xs) b = Ok b1" "inv b1"
    "db_contents db b1 = db_contents db b" "prepared b1 = length xs" "room b1 = room b" by blast
  with store_commit [of b1 xs] that show ?thesis by (simp add: db_append_def)
qed

lemma append_all_ok:
  "inv b \<Longrightarrow> sum_list (map length xss) \<le> room b \<Longrightarrow>
     \<exists>b'. db_append_all db xss b = Ok b' \<and> inv b' \<and> db_contents db b' = db_contents db b @ concat xss"
proof (induction xss arbitrary: b)
  case (Cons xs xss)
  then obtain b1 where "db_append db xs b = Ok b1" "inv b1" "room b1 = room b - length xs"
    "db_contents db b1 = db_contents db b @ xs"
    by (auto elim: append_ok [of b xs])
  with Cons.IH [of b1] Cons.prems show ?case by auto
qed simp

text \<open>A sequence of calls has the effect it has on a queue while there is room.\<close>

lemma run_contents:
  "inv b \<Longrightarrow> calls_need xs \<le> room b \<Longrightarrow>
     \<exists>b'. db_run db xs b = Ok b' \<and> inv b' \<and> db_contents db b' = queue_calls xs (db_contents db b)"
proof (induction xs arbitrary: b)
  case (Cons x xs)
  show ?case
  proof (cases x)
    case (Put n ys)
    let ?m = "max n (length ys)"
    have room: "?m \<le> room b" "calls_need xs + length ys \<le> room b" using Cons.prems(2) Put by auto
    from prepare_ok [OF Cons.prems(1) room(1)] obtain b1 where
      b1: "db_prepare db ?m b = Ok b1" "inv b1" "db_contents db b1 = db_contents db b" "prepared b1 = ?m" "room b1 = room b"
      by blast
    from store_commit [OF b1(2), of ys] b1 have c: "inv (db_commit db (length ys) (db_store db ys b1))"
      "db_contents db (db_commit db (length ys) (db_store db ys b1)) = db_contents db b @ ys"
      "room (db_commit db (length ys) (db_store db ys b1)) = room b - length ys" by auto
    have "calls_need xs \<le> room (db_commit db (length ys) (db_store db ys b1))" using c(3) room(2) by linarith
    from Cons.IH [OF c(1) this] c(2) b1(1) Put show ?thesis by simp
  next
    case (Take n)
    with Cons consume [OF Cons.prems(1), of n] show ?thesis by (fastforce intro: order_trans)
  qed
qed simp

end

text \<open>A buffer of limited size besides refuses what does not fit.\<close>

locale dynamic_buffer = dynamic_octets db inv prepared room
  for db :: "'b dynbuf" and inv :: "'b \<Rightarrow> bool" and prepared :: "'b \<Rightarrow> nat" and room :: "'b \<Rightarrow> nat" +
  assumes prepare_full: "inv b \<Longrightarrow> room b < n \<Longrightarrow> db_prepare db n b = Err Length_error"
begin

lemma append_full: "inv b \<Longrightarrow> room b < length xs \<Longrightarrow> db_append db xs b = Err Length_error"
  by (simp add: db_append_def prepare_full)

lemma append_iff:
  assumes "inv b"
  shows "db_append db xs b = Ok b' \<Longrightarrow>
    length xs \<le> room b \<and> inv b' \<and> db_contents db b' = db_contents db b @ xs \<and> room b' = room b - length xs"
  using append_ok [OF assms, of xs] append_full [OF assms, of xs]
  by (metis not_le outcome.distinct(1) outcome.inject(1))

lemma append_not_Oob: "inv b \<Longrightarrow> db_append db xs b \<noteq> Oob"
  by (metis append_ok append_full not_le outcome.distinct)

end

section \<open>Memory\<close>

definition poke :: "bytes \<Rightarrow> nat \<Rightarrow> bytes \<Rightarrow> bytes" where
  "poke mem i xs = take i mem @ xs @ drop (i + length xs) mem"

lemma length_poke [simp]: "i + length xs \<le> length mem \<Longrightarrow> length (poke mem i xs) = length mem"
  by (simp add: poke_def)

lemma slice_poke: "j \<le> k \<Longrightarrow> k + length xs \<le> length mem \<Longrightarrow>
    slice (poke mem k xs) j (k + length xs) = slice mem j k @ xs"
  by (cases xs) (auto simp: slice_def poke_def min_def drop_take)

lemma drop_slice [simp]: "drop n (slice mem i j) = slice mem (i + n) j"
  by (simp add: slice_def drop_take add.commute)

section \<open>static\_buffer\<close>

record static_buffer =
  sb_mem :: bytes
  sb_in :: nat
  sb_out :: nat
  sb_last :: nat

definition static_reset :: "bytes \<Rightarrow> static_buffer" where
  "static_reset mem = \<lparr>sb_mem = mem, sb_in = 0, sb_out = 0, sb_last = 0\<rparr>"

definition static_size :: "static_buffer \<Rightarrow> nat" where
  "static_size b = sb_out b - sb_in b"

definition static_max_size :: "static_buffer \<Rightarrow> nat" where
  "static_max_size b = length (sb_mem b)"

definition static_capacity :: "static_buffer \<Rightarrow> nat" where
  "static_capacity b = length (sb_mem b) - sb_in b"

definition static_data :: "static_buffer \<Rightarrow> bytes list" where
  "static_data b = [slice (sb_mem b) (sb_in b) (sb_out b)]"

definition static_prepare :: "nat \<Rightarrow> static_buffer \<Rightarrow> (length_error, static_buffer) outcome" where
  "static_prepare n b =
     (if n > length (sb_mem b) - sb_out b then Err Length_error
      else Ok (b\<lparr>sb_last := sb_out b + n\<rparr>))"

definition static_store :: "bytes \<Rightarrow> static_buffer \<Rightarrow> static_buffer" where
  "static_store xs b = b\<lparr>sb_mem := poke (sb_mem b) (sb_out b) xs\<rparr>"

definition static_commit :: "nat \<Rightarrow> static_buffer \<Rightarrow> static_buffer" where
  "static_commit n b = b\<lparr>sb_out := sb_out b + min n (sb_last b - sb_out b)\<rparr>"

definition static_consume :: "nat \<Rightarrow> static_buffer \<Rightarrow> static_buffer" where
  "static_consume n b = b\<lparr>sb_in := sb_in b + min n (sb_out b - sb_in b)\<rparr>"

definition static_db :: "static_buffer dynbuf" where
  "static_db = \<lparr>db_data = static_data, db_prepare = static_prepare, db_store = static_store,
     db_commit = static_commit, db_consume = static_consume\<rparr>"

definition static_inv :: "static_buffer \<Rightarrow> bool" where
  "static_inv b \<longleftrightarrow> sb_in b \<le> sb_out b \<and> sb_out b \<le> sb_last b \<and> sb_last b \<le> length (sb_mem b)"

definition static_prepared :: "static_buffer \<Rightarrow> nat" where
  "static_prepared b = sb_last b - sb_out b"

definition static_room :: "static_buffer \<Rightarrow> nat" where
  "static_room b = length (sb_mem b) - sb_out b"

lemmas static_defs = static_prepare_def static_store_def static_commit_def static_consume_def
  static_inv_def static_prepared_def static_room_def static_data_def

lemma static_contents [simp]:
  "db_contents static_db b = slice (sb_mem b) (sb_in b) (sb_out b)"
  by (simp add: db_contents_def static_db_def static_data_def)

lemma static_db_simps [simp]:
  "db_data static_db = static_data" "db_prepare static_db = static_prepare"
  "db_store static_db = static_store" "db_commit static_db = static_commit"
  "db_consume static_db = static_consume"
  by (simp_all add: static_db_def)

interpretation static: dynamic_buffer static_db static_inv static_prepared static_room
proof unfold_locales
  fix b :: static_buffer and n :: nat
  assume "static_inv b" "n \<le> static_room b"
  then show "\<exists>b'. db_prepare static_db n b = Ok b' \<and> static_inv b' \<and>
      db_contents static_db b' = db_contents static_db b \<and> static_prepared b' = n \<and>
      static_room b' = static_room b"
    by (auto simp: static_defs)
next
  fix b :: static_buffer and xs :: bytes
  assume "static_inv b" "length xs \<le> static_prepared b"
  then show "static_inv (db_commit static_db (length xs) (db_store static_db xs b)) \<and>
      db_contents static_db (db_commit static_db (length xs) (db_store static_db xs b)) =
        db_contents static_db b @ xs \<and>
      static_prepared (db_commit static_db (length xs) (db_store static_db xs b)) =
        static_prepared b - length xs \<and>
      static_room (db_commit static_db (length xs) (db_store static_db xs b)) =
        static_room b - length xs"
    by (auto simp: static_defs slice_poke min_absorb1)
next
  fix b :: static_buffer and n :: nat
  assume "static_inv b"
  then show "static_inv (db_consume static_db n b) \<and>
      db_contents static_db (db_consume static_db n b) = drop n (db_contents static_db b) \<and>
      static_room b \<le> static_room (db_consume static_db n b)"
    by (auto simp: static_defs min_def)
qed (auto simp: static_defs)

lemma static_inv_reset [simp]: "static_inv (static_reset mem)"
  by (simp add: static_inv_def static_reset_def)

lemma static_contents_reset [simp]: "db_contents static_db (static_reset mem) = []"
  by (simp add: static_reset_def)

lemma static_room_reset [simp]: "static_room (static_reset mem) = length mem"
  by (simp add: static_reset_def static_room_def)

end
