(* ===== verification/Core_Multi_Buffer.thy ===== *)
theory Core_Multi_Buffer
  imports Core_Buffers
begin

text \<open>
  \<open>basic_multi_buffer\<close>, \<open>include/beast/core/multi_buffer.hpp\<close> and \<open>impl/multi_buffer.ipp\<close>: a
  dynamic buffer over a list of blocks. Iterators into the intrusive list are positions, and its
  end is its length. On an empty list \<open>iterator_to(list_.back())\<close> is the end, as the circular
  list of Boost.Intrusive has it. \<open>junk\<close> is what fresh memory holds. \<open>mb_live\<close> counts the blocks
  the object owns.
\<close>

section \<open>The object\<close>

record multi_buffer =
  mb_list :: "bytes list"
  mb_out :: nat
  mb_alloc_size :: nat
  mb_in_size :: nat
  mb_in_pos :: nat
  mb_out_pos :: nat
  mb_out_end :: nat
  mb_live :: nat

definition multi_init :: "nat \<Rightarrow> (unit, multi_buffer) outcome" where
  "multi_init alloc_size =
     (if alloc_size \<le> 0 then Err ()
      else Ok \<lparr>mb_list = [], mb_out = 0, mb_alloc_size = alloc_size, mb_in_size = 0, mb_in_pos = 0,
                mb_out_pos = 0, mb_out_end = 0, mb_live = 0\<rparr>)"

definition multi_at_end :: "multi_buffer \<Rightarrow> bool" where
  "multi_at_end b \<longleftrightarrow> mb_out b = length (mb_list b)"

text \<open>\<open>list_.iterator_to(list_.back())\<close>.\<close>

definition multi_back :: "multi_buffer \<Rightarrow> nat" where
  "multi_back b = length (mb_list b) - 1"

definition multi_size :: "multi_buffer \<Rightarrow> nat" where
  "multi_size b = mb_in_size b"

definition multi_max_size :: nat where
  "multi_max_size = 2 ^ 64 - 1"

definition multi_capacity :: "multi_buffer \<Rightarrow> nat" where
  "multi_capacity b =
     (if multi_at_end b then mb_in_size b
      else mb_in_size b + (length (mb_list b ! mb_out b) - mb_out_pos b) +
           sum_list (map length (drop (Suc (mb_out b)) (mb_list b))))"

text \<open>\<open>const_buffers_type\<close>: from the first element to the one \<open>out_\<close> points to, if any.\<close>

definition multi_const_buffer :: "multi_buffer \<Rightarrow> nat \<Rightarrow> bytes" where
  "multi_const_buffer b i =
     slice (mb_list b ! i) (if i = 0 then mb_in_pos b else 0)
       (if multi_at_end b \<or> i \<noteq> mb_out b then length (mb_list b ! i) else mb_out_pos b)"

definition multi_data :: "multi_buffer \<Rightarrow> bytes list" where
  "multi_data b =
     map (multi_const_buffer b) [0..<(if multi_at_end b then length (mb_list b) else Suc (mb_out b))]"

text \<open>\<open>mutable_buffers_type\<close>: the bounds in each element from \<open>out_\<close> on.\<close>

definition multi_mutable_buffer :: "multi_buffer \<Rightarrow> nat \<Rightarrow> nat \<times> nat" where
  "multi_mutable_buffer b i =
     (if i = mb_out b then mb_out_pos b else 0,
      if i = multi_back b then mb_out_end b else length (mb_list b ! i))"

section \<open>prepare\<close>

text \<open>The loop over the elements kept from the last call.\<close>

fun multi_reuse :: "nat \<Rightarrow> bytes list \<Rightarrow> bytes list \<Rightarrow> nat \<Rightarrow> nat \<times> bytes list \<times> bytes list \<times> nat" where
  "multi_reuse n [] l oe = (n, [], l, oe)"
| "multi_reuse n (e # r) l oe =
     (if n > 0 then
        if n > length e then multi_reuse (n - length e) r (l @ [e]) (length e)
        else multi_reuse 0 r (l @ [e]) n
      else (n, e # r, l, oe))"

text \<open>The loop that allocates.\<close>

definition multi_block :: "(nat \<Rightarrow> u8) \<Rightarrow> nat \<Rightarrow> bytes" where
  "multi_block junk n = map junk [0..<n]"

function multi_alloc :: "(nat \<Rightarrow> u8) \<Rightarrow> nat \<Rightarrow> multi_buffer \<Rightarrow> multi_buffer" where
  "multi_alloc junk n b =
     (if n > 0 then
        let size = max (mb_alloc_size b) n;
            b' = b\<lparr>mb_list := mb_list b @ [multi_block junk size], mb_live := Suc (mb_live b)\<rparr>;
            b' = (if multi_at_end b then b'\<lparr>mb_out := length (mb_list b)\<rparr> else b')
        in if n \<ge> size then multi_alloc junk (n - size) (b'\<lparr>mb_out_end := size\<rparr>)
           else b'\<lparr>mb_out_end := n\<rparr>
      else b)"
  by pat_completeness auto
termination by (relation "measure (\<lambda>(junk, n, b). n)") auto

declare multi_alloc.simps [simp del]

definition multi_prepare :: "(nat \<Rightarrow> u8) \<Rightarrow> nat \<Rightarrow> multi_buffer \<Rightarrow> (length_error, multi_buffer) outcome" where
  "multi_prepare junk n b =
     (let (n, reuse, b) =
        (if \<not> multi_at_end b then
           let (reuse, b) =
             (if mb_out b \<noteq> multi_back b then
                (drop (Suc (mb_out b)) (mb_list b),
                 b\<lparr>mb_out_end := length (mb_list b ! mb_out b), mb_list := take (Suc (mb_out b)) (mb_list b)\<rparr>)
              else ([], b));
               avail = length (mb_list b ! mb_out b) - mb_out_pos b
           in if n > avail then (n - avail, reuse, b\<lparr>mb_out_end := length (mb_list b ! mb_out b)\<rparr>)
              else (0, reuse, b\<lparr>mb_out_end := mb_out_pos b + n\<rparr>)
         else (n, [], b));
       (n, reuse, l, oe) = multi_reuse n reuse (mb_list b) (mb_out_end b);
       b = multi_alloc junk n (b\<lparr>mb_list := l, mb_out_end := oe\<rparr>)
     in Ok (b\<lparr>mb_live := mb_live b - length reuse\<rparr>))"

text \<open>Octets written through the mutable buffers, from the element \<open>i\<close> on.\<close>

function multi_store_from :: "nat \<Rightarrow> bytes \<Rightarrow> multi_buffer \<Rightarrow> multi_buffer" where
  "multi_store_from i xs b =
     (if i < length (mb_list b) \<and> xs \<noteq> [] then
        let (p, e) = multi_mutable_buffer b i; k = min (e - p) (length xs) in
        multi_store_from (Suc i) (drop k xs) (b\<lparr>mb_list := (mb_list b)[i := poke (mb_list b ! i) p (take k xs)]\<rparr>)
      else b)"
  by pat_completeness auto
termination
  by (relation "measure (\<lambda>(i, xs, b). length (mb_list b) - i)") auto

declare multi_store_from.simps [simp del]

definition multi_store :: "bytes \<Rightarrow> multi_buffer \<Rightarrow> multi_buffer" where
  "multi_store xs b = multi_store_from (mb_out b) xs b"

section \<open>commit and consume\<close>

function multi_commit_loop :: "nat \<Rightarrow> multi_buffer \<Rightarrow> multi_buffer" where
  "multi_commit_loop n b =
     (if mb_out b < multi_back b then
        let avail = length (mb_list b ! mb_out b) - mb_out_pos b in
        if n < avail then b\<lparr>mb_out_pos := mb_out_pos b + n, mb_in_size := mb_in_size b + n\<rparr>
        else multi_commit_loop (n - avail)
          (b\<lparr>mb_out := Suc (mb_out b), mb_out_pos := 0, mb_in_size := mb_in_size b + avail\<rparr>)
      else
        let n = min n (mb_out_end b - mb_out_pos b);
            b = b\<lparr>mb_out_pos := mb_out_pos b + n, mb_in_size := mb_in_size b + n\<rparr>
        in if mb_out_pos b = length (mb_list b ! mb_out b)
           then b\<lparr>mb_out := Suc (mb_out b), mb_out_pos := 0, mb_out_end := 0\<rparr>
           else b)"
  by pat_completeness auto
termination
  by (relation "measure (\<lambda>(n, b). multi_back b - mb_out b)") (auto simp: multi_back_def)

declare multi_commit_loop.simps [simp del]

definition multi_commit :: "nat \<Rightarrow> multi_buffer \<Rightarrow> multi_buffer" where
  "multi_commit n b =
     (if mb_list b = [] then b else if multi_at_end b then b else multi_commit_loop n b)"

function multi_consume_loop :: "nat \<Rightarrow> multi_buffer \<Rightarrow> multi_buffer" where
  "multi_consume_loop n b =
     (if mb_out b \<noteq> 0 \<and> mb_list b \<noteq> [] then
        let avail = length (hd (mb_list b)) - mb_in_pos b in
        if n < avail then b\<lparr>mb_in_size := mb_in_size b - n, mb_in_pos := mb_in_pos b + n\<rparr>
        else multi_consume_loop (n - avail)
          (b\<lparr>mb_in_size := mb_in_size b - avail, mb_in_pos := 0, mb_list := tl (mb_list b),
             mb_out := mb_out b - 1, mb_live := mb_live b - 1\<rparr>)
      else
        let avail = mb_out_pos b - mb_in_pos b in
        if n < avail then b\<lparr>mb_in_size := mb_in_size b - n, mb_in_pos := mb_in_pos b + n\<rparr>
        else
          let b = b\<lparr>mb_in_size := 0\<rparr> in
          if mb_out b \<noteq> multi_back b \<or> mb_out_pos b \<noteq> mb_out_end b then b\<lparr>mb_in_pos := mb_out_pos b\<rparr>
          else b\<lparr>mb_in_pos := 0, mb_out_pos := 0, mb_out_end := 0\<rparr>)"
  by pat_completeness auto
termination
  by (relation "measure (\<lambda>(n, b). length (mb_list b))") auto

declare multi_consume_loop.simps [simp del]

definition multi_consume :: "nat \<Rightarrow> multi_buffer \<Rightarrow> multi_buffer" where
  "multi_consume n b = (if mb_list b = [] then b else multi_consume_loop n b)"

definition multi_clear :: "multi_buffer \<Rightarrow> multi_buffer" where
  "multi_clear b =
     b\<lparr>mb_live := mb_live b - length (mb_list b), mb_list := [], mb_out := 0, mb_in_size := 0, mb_in_pos := 0,
       mb_out_pos := 0, mb_out_end := 0\<rparr>"

definition multi_db :: "(nat \<Rightarrow> u8) \<Rightarrow> multi_buffer dynbuf" where
  "multi_db junk = \<lparr>db_data = multi_data, db_prepare = multi_prepare junk, db_store = multi_store,
     db_commit = multi_commit, db_consume = multi_consume\<rparr>"

section \<open>Copies and moves\<close>

text \<open>
  The constructors and assignments all come down to copying the octets into a fresh or cleared
  object, or to taking the list, which leaves the other object empty.
\<close>

definition multi_copy_into :: "(nat \<Rightarrow> u8) \<Rightarrow> multi_buffer \<Rightarrow> multi_buffer \<Rightarrow> (length_error, multi_buffer) outcome" where
  "multi_copy_into junk other b = db_append (multi_db junk) (concat (multi_data other)) b"

definition multi_move :: "multi_buffer \<Rightarrow> multi_buffer \<Rightarrow> multi_buffer \<times> multi_buffer" where
  "multi_move other b =
     (b\<lparr>mb_list := mb_list other, mb_out := mb_out other, mb_in_size := mb_in_size other,
        mb_in_pos := mb_in_pos other, mb_out_pos := mb_out_pos other, mb_out_end := mb_out_end other,
        mb_live := mb_live b + mb_live other\<rparr>,
      other\<lparr>mb_list := [], mb_out := 0, mb_in_size := 0, mb_in_pos := 0, mb_out_pos := 0,
        mb_out_end := 0, mb_live := 0\<rparr>)"

definition multi_copy_assign :: "(nat \<Rightarrow> u8) \<Rightarrow> multi_buffer \<Rightarrow> multi_buffer \<Rightarrow> (length_error, multi_buffer) outcome" where
  "multi_copy_assign junk other b = multi_copy_into junk other (multi_clear b)"

definition multi_move_assign :: "multi_buffer \<Rightarrow> multi_buffer \<Rightarrow> multi_buffer \<times> multi_buffer" where
  "multi_move_assign other b = multi_move other ((multi_clear b)\<lparr>mb_alloc_size := mb_alloc_size other\<rparr>)"

definition multi_read_size_helper :: "multi_buffer \<Rightarrow> nat \<Rightarrow> nat" where
  "multi_read_size_helper b max_size =
     (let avail = multi_capacity b - multi_size b in
      if avail > 0 then min avail max_size
      else if mb_alloc_size b > 512 then min max_size (mb_alloc_size b)
      else min max_size 512)"

section \<open>The invariant\<close>

text \<open>
  \<open>multi_committed\<close> are the octets before the write position, from the start of the first block
  on; the input sequence is what comes after \<open>in_pos_\<close>. \<open>multi_put\<close> and \<open>multi_end\<close> are the write
  position and the end of the output sequence in the blocks taken as one.
\<close>

definition multi_committed :: "multi_buffer \<Rightarrow> bytes" where
  "multi_committed b =
     concat (take (mb_out b) (mb_list b)) @ (if multi_at_end b then [] else take (mb_out_pos b) (mb_list b ! mb_out b))"

definition multi_put :: "multi_buffer \<Rightarrow> nat" where
  "multi_put b = length (concat (take (mb_out b) (mb_list b))) + mb_out_pos b"

definition multi_end :: "multi_buffer \<Rightarrow> nat" where
  "multi_end b = length (concat (butlast (mb_list b))) + mb_out_end b"

definition multi_prepared :: "multi_buffer \<Rightarrow> nat" where
  "multi_prepared b = multi_end b - multi_put b"

definition multi_room :: "multi_buffer \<Rightarrow> nat" where
  "multi_room b = multi_max_size - mb_in_size b"

text \<open>What \<open>debug_check\<close> asserts, and that blocks have memory and none is lost.\<close>

definition multi_inv :: "multi_buffer \<Rightarrow> bool" where
  "multi_inv b \<longleftrightarrow>
     0 < mb_alloc_size b \<and> (\<forall>e \<in> set (mb_list b). e \<noteq> []) \<and> mb_live b = length (mb_list b) \<and>
     mb_out b \<le> length (mb_list b) \<and>
     (if mb_list b = [] then mb_in_pos b = 0 else mb_in_pos b < length (hd (mb_list b))) \<and>
     (if multi_at_end b then mb_out_pos b = 0 \<and> mb_out_end b = 0
      else mb_out_pos b < length (mb_list b ! mb_out b) \<and> mb_out_end b \<le> length (last (mb_list b)) \<and>
        (mb_out b = 0 \<longrightarrow> mb_in_pos b \<le> mb_out_pos b) \<and>
        (Suc (mb_out b) = length (mb_list b) \<longrightarrow> mb_out_pos b \<le> mb_out_end b)) \<and>
     mb_in_size b = length (multi_committed b) - mb_in_pos b"

lemma multi_not_end: "multi_inv b \<Longrightarrow> \<not> multi_at_end b \<longleftrightarrow> mb_out b < length (mb_list b)"
  by (auto simp: multi_inv_def multi_at_end_def)

lemma multi_open:
  assumes "multi_inv b" "\<not> multi_at_end b"
  shows "mb_out b < length (mb_list b)" "mb_out_pos b < length (mb_list b ! mb_out b)"
    "mb_out_end b \<le> length (last (mb_list b))" "mb_out b = 0 \<longrightarrow> mb_in_pos b \<le> mb_out_pos b"
    "Suc (mb_out b) = length (mb_list b) \<longrightarrow> mb_out_pos b \<le> mb_out_end b" "mb_list b \<noteq> []"
proof -
  show "mb_out b < length (mb_list b)" using assms multi_not_end by blast
  then show "mb_list b \<noteq> []" by auto
qed (use assms in \<open>simp_all add: multi_inv_def\<close>)

definition multi_segments :: "multi_buffer \<Rightarrow> bytes list" where
  "multi_segments b = take (mb_out b) (mb_list b) @ (if multi_at_end b then [] else [take (mb_out_pos b) (mb_list b ! mb_out b)])"

lemma multi_data_segments:
  assumes "multi_inv b"
  shows "multi_data b = (case multi_segments b of [] \<Rightarrow> [] | s # r \<Rightarrow> drop (mb_in_pos b) s # r)"
proof -
  have le: "mb_out b \<le> length (mb_list b)" using assms by (simp add: multi_inv_def)
  let ?s = "\<lambda>i. if i = 0 then drop (mb_in_pos b) (multi_segments b ! 0) else multi_segments b ! i"
  have len: "length (multi_segments b) = (if multi_at_end b then length (mb_list b) else Suc (mb_out b))"
    using le by (auto simp: multi_segments_def multi_at_end_def)
  have seg: "multi_const_buffer b i = ?s i" if "i < length (multi_segments b)" for i
  proof (cases "i = mb_out b \<and> \<not> multi_at_end b")
    case True
    then show ?thesis using le by (simp add: multi_const_buffer_def multi_segments_def nth_append slice_def min_absorb2 drop_take)
  next
    case False
    with that len le have i: "i < mb_out b" by (auto simp: multi_at_end_def split: if_splits)
    with False le show ?thesis
      by (auto simp: multi_const_buffer_def multi_segments_def nth_append slice_def multi_at_end_def)
  qed
  have "multi_data b = map ?s [0..<length (multi_segments b)]"
    unfolding multi_data_def len [symmetric] using seg by simp
  also have "\<dots> = (case multi_segments b of [] \<Rightarrow> [] | s # r \<Rightarrow> drop (mb_in_pos b) s # r)"
    by (rule nth_equalityI) (auto simp: nth_Cons split: list.split nat.split)
  finally show ?thesis .
qed

lemma multi_contents:
  assumes "multi_inv b"
  shows "concat (multi_data b) = drop (mb_in_pos b) (multi_committed b)"
proof -
  have "multi_committed b = concat (multi_segments b)"
    by (simp add: multi_committed_def multi_segments_def)
  moreover have "mb_in_pos b \<le> length s" if "multi_segments b = s # r" for s r
  proof (cases "mb_out b")
    case 0
    then show ?thesis using assms that by (auto simp: multi_segments_def multi_inv_def multi_at_end_def split: if_splits)
  next
    case (Suc k)
    with assms that show ?thesis by (cases "mb_list b") (auto simp: multi_segments_def multi_inv_def)
  qed
  moreover have "multi_segments b = [] \<Longrightarrow> mb_in_pos b = 0"
    using assms by (auto simp: multi_segments_def multi_inv_def multi_at_end_def split: if_splits)
  ultimately show ?thesis
    by (cases "multi_segments b") (simp_all add: multi_data_segments [OF assms])
qed

lemma multi_committed_take:
  assumes "multi_inv b"
  shows "multi_committed b = take (multi_put b) (concat (mb_list b))" "length (multi_committed b) = multi_put b"
proof -
  have l: "mb_list b = take (mb_out b) (mb_list b) @ drop (mb_out b) (mb_list b)" by simp
  have c: "concat (mb_list b) = concat (take (mb_out b) (mb_list b)) @ concat (drop (mb_out b) (mb_list b))"
    by (subst l) (simp only: concat_append)
  show "multi_committed b = take (multi_put b) (concat (mb_list b))"
  proof (cases "multi_at_end b")
    case True
    with assms show ?thesis by (simp add: multi_committed_def multi_put_def multi_at_end_def multi_inv_def)
  next
    case False
    with assms have out: "mb_out b < length (mb_list b)" "mb_out_pos b < length (mb_list b ! mb_out b)"
      by (auto simp: multi_not_end multi_inv_def multi_at_end_def)
    then have "drop (mb_out b) (mb_list b) = mb_list b ! mb_out b # drop (Suc (mb_out b)) (mb_list b)"
      by (simp add: Cons_nth_drop_Suc)
    with False out show ?thesis unfolding c by (simp add: multi_committed_def multi_put_def)
  qed
  show "length (multi_committed b) = multi_put b"
    using assms multi_not_end [OF assms]
    by (auto simp: multi_committed_def multi_put_def multi_inv_def)
qed


section \<open>prepare\<close>

lemma multi_alloc_block:
  assumes "0 < n"
  shows "multi_alloc junk n b =
    b\<lparr>mb_list := mb_list b @ [multi_block junk (max (mb_alloc_size b) n)], mb_out_end := n, mb_live := Suc (mb_live b)\<rparr>"
proof -
  have out: "(if multi_at_end b then b'\<lparr>mb_out := length (mb_list b)\<rparr> else b') = b'" if "mb_out b' = mb_out b" for b'
    using that by (simp add: multi_at_end_def)
  show ?thesis
    using assms by (subst multi_alloc.simps) (auto simp: Let_def out multi_alloc.simps [of junk 0] max_def)
qed

lemma length_multi_block [simp]: "length (multi_block junk n) = n"
  by (simp add: multi_block_def)

text \<open>
  The loop over kept elements: it moves some of them to the list, and what they add to the
  output sequence is what it takes from \<open>n\<close>.
\<close>

definition blocks_end :: "bytes list \<Rightarrow> nat \<Rightarrow> nat" where
  "blocks_end l oe = length (concat (butlast l)) + oe"

lemma multi_reuse_spec:
  assumes "multi_reuse n r l oe = (n', r', l', oe')" "l \<noteq> []" "oe \<le> length (last l)" "0 < n \<longrightarrow> oe = length (last l)"
  shows "\<exists>k. l' = l @ take k r \<and> r' = drop k r \<and> (0 < n' \<longrightarrow> r' = [] \<and> oe' = length (last l')) \<and>
    oe' \<le> length (last l') \<and> blocks_end l' oe' + n' = blocks_end l oe + n"
  using assms
proof (induction n r l oe arbitrary: n' r' l' oe' rule: multi_reuse.induct)
  case (1 n l oe)
  then show ?case by auto
next
  case (2 n e r l oe)
  have be: "blocks_end (l @ [e]) k = length (concat (butlast l)) + length (last l) + k" for k
  proof -
    have "l = butlast l @ [last l]" using 2(4) by simp
    then have "concat l = concat (butlast l) @ last l" by (metis concat.simps concat_append append_Nil2)
    then show ?thesis by (simp add: blocks_end_def)
  qed
  consider "n = 0" | "0 < n" "length e < n" | "0 < n" "n \<le> length e" by linarith
  then show ?case
  proof cases
    case 1
    with 2 show ?thesis by (auto intro: exI [of _ 0])
  next
    case c: 2
    then have "multi_reuse (n - length e) r (l @ [e]) (length e) = (n', r', l', oe')" using 2(3) by simp
    then have "\<exists>k. l' = (l @ [e]) @ take k r \<and> r' = drop k r \<and> (0 < n' \<longrightarrow> r' = [] \<and> oe' = length (last l')) \<and>
        oe' \<le> length (last l') \<and> blocks_end l' oe' + n' = blocks_end (l @ [e]) (length e) + (n - length e)"
      by (rule 2(1) [OF c]) simp_all
    then obtain k where k: "l' = (l @ [e]) @ take k r" "r' = drop k r"
      "0 < n' \<longrightarrow> r' = [] \<and> oe' = length (last l')" "oe' \<le> length (last l')"
      "blocks_end l' oe' + n' = blocks_end (l @ [e]) (length e) + (n - length e)" by blast
    have "blocks_end l' oe' + n' = blocks_end l oe + n"
      using k(5) c be 2(6) by (simp add: blocks_end_def)
    with k show ?thesis by (intro exI [of _ "Suc k"]) auto
  next
    case c: 3
    then have "multi_reuse 0 r (l @ [e]) n = (n', r', l', oe')" using 2(3) by simp
    moreover have "multi_reuse 0 r m oe'' = (0, r, m, oe'')" for r m oe'' by (cases r) simp_all
    ultimately have "n' = 0" "r' = r" "l' = l @ [e]" "oe' = n" by auto
    then show ?thesis
      using c be 2(6) by (intro exI [of _ 1]) (simp add: blocks_end_def)
  qed
qed

lemma multi_inv_prepared:
  assumes "multi_inv b"
    and l: "\<forall>e \<in> set l. e \<noteq> []" "take (Suc (mb_out b)) l = take (Suc (mb_out b)) (mb_list b)" "mb_out b < length l"
    and at: "\<not> multi_at_end b"
    and oe: "oe \<le> length (last l)" "Suc (mb_out b) = length l \<longrightarrow> mb_out_pos b \<le> oe"
  shows "multi_inv (b\<lparr>mb_list := l, mb_out_end := oe, mb_live := length l\<rparr>)"
    "multi_committed (b\<lparr>mb_list := l, mb_out_end := oe, mb_live := length l\<rparr>) = multi_committed b"
    "multi_put (b\<lparr>mb_list := l, mb_out_end := oe, mb_live := length l\<rparr>) = multi_put b"
proof -
  have out: "mb_out b < length (mb_list b)" using assms(1) at by (simp add: multi_not_end)
  have nth: "l ! mb_out b = mb_list b ! mb_out b"
    by (metis l(2) lessI nth_take)
  have tk: "take (mb_out b) l = take (mb_out b) (mb_list b)"
    by (metis l(2) le_SucI order_refl take_take min_def)
  have hd: "hd l = hd (mb_list b)" "l \<noteq> []" "mb_list b \<noteq> []"
    using l(2,3) out by (auto simp: hd_conv_nth dest: arg_cong [of _ _ hd])
  let ?b = "b\<lparr>mb_list := l, mb_out_end := oe, mb_live := length l\<rparr>"
  have e: "\<not> multi_at_end ?b" using l(3) by (simp add: multi_at_end_def)
  show c: "multi_committed ?b = multi_committed b"
    using at e by (simp add: multi_committed_def tk nth)
  show "multi_put ?b = multi_put b" by (simp add: multi_put_def tk)
  show "multi_inv ?b"
    using assms(1) at e l oe hd nth out c by (simp add: multi_inv_def)
qed


lemma multi_prepare_ok:
  assumes inv: "multi_inv b"
  shows "\<exists>b'. multi_prepare junk n b = Ok b' \<and> multi_inv b' \<and> concat (multi_data b') = concat (multi_data b) \<and>
    multi_prepared b' = n \<and> mb_in_size b' = mb_in_size b"
proof (cases "multi_at_end b")
  case True
  then have reuse: "multi_reuse n [] (mb_list b) (mb_out_end b) = (n, [], mb_list b, mb_out_end b)" by simp
  show ?thesis
  proof (cases "n = 0")
    case n: True
    have "multi_prepared b = 0"
      using inv True by (cases "mb_list b" rule: rev_cases)
        (simp_all add: multi_prepared_def multi_end_def multi_put_def multi_inv_def multi_at_end_def)
    with True n inv reuse show ?thesis
      by (simp add: multi_prepare_def multi_alloc.simps [of junk 0])
  next
    case False
    let ?e = "multi_block junk (max (mb_alloc_size b) n)"
    let ?b = "b\<lparr>mb_list := mb_list b @ [?e], mb_out_end := n, mb_live := Suc (mb_live b)\<rparr>"
    have p: "multi_prepare junk n b = Ok ?b"
      using True False by (simp add: multi_prepare_def multi_alloc_block)
    have e: "\<not> multi_at_end ?b" using True by (simp add: multi_at_end_def)
    have c: "multi_committed ?b = multi_committed b"
      using True inv e by (simp add: multi_committed_def multi_inv_def multi_at_end_def)
    have i: "multi_inv ?b"
      using inv True False e c
      by (cases "mb_list b") (auto simp: multi_inv_def multi_at_end_def nth_append multi_block_def)
    have "multi_prepared ?b = n"
      using True inv by (simp add: multi_prepared_def multi_end_def multi_put_def multi_at_end_def multi_inv_def)
    with p i c show ?thesis by (simp add: multi_contents [OF inv] multi_contents [OF i])
  qed
next
  case False
  define l1 where "l1 = take (Suc (mb_out b)) (mb_list b)"
  define r1 where "r1 = drop (Suc (mb_out b)) (mb_list b)"
  define e where "e = mb_list b ! mb_out b"
  define oe1 where "oe1 = (if n > length e - mb_out_pos b then length e else mb_out_pos b + n)"
  define n1 where "n1 = (if n > length e - mb_out_pos b then n - (length e - mb_out_pos b) else 0)"
  have out: "mb_out b < length (mb_list b)" using inv False by (simp add: multi_not_end)
  have l1: "l1 = take (mb_out b) (mb_list b) @ [e]" "l1 \<noteq> []" "last l1 = e" "length l1 = Suc (mb_out b)"
    using out by (simp_all add: l1_def e_def take_Suc_conv_app_nth)
  have l1r1: "mb_list b = l1 @ r1" by (simp add: l1_def r1_def)
  have pos: "mb_out_pos b < length e" using inv False by (simp add: multi_inv_def e_def)
  obtain n2 r2 l2 oe2 where re: "multi_reuse n1 r1 l1 oe1 = (n2, r2, l2, oe2)" by (cases "multi_reuse n1 r1 l1 oe1") auto
  have oe1: "oe1 \<le> length (last l1)" "0 < n1 \<longrightarrow> oe1 = length (last l1)" "mb_out_pos b \<le> oe1"
    "oe1 + n1 = mb_out_pos b + n"
    using pos l1(3) by (auto simp: oe1_def n1_def)
  from multi_reuse_spec [OF re l1(2) oe1(1,2)] obtain k where k: "l2 = l1 @ take k r1" "r2 = drop k r1"
    "0 < n2 \<longrightarrow> r2 = [] \<and> oe2 = length (last l2)" "oe2 \<le> length (last l2)"
    "blocks_end l2 oe2 + n2 = blocks_end l1 oe1 + n1" by blast
  define b2 where "b2 = b\<lparr>mb_list := l2, mb_out_end := oe2\<rparr>"
  have prep: "multi_prepare junk n b = (let b = multi_alloc junk n2 b2 in Ok (b\<lparr>mb_live := mb_live b - length r2\<rparr>))"
  proof -
    have at_back: "mb_out b \<noteq> multi_back b \<longleftrightarrow> r1 \<noteq> []"
      using out by (auto simp: multi_back_def r1_def)
    have "r1 = [] \<Longrightarrow> mb_list b = l1" using l1r1 by simp
    moreover have "l1 ! mb_out b = e" by (simp add: l1_def e_def)
    ultimately show ?thesis
      using re False at_back by (cases "r1 = []")
        (auto simp: multi_prepare_def Let_def l1_def [symmetric] r1_def [symmetric] e_def [symmetric]
          oe1_def n1_def b2_def split: if_splits)
  qed
  let ?l3 = "if n2 = 0 then l2 else l2 @ [multi_block junk (max (mb_alloc_size b) n2)]"
  let ?oe3 = "if n2 = 0 then oe2 else n2"
  let ?b3 = "b\<lparr>mb_list := ?l3, mb_out_end := ?oe3, mb_live := length ?l3\<rparr>"
  have live: "mb_live b = length l1 + length r1" using inv l1r1 by (simp add: multi_inv_def)
  have "length l2 + length r2 = length l1 + length r1" using k(1,2) by (simp add: min_def)
  with prep k(3) live have p: "multi_prepare junk n b = Ok ?b3"
    by (cases "n2 = 0") (simp_all add: multi_alloc_block multi_alloc.simps [of junk 0] b2_def)
  have blocks: "\<forall>e \<in> set ?l3. e \<noteq> []"
  proof -
    have "\<forall>e \<in> set (l1 @ r1). e \<noteq> []" using inv l1r1 by (simp add: multi_inv_def)
    then show ?thesis using k(1) inv by (auto simp: multi_block_def multi_inv_def dest: in_set_takeD)
  qed
  have len2: "Suc (mb_out b) \<le> length l2" using k(1) l1(4) by simp
  have same: "take (Suc (mb_out b)) ?l3 = take (Suc (mb_out b)) (mb_list b)" "mb_out b < length ?l3"
    using k(1) l1(4) l1r1 by auto
  have end3: "?oe3 \<le> length (last ?l3)" using k(4) by (simp add: multi_block_def)
  have only: "Suc (mb_out b) = length ?l3 \<longrightarrow> mb_out_pos b \<le> ?oe3"
  proof
    assume "Suc (mb_out b) = length ?l3"
    with len2 have "n2 = 0" "length l2 = length l1" using l1(4) by (auto split: if_splits)
    with k(1) have "l2 = l1" by (cases "take k r1") simp_all
    with \<open>n2 = 0\<close> k(5) oe1(3,4) show "mb_out_pos b \<le> ?oe3" by (auto simp: blocks_end_def)
  qed
  note b3 = multi_inv_prepared [OF inv blocks same False end3 only]
  have "blocks_end ?l3 ?oe3 = blocks_end l2 oe2 + n2"
  proof (cases "n2 = 0")
    case n2: False
    have "l2 \<noteq> []" using len2 by auto
    then have "concat l2 = concat (butlast l2) @ last l2"
      by (metis append_butlast_last_id concat.simps concat_append append_Nil2)
    with n2 k(3) show ?thesis by (simp add: blocks_end_def)
  qed simp
  also have "\<dots> = length (concat (take (mb_out b) (mb_list b))) + mb_out_pos b + n"
    using k(5) oe1(4) l1(1) by (simp add: blocks_end_def)
  finally have "multi_prepared ?b3 = n"
    using b3(3) by (simp add: multi_prepared_def multi_end_def multi_put_def blocks_end_def)
  with p b3(1,2) show ?thesis by (simp add: multi_contents [OF inv] multi_contents [OF b3(1)])
qed


section \<open>Writing and commit\<close>

lemma poke_Nil [simp]: "poke mem i [] = mem"
  by (simp add: poke_def)

lemma poke_poke:
  "i + length xs + length ys \<le> length mem \<Longrightarrow> poke (poke mem i xs) (i + length xs) ys = poke mem i (xs @ ys)"
  by (cases xs; cases ys) (auto simp: poke_def min_def add.commute add.left_commute)

lemma concat_poke:
  assumes "i < length l" "p + length xs \<le> length (l ! i)"
  shows "concat (l[i := poke (l ! i) p xs]) = poke (concat l) (length (concat (take i l)) + p) xs"
proof -
  have l: "l = take i l @ l ! i # drop (Suc i) l" using assms(1) by (simp add: id_take_nth_drop)
  have "concat (l[i := x]) = concat (take i l) @ x @ concat (drop (Suc i) l)" for x
    using assms(1) by (simp add: upd_conv_take_nth_drop)
  moreover have "concat l = concat (take i l) @ l ! i @ concat (drop (Suc i) l)"
    by (subst l) simp
  ultimately show ?thesis using assms(2) by (simp add: poke_def add.assoc)
qed

text \<open>Lists of blocks of the same sizes.\<close>

lemma sizes_concat:
  fixes l l' :: "'a list list"
  assumes "map length l = map length l'"
  shows "length (concat l) = length (concat l')" "length l = length l'"
    "length (concat (take i l)) = length (concat (take i l'))" "length (concat (butlast l)) = length (concat (butlast l'))"
    "i < length l \<Longrightarrow> length (l ! i) = length (l' ! i)" "l \<noteq> [] \<Longrightarrow> length (last l) = length (last l')"
    "l \<noteq> [] \<Longrightarrow> length (hd l) = length (hd l')" "(\<forall>e \<in> set l. e \<noteq> []) = (\<forall>e \<in> set l'. e \<noteq> [])"
proof -
  note a = assms
  show len: "length l = length l'" using map_eq_imp_length_eq [OF a] .
  show "length (concat l) = length (concat l')" by (simp only: length_concat a)
  show "length (concat (take i l)) = length (concat (take i l'))" by (simp only: length_concat take_map [symmetric] a)
  show "length (concat (butlast l)) = length (concat (butlast l'))" by (simp only: length_concat map_butlast a)
  show nth: "length (l ! i) = length (l' ! i)" if "i < length l" for i
    using that a len by (metis nth_map)
  show "length (last l) = length (last l')" if "l \<noteq> []"
  proof -
    have "l' \<noteq> []" using that len by auto
    with that len nth [of "length l - 1"] show ?thesis by (simp add: last_conv_nth)
  qed
  show "length (hd l) = length (hd l')" if "l \<noteq> []" using that len nth [of 0] by (cases l; cases l') simp_all
  have "(\<forall>e \<in> set m. e \<noteq> []) = (0 \<notin> set (map length m))" for m :: "'a list list" by (auto simp: image_iff)
  with a show "(\<forall>e \<in> set l. e \<noteq> []) = (\<forall>e \<in> set l'. e \<noteq> [])" by metis
qed

lemma multi_store_from_spec:
  assumes "mb_out b \<le> i" "mb_list b \<noteq> []" "mb_out_end b \<le> length (last (mb_list b))"
    and "i < length (mb_list b) \<longrightarrow> fst (multi_mutable_buffer b i) \<le> length (mb_list b ! i)"
    and "length xs \<le> multi_end b - (length (concat (take i (mb_list b))) +
      (if i < length (mb_list b) then fst (multi_mutable_buffer b i) else 0))"
  shows "\<exists>l. multi_store_from i xs b = b\<lparr>mb_list := l\<rparr> \<and> map length l = map length (mb_list b) \<and>
    concat l = poke (concat (mb_list b)) (length (concat (take i (mb_list b))) +
      (if i < length (mb_list b) then fst (multi_mutable_buffer b i) else 0)) xs"
  using assms
proof (induction i xs b rule: multi_store_from.induct)
  case (1 i xs b)
  let ?l = "mb_list b"
  have last: "concat ?l = concat (butlast ?l) @ last ?l"
    using 1(3) by (metis append_butlast_last_id concat.simps concat_append append_Nil2)
  show ?case
  proof (cases "i < length ?l \<and> xs \<noteq> []")
    case False
    have "xs = []"
    proof (cases "i < length ?l")
      case i: False
      then have "length xs \<le> multi_end b - length (concat ?l)" using 1(6) by simp
      also have "multi_end b \<le> length (concat ?l)" using 1(4) last by (simp add: multi_end_def)
      finally show ?thesis by simp
    qed (use False in simp)
    then show ?thesis by (subst multi_store_from.simps) (auto intro: exI [of _ ?l])
  next
    case True
    obtain p e where pe: "multi_mutable_buffer b i = (p, e)" by fastforce
    define k where "k = min (e - p) (length xs)"
    define pos where "pos = length (concat (take i ?l)) + p"
    define l1 where "l1 = ?l[i := poke (?l ! i) p (take k xs)]"
    let ?b = "b\<lparr>mb_list := l1\<rparr>"
    have ple: "p \<le> length (?l ! i)" using 1(5) True pe by simp
    have e: "e \<le> length (?l ! i)" "i \<noteq> multi_back b \<longrightarrow> e = length (?l ! i)" "i = multi_back b \<longrightarrow> e = mb_out_end b"
      using pe 1(3,4) by (auto simp: multi_mutable_buffer_def multi_back_def last_conv_nth split: if_splits)
    have pk: "p + length (take k xs) \<le> length (?l ! i)" using ple e(1) by (simp add: k_def)
    have xs: "length xs \<le> multi_end b - pos" using 1(6) True pe by (simp add: pos_def)
    have sz: "map length l1 = map length ?l"
      unfolding l1_def using True pk by (intro nth_equalityI) (auto simp: nth_list_update)
    have c1: "concat l1 = poke (concat ?l) pos (take k xs)"
      unfolding l1_def pos_def using True pk by (intro concat_poke) simp_all
    note s = sizes_concat [OF sz]
    have ne1: "l1 \<noteq> []" using s(2) 1(3) by auto
    have end1: "multi_end ?b = multi_end b" using s(4) by (simp add: multi_end_def)
    have tk: "length (concat (take (Suc i) l1)) = length (concat (take i ?l)) + length (?l ! i)"
      using True s(3) [of "Suc i"] by (simp add: take_Suc_conv_app_nth)
    have p1: "fst (multi_mutable_buffer ?b (Suc i)) = 0" using 1(2) by (simp add: multi_mutable_buffer_def)
    have rest: "drop k xs = [] \<or> length (concat (take (Suc i) l1)) = pos + k \<and> k = length (take k xs)"
    proof (cases "drop k xs = []")
      case False
      then have k: "k = e - p" "k < length xs" by (auto simp: k_def)
      have "i \<noteq> multi_back b"
      proof
        assume "i = multi_back b"
        then have "multi_end b - pos = mb_out_end b - p" "e = mb_out_end b"
          using e(3) by (simp_all add: multi_end_def pos_def multi_back_def butlast_conv_take)
        with k xs show False by simp
      qed
      with e(2) ple k tk show ?thesis by (simp add: pos_def)
    qed simp
    have len: "length (drop k xs) \<le> multi_end ?b - length (concat (take (Suc i) l1))"
      using rest xs end1 by auto
    have "\<exists>l. multi_store_from (Suc i) (drop k xs) ?b = ?b\<lparr>mb_list := l\<rparr> \<and> map length l = map length (mb_list ?b) \<and>
      concat l = poke (concat (mb_list ?b)) (length (concat (take (Suc i) (mb_list ?b))) +
        (if Suc i < length (mb_list ?b) then fst (multi_mutable_buffer ?b (Suc i)) else 0)) (drop k xs)"
    proof (rule 1(1) [OF True pe [symmetric] refl k_def, folded l1_def])
      show "mb_out ?b \<le> Suc i" "mb_list ?b \<noteq> []" using 1(2) ne1 by simp_all
      show "mb_out_end ?b \<le> length (last (mb_list ?b))" using 1(4) s(6) ne1 by simp
      show "Suc i < length (mb_list ?b) \<longrightarrow> fst (multi_mutable_buffer ?b (Suc i)) \<le> length (mb_list ?b ! Suc i)"
        using p1 by simp
      show "length (drop k xs) \<le> multi_end ?b - (length (concat (take (Suc i) (mb_list ?b))) +
        (if Suc i < length (mb_list ?b) then fst (multi_mutable_buffer ?b (Suc i)) else 0))"
        using len p1 by (cases "Suc i < length l1") simp_all
    qed
    then obtain l where l: "multi_store_from (Suc i) (drop k xs) ?b = b\<lparr>mb_list := l\<rparr>" "map length l = map length l1"
      "concat l = poke (concat l1) (length (concat (take (Suc i) l1))) (drop k xs)"
      using p1 by auto
    have "multi_end b \<le> length (concat ?l)" using 1(4) last by (simp add: multi_end_def)
    then have fit: "pos + length xs \<le> length (concat ?l)" using xs True by (cases xs) auto
    have "concat l = poke (concat ?l) pos xs"
    proof (cases "drop k xs = []")
      case d: True
      then have "take k xs = xs" by simp
      with d l(3) c1 show ?thesis by simp
    next
      case d: False
      with rest have r: "length (concat (take (Suc i) l1)) = pos + length (take k xs)" by auto
      have "concat l = poke (poke (concat ?l) pos (take k xs)) (pos + length (take k xs)) (drop k xs)"
        using l(3) c1 r by simp
      also have "\<dots> = poke (concat ?l) pos (take k xs @ drop k xs)"
      proof (rule poke_poke)
        have "length (take k xs) + length (drop k xs) = length xs" by (metis append_take_drop_id length_append)
        with fit True show "pos + length (take k xs) + length (drop k xs) \<le> length (concat ?l)" by linarith
      qed
      finally show ?thesis by simp
    qed
    moreover have "multi_store_from i xs b = b\<lparr>mb_list := l\<rparr>"
      using True pe l(1) by (subst multi_store_from.simps) (simp add: k_def [symmetric] l1_def)
    ultimately show ?thesis using True pe l(2) sz by (auto simp: pos_def)
  qed
qed


lemma multi_put_end:
  assumes "multi_inv b"
  shows "multi_put b \<le> length (concat (mb_list b))" "\<not> multi_at_end b \<Longrightarrow> multi_put b \<le> multi_end b"
    "\<not> multi_at_end b \<Longrightarrow> multi_end b \<le> length (concat (mb_list b))"
proof -
  have c: "length (multi_committed b) = multi_put b" "multi_committed b = take (multi_put b) (concat (mb_list b))"
    using multi_committed_take [OF assms] by simp_all
  show "multi_put b \<le> length (concat (mb_list b))"
    using c by (metis length_take min.cobounded1 min_def)
  assume "\<not> multi_at_end b"
  note out = multi_open(1,2,3,5,6) [OF assms this]
  then have "concat (mb_list b) = concat (butlast (mb_list b)) @ last (mb_list b)"
    by (metis append_butlast_last_id concat.simps concat_append append_Nil2)
  with out(3) show "multi_end b \<le> length (concat (mb_list b))" by (simp add: multi_end_def)
  show "multi_put b \<le> multi_end b"
  proof (cases "Suc (mb_out b) = length (mb_list b)")
    case True
    then have "length (mb_list b) - 1 = mb_out b" by simp
    then have "butlast (mb_list b) = take (mb_out b) (mb_list b)" by (simp add: butlast_conv_take)
    with out(4) True show ?thesis by (simp add: multi_put_def multi_end_def)
  next
    case False
    let ?t = "take (Suc (mb_out b)) (mb_list b)"
    have "?t = take (Suc (mb_out b)) (butlast (mb_list b))" using out(1) False by (simp add: take_butlast)
    then have "concat (butlast (mb_list b)) = concat ?t @ concat (drop (Suc (mb_out b)) (butlast (mb_list b)))"
      by (metis append_take_drop_id concat_append)
    moreover have "length (concat ?t) = length (concat (take (mb_out b) (mb_list b))) + length (mb_list b ! mb_out b)"
      using out(1) by (simp add: take_Suc_conv_app_nth)
    ultimately show ?thesis using out(2) by (simp add: multi_put_def multi_end_def)
  qed
qed

lemma multi_store_ok:
  assumes inv: "multi_inv b" and xs: "length xs \<le> multi_prepared b"
  shows "multi_inv (multi_store xs b) \<and> multi_prepared (multi_store xs b) = multi_prepared b \<and>
    mb_in_size (multi_store xs b) = mb_in_size b \<and> mb_in_pos (multi_store xs b) = mb_in_pos b \<and>
    multi_put (multi_store xs b) = multi_put b \<and> multi_at_end (multi_store xs b) = multi_at_end b \<and>
    concat (mb_list (multi_store xs b)) = poke (concat (mb_list b)) (multi_put b) xs"
proof (cases "multi_at_end b")
  case True
  have "multi_prepared b = 0"
    using inv True by (cases "mb_list b" rule: rev_cases)
      (simp_all add: multi_prepared_def multi_end_def multi_put_def multi_inv_def multi_at_end_def)
  with xs have x: "xs = []" by simp
  then have "multi_store xs b = b" by (simp add: multi_store_def multi_store_from.simps)
  with inv x show ?thesis by simp
next
  case False
  note out = multi_open [OF inv False]
  have fs: "fst (multi_mutable_buffer b (mb_out b)) = mb_out_pos b" by (simp add: multi_mutable_buffer_def)
  have "\<exists>l. multi_store_from (mb_out b) xs b = b\<lparr>mb_list := l\<rparr> \<and> map length l = map length (mb_list b) \<and>
    concat l = poke (concat (mb_list b)) (length (concat (take (mb_out b) (mb_list b))) +
      (if mb_out b < length (mb_list b) then fst (multi_mutable_buffer b (mb_out b)) else 0)) xs"
  proof (rule multi_store_from_spec)
    show "mb_list b \<noteq> []" using out(1) by auto
    show "length xs \<le> multi_end b - (length (concat (take (mb_out b) (mb_list b))) +
      (if mb_out b < length (mb_list b) then fst (multi_mutable_buffer b (mb_out b)) else 0))"
      using xs out fs by (simp add: multi_prepared_def multi_put_def)
  qed (use out fs in simp_all)
  then obtain l where l: "multi_store xs b = b\<lparr>mb_list := l\<rparr>" "map length l = map length (mb_list b)"
    "concat l = poke (concat (mb_list b)) (multi_put b) xs"
    using out(1) fs by (auto simp: multi_store_def multi_put_def)
  note s = sizes_concat [OF l(2)]
  let ?b = "b\<lparr>mb_list := l\<rparr>"
  have ne: "l \<noteq> []" "mb_list b \<noteq> []" using s(2) out(1) by auto
  have at: "multi_at_end ?b = multi_at_end b" using s(2) by (simp add: multi_at_end_def)
  have put: "multi_put ?b = multi_put b" using s(3) by (simp add: multi_put_def)
  have prep: "multi_prepared ?b = multi_prepared b" using s(4) put by (simp add: multi_prepared_def multi_end_def)
  have comm: "length (multi_committed ?b) = length (multi_committed b)"
    using at s(3,5) out(1) False by (simp add: multi_committed_def s(2))
  have "multi_inv ?b"
    using inv at comm ne s out(1) False by (simp add: multi_inv_def)
  with l at put prep show ?thesis by simp
qed

lemma committed_length:
  assumes "mb_out b \<le> length (mb_list b)"
    and "if multi_at_end b then mb_out_pos b = 0 else mb_out_pos b \<le> length (mb_list b ! mb_out b)"
  shows "length (multi_committed b) = multi_put b"
  using assms by (auto simp: multi_committed_def multi_put_def multi_at_end_def min_absorb2)

lemma multi_in_pos_le:
  assumes "multi_inv b"
  shows "mb_in_pos b \<le> multi_put b"
proof (cases "mb_out b")
  case 0
  with assms show ?thesis
    by (cases "mb_list b") (auto simp: multi_inv_def multi_put_def multi_at_end_def)
next
  case (Suc k)
  with assms have "mb_list b \<noteq> []" by (auto simp: multi_inv_def)
  with Suc assms show ?thesis by (cases "mb_list b") (auto simp: multi_inv_def multi_put_def)
qed

lemma take_last: "Suc k = length l \<Longrightarrow> butlast l = take k l \<and> last l = l ! k \<and> concat l = concat (take k l) @ l ! k"
  by (cases l rule: rev_cases) (auto simp: nth_append)

lemma multi_commit_loop_ok:
  assumes "multi_inv b" "\<not> multi_at_end b" "n \<le> multi_prepared b"
  shows "multi_inv (multi_commit_loop n b) \<and> mb_list (multi_commit_loop n b) = mb_list b \<and>
    mb_in_pos (multi_commit_loop n b) = mb_in_pos b \<and> multi_put (multi_commit_loop n b) = multi_put b + n \<and>
    multi_prepared (multi_commit_loop n b) = multi_prepared b - n \<and>
    mb_in_size (multi_commit_loop n b) = mb_in_size b + n"
  using assms
proof (induction n b rule: multi_commit_loop.induct)
  case (1 n b)
  note out = multi_open [OF 1(2,3)]
  note put = multi_put_end [OF 1(2)]
  have size: "mb_in_size b = multi_put b - mb_in_pos b"
    using 1(2) multi_committed_take(2) [OF 1(2)] by (simp add: multi_inv_def)
  note pos = multi_in_pos_le [OF 1(2)]
  define avail where "avail = length (mb_list b ! mb_out b) - mb_out_pos b"
  have inv: "0 < mb_alloc_size b" "\<forall>e \<in> set (mb_list b). e \<noteq> []" "mb_live b = length (mb_list b)"
    "mb_in_pos b < length (hd (mb_list b))"
    using 1(2) out(6) by (auto simp: multi_inv_def)
  show ?case
  proof (cases "mb_out b < multi_back b")
    case True
    then have nl: "Suc (mb_out b) < length (mb_list b)" by (simp add: multi_back_def)
    show ?thesis
    proof (cases "n < avail")
      case n: True
      let ?b = "b\<lparr>mb_out_pos := mb_out_pos b + n, mb_in_size := mb_in_size b + n\<rparr>"
      have r: "multi_commit_loop n b = ?b"
        using True n by (subst multi_commit_loop.simps) (simp add: avail_def)
      have at: "\<not> multi_at_end ?b" and p: "multi_put ?b = multi_put b + n"
        using 1(3) by (simp_all add: multi_at_end_def multi_put_def)
      have "length (multi_committed ?b) = multi_put ?b"
        using n at out by (intro committed_length) (auto simp: avail_def)
      with at p inv out n nl size pos have "multi_inv ?b" by (auto simp: multi_inv_def avail_def)
      with r p show ?thesis by (simp add: multi_prepared_def multi_end_def)
    next
      case n: False
      let ?b = "b\<lparr>mb_out := Suc (mb_out b), mb_out_pos := 0, mb_in_size := mb_in_size b + avail\<rparr>"
      have r: "multi_commit_loop n b = multi_commit_loop (n - avail) ?b"
        using True n by (subst multi_commit_loop.simps) (simp add: avail_def Let_def)
      have at: "\<not> multi_at_end ?b" using nl by (simp add: multi_at_end_def)
      have p: "multi_put ?b = multi_put b + avail"
        using out by (simp add: multi_put_def avail_def take_Suc_conv_app_nth)
      have "length (multi_committed ?b) = multi_put ?b"
        using nl at by (intro committed_length) auto
      moreover have "0 < length (mb_list b ! Suc (mb_out b))" using inv(2) nl by auto
      ultimately have i: "multi_inv ?b"
        using at p inv out nl size pos by (simp add: multi_inv_def)
      have e: "multi_prepared ?b = multi_prepared b - avail" using p by (simp add: multi_prepared_def multi_end_def)
      have "n - avail \<le> multi_prepared ?b" using e 1(4) by simp
      from 1(1) [OF True avail_def n i at this] r p e n show ?thesis by auto
    qed
  next
    case False
    with out(1) have k: "Suc (mb_out b) = length (mb_list b)" by (simp add: multi_back_def)
    note l = take_last [OF k]
    have prep: "multi_prepared b = mb_out_end b - mb_out_pos b"
      using l by (simp add: multi_prepared_def multi_end_def multi_put_def)
    with 1(4) have n: "min n (mb_out_end b - mb_out_pos b) = n" by simp
    have le: "mb_out_pos b + n \<le> mb_out_end b" using 1(4) prep out(5) k by simp
    show ?thesis
    proof (cases "mb_out_pos b + n = length (mb_list b ! mb_out b)")
      case True
      let ?b = "b\<lparr>mb_out := Suc (mb_out b), mb_out_pos := 0, mb_out_end := 0, mb_in_size := mb_in_size b + n\<rparr>"
      have r: "multi_commit_loop n b = ?b"
        using False True n by (subst multi_commit_loop.simps) (simp add: Let_def)
      have at: "multi_at_end ?b" using k by (simp add: multi_at_end_def)
      have p: "multi_put ?b = multi_put b + n" using True k l by (simp add: multi_put_def)
      have "length (multi_committed ?b) = multi_put ?b" using at k by (intro committed_length) auto
      with at p inv out k size pos have "multi_inv ?b" by (simp add: multi_inv_def)
      moreover have "multi_prepared ?b = multi_prepared b - n"
        using True le out(3) l prep k p by (simp add: multi_prepared_def multi_end_def multi_put_def)
      ultimately show ?thesis using r p by simp
    next
      case ne: False
      let ?b = "b\<lparr>mb_out_pos := mb_out_pos b + n, mb_in_size := mb_in_size b + n\<rparr>"
      have r: "multi_commit_loop n b = ?b"
        using False ne n by (subst multi_commit_loop.simps) (simp add: Let_def)
      have at: "\<not> multi_at_end ?b" and p: "multi_put ?b = multi_put b + n"
        using 1(3) by (simp_all add: multi_at_end_def multi_put_def)
      have lt: "mb_out_pos b + n < length (mb_list b ! mb_out b)" using ne le out(3) l by simp
      have "length (multi_committed ?b) = multi_put ?b"
        using lt at out by (intro committed_length) auto
      with at p inv out lt le size pos have "multi_inv ?b" by (auto simp: multi_inv_def)
      with r p show ?thesis by (simp add: multi_prepared_def multi_end_def)
    qed
  qed
qed

lemma multi_prepared_end: "multi_inv b \<Longrightarrow> multi_at_end b \<Longrightarrow> multi_prepared b = 0"
  by (cases "mb_list b" rule: rev_cases)
    (simp_all add: multi_prepared_def multi_end_def multi_put_def multi_inv_def multi_at_end_def)

lemma multi_store_commit:
  assumes inv: "multi_inv b" and xs: "length xs \<le> multi_prepared b"
  shows "multi_inv (multi_commit (length xs) (multi_store xs b)) \<and>
    concat (multi_data (multi_commit (length xs) (multi_store xs b))) = concat (multi_data b) @ xs \<and>
    multi_prepared (multi_commit (length xs) (multi_store xs b)) = multi_prepared b - length xs \<and>
    mb_in_size (multi_commit (length xs) (multi_store xs b)) = mb_in_size b + length xs"
proof (cases "multi_at_end b")
  case True
  then have "xs = []" using multi_prepared_end [OF inv] xs by simp
  moreover from this True have "multi_store xs b = b" by (simp add: multi_store_def multi_store_from.simps)
  ultimately show ?thesis using inv True by (simp add: multi_commit_def)
next
  case False
  define b1 where "b1 = multi_store xs b"
  note s = multi_store_ok [OF assms, folded b1_def]
  have at: "\<not> multi_at_end b1" using s False by simp
  then have "mb_list b1 \<noteq> []" using multi_open(6) s by blast
  with at have c: "multi_commit (length xs) b1 = multi_commit_loop (length xs) b1" by (simp add: multi_commit_def)
  have "length xs \<le> multi_prepared b1" using s xs by simp
  then have l: "multi_inv (multi_commit (length xs) b1)" "mb_list (multi_commit (length xs) b1) = mb_list b1"
    "mb_in_pos (multi_commit (length xs) b1) = mb_in_pos b1"
    "multi_put (multi_commit (length xs) b1) = multi_put b1 + length xs"
    "multi_prepared (multi_commit (length xs) b1) = multi_prepared b1 - length xs"
    "mb_in_size (multi_commit (length xs) b1) = mb_in_size b1 + length xs"
    using multi_commit_loop_ok [OF _ at, of "length xs"] s c by simp_all
  have fit: "multi_put b + length xs \<le> length (concat (mb_list b))"
    using multi_put_end [OF inv] False xs by (simp add: multi_prepared_def)
  have "concat (multi_data (multi_commit (length xs) b1)) =
      slice (poke (concat (mb_list b)) (multi_put b) xs) (mb_in_pos b) (multi_put b + length xs)"
    using l s by (simp add: multi_contents multi_committed_take(1) slice_def drop_take)
  also have "\<dots> = slice (concat (mb_list b)) (mb_in_pos b) (multi_put b) @ xs"
    by (rule slice_poke [OF multi_in_pos_le [OF inv] fit])
  also have "slice (concat (mb_list b)) (mb_in_pos b) (multi_put b) = concat (multi_data b)"
    using inv by (simp add: multi_contents multi_committed_take(1) slice_def drop_take)
  finally show ?thesis using l s b1_def by simp
qed

lemma multi_commit_nothing:
  assumes inv: "multi_inv b" and none: "multi_prepared b = 0"
  shows "multi_commit n b = b"
proof (cases "multi_at_end b")
  case False
  note out = multi_open [OF inv False]
  have k: "Suc (mb_out b) = length (mb_list b)"
  proof (rule ccontr)
    assume "Suc (mb_out b) \<noteq> length (mb_list b)"
    with out(1) have "Suc (mb_out b) < length (mb_list b)" by simp
    then have "take (Suc (mb_out b)) (mb_list b) = take (Suc (mb_out b)) (butlast (mb_list b))" by (simp add: take_butlast)
    then have "concat (butlast (mb_list b)) =
        concat (take (Suc (mb_out b)) (mb_list b)) @ concat (drop (Suc (mb_out b)) (butlast (mb_list b)))"
      by (metis append_take_drop_id concat_append)
    with out(1,2) none show False
      by (simp add: multi_prepared_def multi_end_def multi_put_def take_Suc_conv_app_nth)
  qed
  note l = take_last [OF k]
  have "mb_out_end b = mb_out_pos b"
    using none l out(5) k by (simp add: multi_prepared_def multi_end_def multi_put_def)
  moreover have "\<not> mb_out b < multi_back b" using k by (simp add: multi_back_def)
  ultimately show ?thesis
    using out False by (simp add: multi_commit_def multi_commit_loop.simps [of n b])
qed (simp add: multi_commit_def)

section \<open>consume\<close>

lemma multi_consume_loop_ok:
  assumes "multi_inv b"
  shows "multi_inv (multi_consume_loop n b) \<and>
    concat (multi_data (multi_consume_loop n b)) = drop n (concat (multi_data b)) \<and>
    mb_in_size (multi_consume_loop n b) \<le> mb_in_size b"
  using assms
proof (induction n b rule: multi_consume_loop.induct)
  case (1 n b)
  note inv = 1(2)
  have size: "mb_in_size b = length (multi_committed b) - mb_in_pos b" using inv by (simp add: multi_inv_def)
  show ?case
  proof (cases "mb_out b \<noteq> 0 \<and> mb_list b \<noteq> []")
    case True
    define avail where "avail = length (hd (mb_list b)) - mb_in_pos b"
    let ?c = "b\<lparr>mb_in_size := mb_in_size b - n, mb_in_pos := mb_in_pos b + n\<rparr>"
    let ?d = "b\<lparr>mb_in_size := mb_in_size b - avail, mb_in_pos := 0, mb_list := tl (mb_list b),
      mb_out := mb_out b - 1, mb_live := mb_live b - 1\<rparr>"
    obtain e r where l: "mb_list b = e # r" using True by (cases "mb_list b") auto
    obtain k where k: "mb_out b = Suc k" using True by (cases "mb_out b") auto
    have pos: "mb_in_pos b < length e" using inv l by (simp add: multi_inv_def)
    have at: "multi_at_end ?d = multi_at_end b" using l k by (simp add: multi_at_end_def)
    have c: "multi_committed b = e @ multi_committed ?d" using l k at by (simp add: multi_committed_def)
    show ?thesis
    proof (cases "n < avail")
      case n: True
      have r: "multi_consume_loop n b = ?c"
        using True n by (subst multi_consume_loop.simps) (simp add: avail_def)
      have at': "multi_at_end ?c = multi_at_end b" by (simp add: multi_at_end_def)
      have c': "multi_committed ?c = multi_committed b" using at' by (simp add: multi_committed_def)
      have "multi_inv ?c" using inv at' c' n l k size by (auto simp: multi_inv_def avail_def)
      with r c' show ?thesis by (simp add: multi_contents inv add.commute)
    next
      case n: False
      have r: "multi_consume_loop n b = multi_consume_loop (n - avail) ?d"
        using True n by (subst multi_consume_loop.simps) (simp add: avail_def Let_def)
      have i: "multi_inv ?d"
      proof -
        have sz: "mb_in_size b - avail = length (multi_committed ?d)"
          using size c pos l by (simp add: avail_def)
        have hd: "r \<noteq> [] \<Longrightarrow> 0 < length (hd r)" using inv l by (cases r) (auto simp: multi_inv_def)
        show ?thesis
        proof (cases "multi_at_end b")
          case e: True
          with inv at l k sz hd show ?thesis by (simp add: multi_inv_def)
        next
          case e: False
          then have "r \<noteq> []" using multi_open(1) [OF inv e] l k by auto
          with e inv at l k sz hd show ?thesis by (simp add: multi_inv_def)
        qed
      qed
      have "drop n (drop (mb_in_pos b) (multi_committed b)) = drop (n - avail) (multi_committed ?d)"
        using c n pos l by (simp add: avail_def)
      with 1(1) [OF True avail_def n i] r i show ?thesis
        by (simp add: multi_contents inv) (meson diff_le_self le_trans)
    qed
  next
    case False
    with inv have o: "mb_out b = 0" by (auto simp: multi_inv_def)
    let ?c = "b\<lparr>mb_in_size := mb_in_size b - n, mb_in_pos := mb_in_pos b + n\<rparr>"
    have c: "multi_committed b = (if multi_at_end b then [] else take (mb_out_pos b) (hd (mb_list b)))"
      using o by (cases "mb_list b") (simp_all add: multi_committed_def multi_at_end_def)
    have e: "multi_at_end b \<longleftrightarrow> mb_list b = []" using o by (auto simp: multi_at_end_def)
    show ?thesis
    proof (cases "n < mb_out_pos b - mb_in_pos b")
      case n: True
      have r: "multi_consume_loop n b = ?c"
        using o n by (subst multi_consume_loop.simps) simp
      have at': "multi_at_end ?c = multi_at_end b" by (simp add: multi_at_end_def)
      have c': "multi_committed ?c = multi_committed b" using at' by (simp add: multi_committed_def)
      have ne: "\<not> multi_at_end b" using n inv by (auto simp: multi_inv_def)
      have "mb_out_pos b < length (hd (mb_list b))" using multi_open(2,6) [OF inv ne] o by (simp add: hd_conv_nth)
      with n have "mb_in_pos b + n < length (hd (mb_list b))" "mb_in_pos b + n \<le> mb_out_pos b" by simp_all
      with inv at' c' ne o size multi_open(6) [OF inv ne] have "multi_inv ?c" by (simp add: multi_inv_def)
      with r c' show ?thesis by (simp add: multi_contents inv add.commute)
    next
      case n: False
      have empty: "drop n (drop (mb_in_pos b) (multi_committed b)) = []" using n c by auto
      let ?p = "b\<lparr>mb_in_size := 0, mb_in_pos := mb_out_pos b\<rparr>"
      let ?z = "b\<lparr>mb_in_size := 0, mb_in_pos := 0, mb_out_pos := 0, mb_out_end := 0\<rparr>"
      show ?thesis
      proof (cases "mb_out b \<noteq> multi_back b \<or> mb_out_pos b \<noteq> mb_out_end b")
        case True
        have r: "multi_consume_loop n b = ?p"
          using o n True by (subst multi_consume_loop.simps) (simp add: Let_def multi_back_def)
        have ne: "\<not> multi_at_end b" using True inv o e by (auto simp: multi_inv_def multi_back_def)
        have at': "multi_at_end ?p = multi_at_end b" by (simp add: multi_at_end_def)
        have c': "multi_committed ?p = multi_committed b" using at' by (simp add: multi_committed_def)
        have "mb_out_pos b < length (hd (mb_list b))" using multi_open(2,6) [OF inv ne] o by (simp add: hd_conv_nth)
        with inv at' c' ne o c multi_open(6) [OF inv ne] have "multi_inv ?p" by (simp add: multi_inv_def)
        moreover have "drop (mb_out_pos b) (multi_committed b) = []" using c by auto
        ultimately show ?thesis using r c' empty by (simp add: multi_contents inv)
      next
        case z: False
        have r: "multi_consume_loop n b = ?z"
          using o n z by (subst multi_consume_loop.simps) (simp add: Let_def multi_back_def)
        have at': "multi_at_end ?z = multi_at_end b" by (simp add: multi_at_end_def)
        have c': "multi_committed ?z = []" using o by (simp add: multi_committed_def)
        have "multi_inv ?z"
          using inv at' c' o e by (cases "mb_list b") (auto simp: multi_inv_def)
        with r c' empty show ?thesis by (simp add: multi_contents inv)
      qed
    qed
  qed
qed

lemma multi_consume_ok:
  "multi_inv b \<Longrightarrow> multi_inv (multi_consume n b) \<and> concat (multi_data (multi_consume n b)) = drop n (concat (multi_data b)) \<and>
     mb_in_size (multi_consume n b) \<le> mb_in_size b"
proof (cases "mb_list b = []")
  case True
  moreover assume "multi_inv b"
  ultimately show ?thesis
    by (simp add: multi_consume_def multi_contents multi_committed_def multi_inv_def multi_at_end_def)
next
  case False
  moreover assume "multi_inv b"
  ultimately show ?thesis using multi_consume_loop_ok [of b n] by (simp add: multi_consume_def)
qed

section \<open>The DynamicBuffer concept\<close>

lemma multi_db_simps [simp]:
  "db_data (multi_db junk) = multi_data" "db_prepare (multi_db junk) = multi_prepare junk"
  "db_store (multi_db junk) = multi_store" "db_commit (multi_db junk) = multi_commit"
  "db_consume (multi_db junk) = multi_consume"
  by (simp_all add: multi_db_def)

lemma multi_db_contents: "db_contents (multi_db junk) b = concat (multi_data b)"
  by (simp add: db_contents_def)

interpretation multi: dynamic_octets "multi_db junk" multi_inv multi_prepared multi_room for junk
proof unfold_locales
  fix b :: multi_buffer and n :: nat
  assume "multi_inv b"
  from multi_prepare_ok [OF this, of junk n] show "\<exists>b'. db_prepare (multi_db junk) n b = Ok b' \<and> multi_inv b' \<and>
      db_contents (multi_db junk) b' = db_contents (multi_db junk) b \<and> multi_prepared b' = n \<and> multi_room b' = multi_room b"
    by (auto simp: multi_db_contents multi_room_def)
qed (simp_all add: multi_db_contents multi_store_commit multi_commit_nothing multi_consume_ok multi_room_def diff_le_mono2)

section \<open>Copies and moves hold the octets of the original\<close>

lemma multi_clear_inv:
  assumes "multi_inv b"
  shows "multi_inv (multi_clear b)" "concat (multi_data (multi_clear b)) = []" "mb_in_size (multi_clear b) = 0"
  using assms
  by (simp_all add: multi_clear_def multi_inv_def multi_at_end_def multi_committed_def multi_data_def)

lemma multi_copy_assign_ok:
  assumes "multi_inv b" "length (concat (multi_data other)) \<le> multi_max_size"
  shows "\<exists>b'. multi_copy_assign junk other b = Ok b' \<and> multi_inv b' \<and> concat (multi_data b') = concat (multi_data other)"
proof -
  note c = multi_clear_inv [OF assms(1)]
  have "length (concat (multi_data other)) \<le> multi_room (multi_clear b)" using assms(2) c(3) by (simp add: multi_room_def)
  from multi.append_ok [OF c(1) this] c(2) show ?thesis
    unfolding multi_copy_assign_def multi_copy_into_def multi_db_contents by (metis append_Nil)
qed

lemma multi_move_assign_ok:
  assumes "multi_inv b" "multi_inv other"
  shows "multi_inv (fst (multi_move_assign other b)) \<and>
    concat (multi_data (fst (multi_move_assign other b))) = concat (multi_data other) \<and>
    multi_inv (snd (multi_move_assign other b)) \<and> concat (multi_data (snd (multi_move_assign other b))) = []"
proof -
  let ?m = "fst (multi_move_assign other b)"
  have e: "multi_at_end ?m = multi_at_end other" "multi_committed ?m = multi_committed other"
    by (simp_all add: multi_move_assign_def multi_move_def multi_at_end_def multi_committed_def)
  have i: "multi_inv ?m"
    using assms e by (simp add: multi_inv_def multi_move_assign_def multi_move_def multi_clear_def)
  have "mb_in_pos ?m = mb_in_pos other" by (simp add: multi_move_assign_def multi_move_def)
  moreover have "multi_inv (snd (multi_move_assign other b))" "multi_data (snd (multi_move_assign other b)) = []"
    using assms(2)
    by (simp_all add: multi_move_assign_def multi_move_def multi_inv_def multi_at_end_def multi_committed_def multi_data_def)
  ultimately show ?thesis using i e(2) by (simp add: multi_contents assms(2))
qed

section \<open>Properties\<close>

lemma multi_init_inv: "multi_init n = Ok b \<Longrightarrow> multi_inv b \<and> concat (multi_data b) = [] \<and> mb_in_size b = 0"
  by (auto simp: multi_init_def multi_inv_def multi_at_end_def multi_committed_def multi_data_def split: if_splits)



end
