(* ===== verification/Core_Flat_Buffer.thy ===== *)
theory Core_Flat_Buffer
  imports Core_Buffers
begin

text \<open>
  \<open>basic_flat_buffer\<close>, \<open>include/beast/core/flat_buffer.hpp\<close> and \<open>impl/flat_buffer.ipp\<close>. The
  pointer \<open>p_\<close> is the block it points to, \<open>None\<close> when it is null; \<open>in_\<close>, \<open>out_\<close> and \<open>last_\<close>
  are offsets from \<open>p_\<close> and \<open>end_\<close> is the end of the block. \<open>fl_live\<close> counts the blocks
  that were obtained from the allocator and not given back to it. A new block holds the
  octets \<open>junk\<close>, which nothing in the code relies on.
\<close>

section \<open>The buffer\<close>

record flat_buffer =
  fl_p :: "bytes option"
  fl_in :: nat
  fl_out :: nat
  fl_last :: nat
  fl_max :: nat
  fl_live :: nat

definition flat_block :: "flat_buffer \<Rightarrow> bytes" where
  "flat_block b = (case fl_p b of None \<Rightarrow> [] | Some m \<Rightarrow> m)"

definition flat_size :: "flat_buffer \<Rightarrow> nat" where
  "flat_size b = fl_out b - fl_in b"

definition flat_capacity :: "flat_buffer \<Rightarrow> nat" where
  "flat_capacity b = length (flat_block b)"

definition flat_data :: "flat_buffer \<Rightarrow> bytes list" where
  "flat_data b = [slice (flat_block b) (fl_in b) (fl_out b)]"

fun bit_count :: "nat \<Rightarrow> nat" where
  "bit_count x = (if x = 0 then 0 else Suc (bit_count (x div 2)))"

declare bit_count.simps [simp del]

definition next_pow2 :: "nat \<Rightarrow> nat" where
  "next_pow2 x = 2 ^ bit_count x"

definition flat_new_size :: "nat \<Rightarrow> flat_buffer \<Rightarrow> nat" where
  "flat_new_size n b = min (fl_max b) (max (next_pow2 n) 512)"

definition new_block :: "(nat \<Rightarrow> u8) \<Rightarrow> nat \<Rightarrow> bytes" where
  "new_block junk n = map junk [0..<n]"

definition flat_init :: "nat \<Rightarrow> flat_buffer" where
  "flat_init limit = \<lparr>fl_p = None, fl_in = 0, fl_out = 0, fl_last = 0, fl_max = limit, fl_live = 0\<rparr>"

definition flat_prepare :: "(nat \<Rightarrow> u8) \<Rightarrow> nat \<Rightarrow> flat_buffer \<Rightarrow> (length_error, flat_buffer) outcome" where
  "flat_prepare junk n b =
     (if n \<le> flat_capacity b - fl_out b then Ok (b\<lparr>fl_last := fl_out b + n\<rparr>)
      else
        let len = flat_size b in
        if n \<le> flat_capacity b - len then
          Ok (b\<lparr>fl_p := (if len > 0 then Some (poke (flat_block b) 0 (slice (flat_block b) (fl_in b) (fl_out b)))
                        else fl_p b),
                fl_in := 0, fl_out := len, fl_last := len + n\<rparr>)
        else if n > fl_max b - len then Err Length_error
        else
          let p = new_block junk (flat_new_size (len + n) b) in
          Ok (b\<lparr>fl_p := Some (if len > 0 then poke p 0 (slice (flat_block b) (fl_in b) (fl_out b)) else p),
                fl_in := 0, fl_out := len, fl_last := len + n,
                fl_live := (if len > 0 then fl_live b + 1 - 1 else fl_live b + 1)\<rparr>))"

definition flat_store :: "bytes \<Rightarrow> flat_buffer \<Rightarrow> flat_buffer" where
  "flat_store xs b = b\<lparr>fl_p := map_option (\<lambda>m. poke m (fl_out b) xs) (fl_p b)\<rparr>"

definition flat_commit :: "nat \<Rightarrow> flat_buffer \<Rightarrow> flat_buffer" where
  "flat_commit n b = b\<lparr>fl_out := fl_out b + min n (fl_last b - fl_out b)\<rparr>"

definition flat_consume :: "nat \<Rightarrow> flat_buffer \<Rightarrow> flat_buffer" where
  "flat_consume n b =
     (if n \<ge> fl_out b - fl_in b then b\<lparr>fl_in := 0, fl_out := 0\<rparr>
      else b\<lparr>fl_in := fl_in b + n\<rparr>)"

definition flat_reserve :: "(nat \<Rightarrow> u8) \<Rightarrow> nat \<Rightarrow> flat_buffer \<Rightarrow> (length_error, flat_buffer) outcome" where
  "flat_reserve junk n b =
     (if n \<le> flat_capacity b then Ok b
      else if n > fl_max b then Err Length_error
      else
        let p = new_block junk (flat_new_size n b); len = flat_size b in
        Ok (b\<lparr>fl_p := Some (if len > 0 then poke p 0 (slice (flat_block b) (fl_in b) (fl_out b)) else p),
              fl_in := 0, fl_out := len, fl_last := len,
              fl_live := (if len > 0 then fl_live b + 1 - 1 else fl_live b + 1)\<rparr>))"

definition flat_shrink_to_fit :: "(nat \<Rightarrow> u8) \<Rightarrow> flat_buffer \<Rightarrow> flat_buffer" where
  "flat_shrink_to_fit junk b =
     (let len = flat_size b in
      if len = flat_capacity b then b
      else b\<lparr>fl_p := (if len > 0 then Some (poke (new_block junk len) 0 (slice (flat_block b) (fl_in b) (fl_out b)))
                      else None),
             fl_in := 0, fl_out := len, fl_last := len,
             fl_live := (if len > 0 then fl_live b + 1 else fl_live b) - 1\<rparr>)"

text \<open>The constructors from another buffer; the moved-from buffer is the second result.\<close>

definition flat_move_from :: "flat_buffer \<Rightarrow> flat_buffer \<times> flat_buffer" where
  "flat_move_from other =
     (\<lparr>fl_p = fl_p other, fl_in = fl_in other, fl_out = fl_out other, fl_last = fl_out other,
       fl_max = fl_max other, fl_live = fl_live other\<rparr>,
      other\<lparr>fl_p := None, fl_in := 0, fl_out := 0, fl_last := 0, fl_live := 0\<rparr>)"

definition flat_copy_from :: "(nat \<Rightarrow> u8) \<Rightarrow> flat_buffer \<Rightarrow> flat_buffer" where
  "flat_copy_from junk other =
     (let n = flat_size other in
      if n > 0 then
        \<lparr>fl_p = Some (poke (new_block junk n) 0 (slice (flat_block other) (fl_in other) (fl_out other))),
         fl_in = 0, fl_out = n, fl_last = n, fl_max = fl_max other, fl_live = 1\<rparr>
      else \<lparr>fl_p = None, fl_in = 0, fl_out = 0, fl_last = 0, fl_max = fl_max other, fl_live = 0\<rparr>)"

text \<open>The destructor, as the number of blocks that are never given back.\<close>

definition flat_destroy :: "flat_buffer \<Rightarrow> nat" where
  "flat_destroy b = (if fl_p b \<noteq> None then fl_live b - 1 else fl_live b)"

definition flat_read_size_helper :: "flat_buffer \<Rightarrow> nat \<Rightarrow> nat" where
  "flat_read_size_helper b max_size =
     (let len = flat_size b; avail = flat_capacity b - len in
      if avail > 0 then min avail max_size
      else
        let size = min (flat_capacity b * 2) (fl_max b) - len in
        min (if size = 0 then 1 else size) max_size)"

definition flat_db :: "(nat \<Rightarrow> u8) \<Rightarrow> flat_buffer dynbuf" where
  "flat_db junk = \<lparr>db_data = flat_data, db_prepare = flat_prepare junk, db_store = flat_store,
     db_commit = flat_commit, db_consume = flat_consume\<rparr>"

section \<open>The DynamicBuffer contract\<close>

definition flat_inv :: "flat_buffer \<Rightarrow> bool" where
  "flat_inv b \<longleftrightarrow> fl_in b \<le> fl_out b \<and> fl_out b \<le> fl_last b \<and> fl_last b \<le> flat_capacity b \<and>
     flat_capacity b \<le> fl_max b \<and> (fl_p b = None \<longrightarrow> flat_capacity b = 0)"

definition flat_prepared :: "flat_buffer \<Rightarrow> nat" where
  "flat_prepared b = fl_last b - fl_out b"

definition flat_room :: "flat_buffer \<Rightarrow> nat" where
  "flat_room b = fl_max b - flat_size b"

lemmas flat_defs = flat_block_def flat_size_def flat_capacity_def flat_data_def flat_commit_def
  flat_consume_def flat_inv_def flat_prepared_def flat_room_def

lemma flat_contents [simp]:
  "db_contents (flat_db junk) b = slice (flat_block b) (fl_in b) (fl_out b)"
  by (simp add: db_contents_def flat_db_def flat_data_def)

lemma flat_db_simps [simp]:
  "db_data (flat_db junk) = flat_data" "db_prepare (flat_db junk) = flat_prepare junk"
  "db_store (flat_db junk) = flat_store" "db_commit (flat_db junk) = flat_commit"
  "db_consume (flat_db junk) = flat_consume"
  by (simp_all add: flat_db_def)

lemma bit_count_bound: "x < 2 ^ bit_count x"
proof (induction x rule: bit_count.induct)
  case (1 x)
  show ?case
  proof (cases "x = 0")
    case False
    with 1 have "x div 2 < 2 ^ bit_count (x div 2)" by simp
    moreover have "bit_count x = Suc (bit_count (x div 2))" using False by (subst bit_count.simps) simp
    ultimately show ?thesis by simp
  qed simp
qed

lemma next_pow2_gt: "x < next_pow2 x"
  by (simp add: next_pow2_def bit_count_bound)

lemma flat_new_size_bounds: "n \<le> fl_max b \<Longrightarrow> n \<le> flat_new_size n b \<and> flat_new_size n b \<le> fl_max b"
  using next_pow2_gt [of n] by (simp add: flat_new_size_def)

lemma length_new_block [simp]: "length (new_block junk n) = n"
  by (simp add: new_block_def)

lemma slice_poke_front: "length xs \<le> length m \<Longrightarrow> slice (poke m 0 xs) 0 (length xs) = xs"
  using slice_poke [of 0 0 xs m] by simp

lemma flat_prepare_ok:
  assumes inv: "flat_inv b" and n: "n \<le> flat_room b"
  shows "\<exists>b'. flat_prepare junk n b = Ok b' \<and> flat_inv b' \<and>
    slice (flat_block b') (fl_in b') (fl_out b') = slice (flat_block b) (fl_in b) (fl_out b) \<and>
    flat_prepared b' = n \<and> flat_room b' = flat_room b"
proof -
  let ?xs = "slice (flat_block b) (fl_in b) (fl_out b)"
  have len: "length ?xs = flat_size b" using inv by (simp add: flat_defs)
  consider "n \<le> flat_capacity b - fl_out b"
    | "\<not> n \<le> flat_capacity b - fl_out b" "n \<le> flat_capacity b - flat_size b"
    | "\<not> n \<le> flat_capacity b - fl_out b" "\<not> n \<le> flat_capacity b - flat_size b" by blast
  then show ?thesis
  proof cases
    case 1
    with inv show ?thesis by (auto simp: flat_prepare_def flat_inv_def flat_block_def flat_size_def
          flat_capacity_def flat_prepared_def flat_room_def)
  next
    case 2
    with inv n len slice_poke_front [of ?xs "flat_block b"] show ?thesis
      by (cases "flat_size b = 0")
        (auto simp: flat_prepare_def Let_def flat_inv_def flat_block_def flat_size_def
          flat_capacity_def flat_prepared_def flat_room_def split: option.splits)
  next
    case 3
    have "flat_size b \<le> fl_max b" using inv by (auto simp: flat_inv_def flat_size_def)
    with n have "flat_size b + n \<le> fl_max b" by (simp add: flat_room_def)
    from flat_new_size_bounds [OF this] inv 3 n len
      slice_poke_front [of ?xs "new_block junk (flat_new_size (flat_size b + n) b)"]
    show ?thesis
      by (cases "flat_size b = 0")
        (auto simp: flat_prepare_def Let_def flat_inv_def flat_block_def flat_size_def
          flat_capacity_def flat_prepared_def flat_room_def)
  qed
qed

interpretation flat: dynamic_buffer "flat_db junk" flat_inv flat_prepared flat_room for junk
proof unfold_locales
  fix b :: flat_buffer and n :: nat
  assume "flat_inv b" "n \<le> flat_room b"
  then show "\<exists>b'. db_prepare (flat_db junk) n b = Ok b' \<and> flat_inv b' \<and>
      db_contents (flat_db junk) b' = db_contents (flat_db junk) b \<and> flat_prepared b' = n \<and>
      flat_room b' = flat_room b"
    using flat_prepare_ok by simp
next
  fix b :: flat_buffer and n :: nat
  assume "flat_inv b" "flat_room b < n"
  then show "db_prepare (flat_db junk) n b = Err Length_error"
    by (auto simp: flat_prepare_def Let_def flat_inv_def flat_room_def flat_size_def flat_capacity_def)
next
  fix b :: flat_buffer and xs :: bytes
  assume "flat_inv b" "length xs \<le> flat_prepared b"
  then show "flat_inv (db_commit (flat_db junk) (length xs) (db_store (flat_db junk) xs b)) \<and>
      db_contents (flat_db junk) (db_commit (flat_db junk) (length xs) (db_store (flat_db junk) xs b)) =
        db_contents (flat_db junk) b @ xs \<and>
      flat_prepared (db_commit (flat_db junk) (length xs) (db_store (flat_db junk) xs b)) =
        flat_prepared b - length xs \<and>
      flat_room (db_commit (flat_db junk) (length xs) (db_store (flat_db junk) xs b)) =
        flat_room b - length xs"
    by (cases "fl_p b") (auto simp: flat_defs flat_store_def slice_poke min_absorb1)
next
  fix b :: flat_buffer and n :: nat
  assume "flat_inv b"
  then show "flat_inv (db_consume (flat_db junk) n b) \<and>
      db_contents (flat_db junk) (db_consume (flat_db junk) n b) = drop n (db_contents (flat_db junk) b) \<and>
      flat_room b \<le> flat_room (db_consume (flat_db junk) n b)"
    by (auto simp: flat_defs)
qed (auto simp: flat_defs)

section \<open>Reserving, shrinking, copying\<close>

abbreviation flat_bytes :: "flat_buffer \<Rightarrow> bytes" where
  "flat_bytes b \<equiv> slice (flat_block b) (fl_in b) (fl_out b)"

lemma length_flat_bytes: "flat_inv b \<Longrightarrow> length (flat_bytes b) = flat_size b"
  by (simp add: flat_defs)

lemma flat_reserve_ok:
  assumes inv: "flat_inv b" and n: "n \<le> fl_max b"
  shows "\<exists>b'. flat_reserve junk n b = Ok b' \<and> flat_inv b' \<and> flat_bytes b' = flat_bytes b \<and>
    n \<le> flat_capacity b' \<and> fl_max b' = fl_max b"
proof (cases "n \<le> flat_capacity b")
  case False
  from inv False have "flat_size b \<le> n" by (auto simp: flat_defs)
  with flat_new_size_bounds [OF n] inv False n length_flat_bytes [OF inv]
    slice_poke_front [of "flat_bytes b" "new_block junk (flat_new_size n b)"]
  show ?thesis
    by (cases "flat_size b = 0")
      (auto simp: flat_reserve_def Let_def flat_inv_def flat_block_def flat_size_def flat_capacity_def)
qed (use inv in \<open>simp add: flat_reserve_def\<close>)

lemma flat_reserve_full: "flat_inv b \<Longrightarrow> fl_max b < n \<Longrightarrow> flat_reserve junk n b = Err Length_error"
  by (auto simp: flat_reserve_def flat_inv_def)

lemma flat_shrink_ok:
  assumes inv: "flat_inv b"
  shows "flat_inv (flat_shrink_to_fit junk b) \<and> flat_bytes (flat_shrink_to_fit junk b) = flat_bytes b \<and>
    fl_max (flat_shrink_to_fit junk b) = fl_max b \<and>
    flat_capacity (flat_shrink_to_fit junk b) = flat_size b"
  using inv length_flat_bytes [OF inv] slice_poke_front [of "flat_bytes b" "new_block junk (flat_size b)"]
  by (cases "flat_size b = 0")
    (auto simp: flat_shrink_to_fit_def Let_def flat_inv_def flat_block_def flat_size_def flat_capacity_def)

lemma flat_inv_init [simp]: "flat_inv (flat_init limit)"
  by (simp add: flat_defs flat_init_def)

lemma flat_bytes_init [simp]: "flat_bytes (flat_init limit) = []"
  by (simp add: flat_init_def)

section \<open>A bounded queue of octets\<close>

text \<open>
  What the class promises to a program that appends, consumes, reserves and shrinks in any
  order: a queue of at most \<open>limit\<close> octets. Where the octets lie, when they move and when a
  new block is allocated is invisible.
\<close>

datatype buffer_op = Append bytes | Consume nat | Reserve nat | Shrink

fun flat_step :: "(nat \<Rightarrow> u8) \<Rightarrow> buffer_op \<Rightarrow> flat_buffer \<Rightarrow> (length_error, flat_buffer) outcome" where
  "flat_step junk (Append xs) b = db_append (flat_db junk) xs b"
| "flat_step junk (Consume n) b = Ok (flat_consume n b)"
| "flat_step junk (Reserve n) b = flat_reserve junk n b"
| "flat_step junk Shrink b = Ok (flat_shrink_to_fit junk b)"

fun flat_run :: "(nat \<Rightarrow> u8) \<Rightarrow> buffer_op list \<Rightarrow> flat_buffer \<Rightarrow> (length_error, flat_buffer) outcome" where
  "flat_run junk [] b = Ok b"
| "flat_run junk (x # xs) b = ob (flat_step junk x b) (flat_run junk xs)"

fun queue_step :: "nat \<Rightarrow> buffer_op \<Rightarrow> bytes \<Rightarrow> (length_error, bytes) outcome" where
  "queue_step limit (Append xs) q = (if length q + length xs \<le> limit then Ok (q @ xs) else Err Length_error)"
| "queue_step limit (Consume n) q = Ok (drop n q)"
| "queue_step limit (Reserve n) q = (if n \<le> limit then Ok q else Err Length_error)"
| "queue_step limit Shrink q = Ok q"

fun queue_run :: "nat \<Rightarrow> buffer_op list \<Rightarrow> bytes \<Rightarrow> (length_error, bytes) outcome" where
  "queue_run limit [] q = Ok q"
| "queue_run limit (x # xs) q = ob (queue_step limit x q) (queue_run limit xs)"

definition flat_abs :: "(length_error, flat_buffer) outcome \<Rightarrow> (length_error, bytes) outcome" where
  "flat_abs r = ob r (\<lambda>b. Ok (flat_bytes b))"

lemma flat_prepare_max: "flat_prepare junk n b = Ok b' \<Longrightarrow> fl_max b' = fl_max b"
  by (auto simp: flat_prepare_def Let_def split: if_splits)

lemma flat_append_max: "db_append (flat_db junk) xs b = Ok b' \<Longrightarrow> fl_max b' = fl_max b"
  by (auto simp: db_append_def ob_eq_Ok flat_commit_def flat_store_def dest: flat_prepare_max)

lemma flat_step_refines:
  assumes inv: "flat_inv b"
  shows "flat_abs (flat_step junk x b) = queue_step (fl_max b) x (flat_bytes b) \<and>
    (\<forall>b'. flat_step junk x b = Ok b' \<longrightarrow> flat_inv b' \<and> fl_max b' = fl_max b)"
proof (cases x)
  case (Append xs)
  have sz: "length (flat_bytes b) = flat_size b" "flat_size b \<le> fl_max b"
    using inv by (auto simp: flat_defs)
  show ?thesis
  proof (cases "length xs \<le> flat_room b")
    case True
    with inv obtain b' where b': "db_append (flat_db junk) xs b = Ok b'" "flat_inv b'"
      "flat_bytes b' = flat_bytes b @ xs"
      by (auto elim: flat.append_ok [where junk = junk])
    with True sz flat_append_max [OF b'(1)] show ?thesis
      by (simp add: Append flat_abs_def flat_room_def)
  next
    case False
    with inv sz show ?thesis
      using flat.append_full [of b xs junk] by (simp add: Append flat_abs_def flat_room_def)
  qed
next
  case (Consume n)
  with flat.consume [OF inv, of junk n] show ?thesis
    by (simp add: flat_abs_def) (simp add: flat_consume_def)
next
  case (Reserve n)
  with flat_reserve_ok [OF inv, of n junk] flat_reserve_full [OF inv, of n junk] show ?thesis
    by (cases "n \<le> fl_max b") (auto simp: flat_abs_def)
next
  case Shrink
  with flat_shrink_ok [OF inv, of junk] show ?thesis by (simp add: flat_abs_def)
qed

lemma flat_run_refines:
  "flat_inv b \<Longrightarrow> flat_abs (flat_run junk xs b) = queue_run (fl_max b) xs (flat_bytes b)"
proof (induction xs arbitrary: b)
  case (Cons x xs)
  note step = flat_step_refines [OF Cons.prems, of junk x]
  show ?case
  proof (cases "flat_step junk x b")
    case (Ok b')
    with step Cons.IH [of b'] show ?thesis by (auto simp: flat_abs_def dest: sym)
  qed (use step in \<open>auto simp: flat_abs_def dest: sym\<close>)
qed (simp add: flat_abs_def)

section \<open>Properties\<close>


text \<open>A copy of a buffer holds the same octets in a block of just their size, and a moved
  buffer takes the block and leaves an empty buffer with the same limit.\<close>

theorem flat_copy_move:
  assumes "flat_inv b"
  shows "flat_bytes (flat_copy_from junk b) = flat_bytes b \<and> flat_inv (flat_copy_from junk b) \<and>
    flat_capacity (flat_copy_from junk b) = flat_size b \<and>
    (case flat_move_from b of (b1, b2) \<Rightarrow> flat_inv b1 \<and> flat_bytes b1 = flat_bytes b \<and>
      flat_prepared b1 = 0 \<and> flat_inv b2 \<and> flat_bytes b2 = [] \<and> flat_capacity b2 = 0 \<and>
      flat_destroy b1 + flat_destroy b2 = flat_destroy b)"
proof -
  have "flat_size b \<le> fl_max b" using assms by (auto simp: flat_defs)
  then show ?thesis
    using assms length_flat_bytes [OF assms] slice_poke_front [of "flat_bytes b" "new_block junk (flat_size b)"]
    by (cases "flat_size b = 0")
      (auto simp: flat_copy_from_def flat_move_from_def flat_destroy_def Let_def flat_inv_def
        flat_block_def flat_size_def flat_capacity_def flat_prepared_def)
qed

theorem flat_copy_move_witness:
  "flat_bytes (flat_copy_from (\<lambda>_. 7) \<lparr>fl_p = Some [1, 2, 3], fl_in = 1, fl_out = 3, fl_last = 3, fl_max = 9, fl_live = 1\<rparr>) = [2, 3]"
proof -
  let ?b = "\<lparr>fl_p = Some [1, 2, 3], fl_in = 1, fl_out = 3, fl_last = 3, fl_max = 9, fl_live = 1\<rparr>"
  have "flat_inv ?b" by (simp add: flat_defs)
  from flat_copy_move [OF this, of "\<lambda>_. 7"] show ?thesis
    by (simp add: flat_block_def slice_def numeral_eq_Suc)
qed

text \<open>The size \<open>read_size_helper\<close> suggests is between 1 and the maximum asked for, and
  \<open>prepare\<close> takes it as long as the buffer is not full.\<close>

theorem flat_read_size:
  assumes "flat_inv b" "1 \<le> m" "flat_size b < fl_max b"
  shows "1 \<le> flat_read_size_helper b m \<and> flat_read_size_helper b m \<le> m \<and>
    (\<exists>b'. flat_prepare junk (flat_read_size_helper b m) b = Ok b')"
proof -
  have "flat_read_size_helper b m \<le> flat_room b" "1 \<le> flat_read_size_helper b m"
    "flat_read_size_helper b m \<le> m"
    using assms by (auto simp: flat_read_size_helper_def Let_def flat_room_def flat_inv_def min_def)
  with flat_prepare_ok [OF assms(1)] show ?thesis by blast
qed

theorem flat_read_size_witness:
  "1 \<le> flat_read_size_helper (flat_init 9) 5 \<and> flat_read_size_helper (flat_init 9) 5 \<le> 5"
proof -
  have "flat_size (flat_init 9) < fl_max (flat_init 9)" by (simp add: flat_init_def flat_size_def)
  from flat_read_size [OF flat_inv_init _ this, of 5] show ?thesis by simp
qed

text \<open>When a drained buffer has to grow, the old block is not given back: it is lost.\<close>

theorem flat_prepare_leaks:
  assumes "flat_inv b" "flat_size b = 0" "fl_p b \<noteq> None" "1 \<le> fl_live b"
    and "flat_capacity b < n" "n \<le> fl_max b"
  shows "\<exists>b'. flat_prepare junk n b = Ok b' \<and> flat_destroy b' = flat_destroy b + 1"
  using assms by (auto simp: flat_prepare_def Let_def flat_destroy_def)

theorem flat_prepare_leaks_witness:
  "\<exists>b'. flat_prepare (\<lambda>_. 0) 600 \<lparr>fl_p = Some (replicate 512 0), fl_in = 0, fl_out = 0, fl_last = 100,
      fl_max = 4096, fl_live = 1\<rparr> = Ok b' \<and> flat_destroy b' = 1"
proof -
  let ?b = "\<lparr>fl_p = Some (replicate 512 0), fl_in = 0, fl_out = 0, fl_last = 100, fl_max = 4096, fl_live = 1\<rparr>"
  have "flat_inv ?b" "flat_size ?b = 0" "flat_capacity ?b < 600" by (simp_all add: flat_defs)
  from flat_prepare_leaks [OF this(1,2) _ _ this(3), of "\<lambda>_. 0"] show ?thesis
    by (simp add: flat_destroy_def)
qed

end
