(* ===== verification/Ws_Mask.thy ===== *)
theory Ws_Mask
  imports Prelude
begin

text \<open>
  Masking of WebSocket payloads, \<open>include/beast/websocket/detail/mask.hpp\<close>: the source of
  mask keys, the prepared key, and \<open>mask_inplace\<close> in its 32-bit and 64-bit forms. Memory is
  the list of the octets of a buffer; \<open>addr\<close> is the address of its first octet, which
  decides how much is masked octet by octet before the loop over aligned words. The loads
  and stores of a word are little endian, as on the platforms the code supports.
\<close>

section \<open>Source of mask keys\<close>

text \<open>
  \<open>std::minstd_rand\<close> is the linear congruential engine of the C++ standard with
  multiplier 48271, increment 0 and modulus \<open>2 ^ 31 - 1\<close>. \<open>rng\<close> is the value the random
  device delivers to \<open>rekey\<close>.
\<close>

type_synonym maskgen = nat

definition minstd_modulus :: nat where
  "minstd_modulus = 2147483647"

definition minstd_seed :: "nat \<Rightarrow> maskgen" where
  "minstd_seed s = (if s mod minstd_modulus = 0 then 1 else s mod minstd_modulus)"

definition minstd_next :: "maskgen \<Rightarrow> maskgen" where
  "minstd_next x = 48271 * x mod minstd_modulus"

definition rekey :: "u32 \<Rightarrow> maskgen" where
  "rekey rng = minstd_seed (unat rng)"

text \<open>The loop repeats while the generator delivers 0; \<open>None\<close> is a loop that does not end.\<close>

partial_function (option) maskgen_call :: "maskgen \<Rightarrow> (u32 \<times> maskgen) option" where
  "maskgen_call x =
     (let x' = minstd_next x in
      if (of_nat x' :: u32) \<noteq> 0 then Some (of_nat x', x') else maskgen_call x')"

definition maskgen_ok :: "maskgen \<Rightarrow> bool" where
  "maskgen_ok x \<longleftrightarrow> 0 < x \<and> x < minstd_modulus"

section \<open>Keys\<close>

text \<open>\<open>ror\<close> is called with \<open>n\<close> a multiple of 8 that is neither 0 nor the width.\<close>

definition ror :: "'a::len word \<Rightarrow> nat \<Rightarrow> 'a word" where
  "ror t n =
     (let bits = LENGTH('a); n = n mod bits in push_bit (bits - n) t OR drop_bit n t)"

definition prepare_key32 :: "u32 \<Rightarrow> u32" where
  "prepare_key32 key = key"

definition prepare_key64 :: "u32 \<Rightarrow> u64" where
  "prepare_key64 key = push_bit 32 (ucast key) OR ucast key"

section \<open>Masking\<close>

definition key_octet :: "'a::len word \<Rightarrow> nat \<Rightarrow> u8" where
  "key_octet key k = ucast (drop_bit (8 * k) key)"

fun load_le :: "bytes \<Rightarrow> 'a::len word" where
  "load_le [] = 0"
| "load_le (b # bs) = ucast b OR push_bit 8 (load_le bs)"

definition store_le :: "nat \<Rightarrow> 'a::len word \<Rightarrow> bytes" where
  "store_le n w = map (key_octet w) [0..<n]"

text \<open>
  The two switch statements: entering at the case for \<open>m\<close> octets falls through to
  \<open>p[m - 1] ^= key >> 8 * (m - 1); ...; p[0] ^= key\<close>.
\<close>

fun xor_down :: "'a::len word \<Rightarrow> nat \<Rightarrow> bytes \<Rightarrow> (unit, bytes) outcome" where
  "xor_down key 0 p = Ok p"
| "xor_down key (Suc m) p = ob (rd p m) (\<lambda>b. xor_down key m (p[m := b XOR key_octet key m]))"

text \<open>The loop over words; \<open>sz\<close> is \<open>sizeof(key)\<close>.\<close>

fun xor_words :: "nat \<Rightarrow> 'a::len word \<Rightarrow> nat \<Rightarrow> bytes \<Rightarrow> (unit, bytes) outcome" where
  "xor_words sz key 0 p = Ok p"
| "xor_words sz key (Suc i) p =
     (if length p < sz then Oob
      else ob (xor_words sz key i (drop sz p)) (\<lambda>r.
        Ok (store_le sz (load_le (take sz p) XOR key) @ r)))"

definition mask_align :: "nat \<Rightarrow> nat \<Rightarrow> 'a::len word \<Rightarrow> bytes \<Rightarrow> (unit, bytes \<times> bytes \<times> 'a word) outcome" where
  "mask_align sz addr key p =
     (let n = length p; i = addr mod sz in
      if n \<ge> sz \<and> i \<noteq> 0 then
        let d = sz - i in
        ob (xor_down key d p) (\<lambda>p. Ok (take d p, drop d p, ror key (8 * d)))
      else Ok ([], p, key))"

definition mask_fast :: "nat \<Rightarrow> nat \<Rightarrow> 'a::len word \<Rightarrow> bytes \<Rightarrow> (unit, bytes \<times> 'a word) outcome" where
  "mask_fast sz addr key p =
     ob (mask_align sz addr key p) (\<lambda>(h, p, key).
     let n = length p in
     ob (xor_words sz key (n div sz) p) (\<lambda>p.
     let w = n - n mod sz; n = n mod sz in
     if n = 0 then Ok (h @ p, key)
     else ob (xor_down key n (drop w p)) (\<lambda>t. Ok (h @ take w p @ t, ror key (8 * n)))))"

definition mask_inplace_fast32 :: "nat \<Rightarrow> u32 \<Rightarrow> bytes \<Rightarrow> (unit, bytes \<times> u32) outcome" where
  "mask_inplace_fast32 addr key p = mask_fast 4 addr key p"

definition mask_inplace_fast64 :: "nat \<Rightarrow> u64 \<Rightarrow> bytes \<Rightarrow> (unit, bytes \<times> u64) outcome" where
  "mask_inplace_fast64 addr key p = mask_fast 8 addr key p"

text \<open>
  The overload for a sequence of buffers threads the key; every buffer comes with its
  address. \<open>mask_one\<close> is the form for one buffer.
\<close>

fun mask_inplace :: "(nat \<Rightarrow> 'k \<Rightarrow> bytes \<Rightarrow> (unit, bytes \<times> 'k) outcome) \<Rightarrow>
    (nat \<times> bytes) list \<Rightarrow> 'k \<Rightarrow> (unit, bytes list \<times> 'k) outcome" where
  "mask_inplace mask_one [] key = Ok ([], key)"
| "mask_inplace mask_one ((addr, p) # bs) key =
     ob (mask_one addr key p) (\<lambda>(q, key).
     ob (mask_inplace mask_one bs key) (\<lambda>(qs, key). Ok (q # qs, key)))"

section \<open>Mask keys are not zero\<close>

lemma minstd_next_ok: "maskgen_ok x \<Longrightarrow> maskgen_ok (minstd_next x)"
proof -
  assume "maskgen_ok x"
  then have x: "0 < x" "x < minstd_modulus" by (simp_all add: maskgen_ok_def)
  have "coprime minstd_modulus 48271"
    unfolding coprime_iff_gcd_eq_1 minstd_modulus_def by (simp add: gcd_non_0_nat)
  then have "minstd_modulus dvd 48271 * x \<longleftrightarrow> minstd_modulus dvd x"
    by (rule coprime_dvd_mult_right_iff)
  moreover have "\<not> minstd_modulus dvd x" using x by (auto dest: dvd_imp_le)
  ultimately have "48271 * x mod minstd_modulus \<noteq> 0" by (simp add: dvd_eq_mod_eq_0)
  then show ?thesis
    by (simp add: maskgen_ok_def minstd_next_def) (simp add: minstd_modulus_def)
qed

lemma maskgen_ok_rekey: "maskgen_ok (rekey rng)"
  by (simp add: maskgen_ok_def rekey_def minstd_seed_def) (simp add: minstd_modulus_def)

lemma maskgen_call_Some:
  assumes "maskgen_ok x"
  shows "maskgen_call x = Some (of_nat (minstd_next x), minstd_next x)"
    "(of_nat (minstd_next x) :: u32) \<noteq> 0"
proof -
  have "0 < minstd_next x" "minstd_next x < 2 ^ 32"
    using minstd_next_ok [OF assms] by (auto simp: maskgen_ok_def minstd_modulus_def)
  then show ne: "(of_nat (minstd_next x) :: u32) \<noteq> 0"
    by (simp add: word_of_nat_eq_0_iff) (auto dest: dvd_imp_le)
  then show "maskgen_call x = Some (of_nat (minstd_next x), minstd_next x)"
    by (subst maskgen_call.simps) (simp add: Let_def)
qed

section \<open>Loads, stores and rotation, octet by octet\<close>

lemma bit_load_le:
  "bit (load_le bs :: 'a::len word) n \<longleftrightarrow>
     n < LENGTH('a) \<and> n div 8 < length bs \<and> bit (bs ! (n div 8)) (n mod 8)"
proof (induction bs arbitrary: n)
  case (Cons b bs)
  show ?case
  proof (cases "n < 8")
    case True
    then show ?thesis by (auto simp: bit_simps)
  next
    case False
    then have "n div 8 = Suc ((n - 8) div 8)" "(n - 8) mod 8 = n mod 8" "8 \<le> n"
      by (simp_all add: le_div_geq le_mod_geq)
    moreover from False have "\<not> bit b n"
      by (auto dest: bit_imp_le_length)
    ultimately show ?thesis
      using Cons.IH [of "n - 8"] by (auto simp: bit_simps)
  qed
qed simp

lemma bit_key_octet: "bit (key_octet key k) n \<longleftrightarrow> n < 8 \<and> bit key (8 * k + n)"
  by (auto simp: key_octet_def bit_simps dest: bit_imp_le_length)

lemma key_octet_load_le:
  assumes "k < length bs" "8 * length bs \<le> LENGTH('a)"
  shows "key_octet (load_le bs :: 'a::len word) k = bs ! k"
proof (rule bit_word_eqI)
  fix n assume "n < LENGTH(8)"
  then have "n < 8" by simp
  moreover from this assms have "8 * k + n < LENGTH('a)" by simp
  ultimately show "bit (key_octet (load_le bs :: 'a word) k) n = bit (bs ! k) n"
    using assms by (simp add: bit_key_octet bit_load_le)
qed

lemma key_octet_xor: "key_octet (a XOR b) k = key_octet a k XOR key_octet b k"
  by (rule bit_word_eqI) (simp add: bit_key_octet bit_simps)

lemma key_octet_ror:
  fixes key :: "'a::len word"
  assumes "LENGTH('a) = 8 * sz" "0 < d" "d < sz" "k < sz"
  shows "key_octet (ror key (8 * d)) k = key_octet key ((k + d) mod sz)"
proof (rule bit_word_eqI)
  fix n assume "n < LENGTH(8)"
  then have n: "n < 8" by simp
  have d: "8 * d mod LENGTH('a) = 8 * d" using assms by simp
  have r: "bit (ror key (8 * d)) (8 * k + n) \<longleftrightarrow>
      (8 * sz - 8 * d \<le> 8 * k + n \<and> bit key (8 * k + n - (8 * sz - 8 * d)) \<or> bit key (8 * d + (8 * k + n)))"
    using assms n by (auto simp: ror_def Let_def d bit_simps simp del: distrib_left_numeral)
  show "bit (key_octet (ror key (8 * d)) k) n = bit (key_octet key ((k + d) mod sz)) n"
  proof (cases "k + d < sz")
    case True
    then have "\<not> 8 * sz - 8 * d \<le> 8 * k + n" using n by simp
    moreover have e: "8 * d + (8 * k + n) = 8 * (k + d) + n" by simp
    ultimately have "bit (ror key (8 * d)) (8 * k + n) = bit key (8 * (k + d) + n)"
      using r unfolding e by blast
    then show ?thesis using True n by (simp add: bit_key_octet)
  next
    case False
    then have m: "(k + d) mod sz = k + d - sz" using assms by (simp add: le_mod_geq)
    have "\<not> bit key (8 * d + (8 * k + n))"
      using False assms by (auto dest: bit_imp_le_length)
    moreover have "8 * k + n - (8 * sz - 8 * d) = 8 * (k + d - sz) + n" using False assms by simp
    moreover have "8 * sz - 8 * d \<le> 8 * k + n" using False by simp
    ultimately show ?thesis using n r False assms by (simp add: bit_key_octet m)
  qed
qed

section \<open>Masking is exclusive or with the repeated key\<close>

text \<open>The exclusive or with a stream of octets, and the stream a key stands for.\<close>

primrec xor_stream :: "(nat \<Rightarrow> u8) \<Rightarrow> bytes \<Rightarrow> bytes" where
  "xor_stream f [] = []"
| "xor_stream f (b # p) = (b XOR f 0) # xor_stream (\<lambda>k. f (Suc k)) p"

definition key_stream :: "nat \<Rightarrow> 'a::len word \<Rightarrow> nat \<Rightarrow> u8" where
  "key_stream sz key k = key_octet key (k mod sz)"

lemma length_xor_stream [simp]: "length (xor_stream f p) = length p"
  by (induction p arbitrary: f) auto

lemma xor_stream_append:
  "xor_stream f (p @ q) = xor_stream f p @ xor_stream (\<lambda>k. f (length p + k)) q"
  by (induction p arbitrary: f) auto

lemma nth_xor_stream: "k < length p \<Longrightarrow> xor_stream f p ! k = p ! k XOR f k"
  by (induction p arbitrary: f k) (auto simp: nth_Cons split: nat.split)

lemma xor_stream_cong: "(\<And>k. k < length p \<Longrightarrow> f k = g k) \<Longrightarrow> xor_stream f p = xor_stream g p"
  by (intro nth_equalityI) (auto simp: nth_xor_stream)

lemma xor_stream_twice [simp]: "xor_stream f (xor_stream f p) = p"
  by (intro nth_equalityI) (auto simp: nth_xor_stream xor.assoc)

lemma xor_down_eq:
  "m \<le> length p \<Longrightarrow> xor_down key m p = Ok (xor_stream (key_octet key) (take m p) @ drop m p)"
proof (induction m arbitrary: p)
  case (Suc m)
  then have m: "m < length p" by simp
  let ?p = "p[m := p ! m XOR key_octet key m]"
  have "xor_down key (Suc m) p = Ok (xor_stream (key_octet key) (take m ?p) @ drop m ?p)"
    using Suc m by simp
  moreover have "drop m ?p = (p ! m XOR key_octet key m) # drop (Suc m) p"
    using m by (simp add: Cons_nth_drop_Suc [symmetric] drop_update_cancel)
  ultimately show ?case
    using m by (simp add: take_Suc_conv_app_nth xor_stream_append)
qed simp

lemma store_le_xor:
  assumes "length p = sz" "8 * sz = LENGTH('a)"
  shows "store_le sz (load_le p XOR (key :: 'a::len word)) = xor_stream (key_stream sz key) p"
  using assms
  by (intro nth_equalityI)
    (simp_all add: store_le_def nth_xor_stream key_octet_xor key_octet_load_le key_stream_def)

lemma xor_words_eq:
  assumes "8 * sz = LENGTH('a)"
  shows "i * sz \<le> length p \<Longrightarrow> xor_words sz (key :: 'a::len word) i p =
     Ok (xor_stream (key_stream sz key) (take (i * sz) p) @ drop (i * sz) p)"
proof (induction i arbitrary: p)
  case (Suc i)
  have t: "take (sz + i * sz) p = take sz p @ take (i * sz) (drop sz p)"
    by (rule take_add)
  have "key_stream sz key (sz + k) = key_stream sz key k" for k
    by (simp add: key_stream_def)
  with Suc assms show ?case
    by (simp add: t xor_stream_append store_le_xor add.commute del: take_add)
qed simp

lemma key_stream_ror:
  assumes "LENGTH('a) = 8 * sz" "0 < d" "d < sz"
  shows "key_stream sz (ror (key :: 'a::len word) (8 * d)) = (\<lambda>k. key_stream sz key (d + k))"
proof
  fix k
  have "k mod sz < sz" using assms by simp
  from key_octet_ror [OF assms this, of key]
  show "key_stream sz (ror key (8 * d)) k = key_stream sz key (d + k)"
    by (simp add: key_stream_def mod_simps add.commute)
qed

lemma key_stream_octet: "m \<le> sz \<Longrightarrow> k < m \<Longrightarrow> key_octet key k = key_stream sz key k"
  by (simp add: key_stream_def)

lemma mask_align_eq:
  assumes "LENGTH('a) = 8 * sz" "0 < sz"
  shows "\<exists>h r key'. mask_align sz addr (key :: 'a::len word) p = Ok (xor_stream (key_stream sz key) h, r, key') \<and>
     p = h @ r \<and> key_stream sz key' = (\<lambda>k. key_stream sz key (length h + k))"
proof (cases "sz \<le> length p \<and> addr mod sz \<noteq> 0")
  case False
  then show ?thesis by (intro exI [of _ "[]"] exI [of _ p] exI [of _ key]) (auto simp: mask_align_def)
next
  case True
  define d where "d = sz - addr mod sz"
  have d: "0 < d" "d < sz" "d \<le> length p"
    using True assms by (auto simp: d_def diff_less)
  have "xor_stream (key_octet key) (take d p) = xor_stream (key_stream sz key) (take d p)"
    using d by (intro xor_stream_cong) (simp add: key_stream_def)
  with True d have "mask_align sz addr key p =
      Ok (xor_stream (key_stream sz key) (take d p), drop d p, ror key (8 * d))"
    by (simp add: mask_align_def xor_down_eq Let_def flip: d_def)
  then show ?thesis
    using d key_stream_ror [OF assms(1) d(1,2), of key]
    by (intro exI [of _ "take d p"] exI [of _ "drop d p"] exI [of _ "ror key (8 * d)"])
      (simp add: min_absorb2)
qed

lemma mask_fast_eq:
  assumes "LENGTH('a) = 8 * sz" "0 < sz"
  shows "\<exists>key'. mask_fast sz addr (key :: 'a::len word) p = Ok (xor_stream (key_stream sz key) p, key') \<and>
     key_stream sz key' = (\<lambda>k. key_stream sz key (length p + k))"
proof -
  obtain h r key1 where a: "mask_align sz addr key p = Ok (xor_stream (key_stream sz key) h, r, key1)"
    "p = h @ r" "key_stream sz key1 = (\<lambda>k. key_stream sz key (length h + k))"
    using mask_align_eq [OF assms] by blast
  define m where "m = length r mod sz"
  define w where "w = length r div sz * sz"
  have w: "w \<le> length r" "length r - m = w" "length (drop w r) = m" "m < sz" "m \<le> length r"
    using assms by (simp_all add: w_def m_def minus_mod_eq_div_mult minus_div_mult_eq_mod)
  have words: "xor_words sz key1 (length r div sz) r =
      Ok (xor_stream (key_stream sz key1) (take w r) @ drop w r)"
    using assms w by (subst xor_words_eq) (simp_all add: w_def)
  have per: "key_stream sz key1 (w + k) = key_stream sz key1 k" for k
    by (simp add: key_stream_def w_def)
  have r: "xor_stream (key_stream sz key1) r =
      xor_stream (key_stream sz key1) (take w r) @ xor_stream (key_stream sz key1) (drop w r)"
    using xor_stream_append [of "key_stream sz key1" "take w r" "drop w r"] w
    by (simp add: min_absorb2 per)
  have p: "xor_stream (key_stream sz key) p =
      xor_stream (key_stream sz key) h @ xor_stream (key_stream sz key1) r"
    by (simp add: a xor_stream_append)
  have len: "key_stream sz key1 (length r + k) = key_stream sz key1 (m + k)" for k
    by (simp add: key_stream_def m_def mod_simps)
  show ?thesis
  proof (cases "m = 0")
    case True
    with w have "drop w r = []" by simp
    with True show ?thesis
      using a words r p len
      by (intro exI [of _ key1]) (simp add: mask_fast_def Let_def add.assoc flip: m_def)
  next
    case False
    have "xor_stream (key_octet key1) (drop w r) = xor_stream (key_stream sz key1) (drop w r)"
      using w by (intro xor_stream_cong) (simp add: key_stream_def)
    moreover have "length r - w = m" using w by simp
    ultimately have "xor_down key1 m (drop w r) = Ok (xor_stream (key_stream sz key1) (drop w r))"
      using w by (simp add: xor_down_eq)
    moreover have "key_stream sz (ror key1 (8 * m)) = (\<lambda>k. key_stream sz key1 (m + k))"
      using key_stream_ror [of sz m key1] assms False w by simp
    ultimately show ?thesis
      using a words r p len w False
      by (intro exI [of _ "ror key1 (8 * m)"])
        (simp add: mask_fast_def Let_def add.assoc min_absorb2 flip: m_def)
  qed
qed

section \<open>Prepared keys and buffer sequences\<close>

lemma key_stream_prepare32 [simp]: "key_stream 4 (prepare_key32 key) = key_stream 4 key"
  by (simp add: prepare_key32_def)

lemma key_octet_prepare64:
  assumes "k < 8"
  shows "key_octet (prepare_key64 key) k = key_octet key (k mod 4)"
proof (rule bit_word_eqI)
  fix n assume "n < LENGTH(8)"
  then have n: "n < 8" by simp
  show "bit (key_octet (prepare_key64 key) k) n = bit (key_octet key (k mod 4)) n"
  proof (cases "k < 4")
    case True
    then have "8 * k + n < 32" using n by simp
    with True n show ?thesis
      by (auto simp: bit_key_octet prepare_key64_def bit_simps dest: bit_imp_le_length)
  next
    case False
    with assms have "k mod 4 = k - 4" "32 \<le> 8 * k + n" "8 * k + n - 32 = 8 * (k - 4) + n" "8 * k + n < 64"
      "8 * (k - 4) + n < 64"
      using n by (simp_all add: le_mod_geq)
    moreover from this have "\<not> bit key (8 * k + n)"
      by (auto dest: bit_imp_le_length)
    ultimately show ?thesis
      using n by (simp add: bit_key_octet prepare_key64_def bit_simps)
  qed
qed

lemma key_stream_prepare64 [simp]: "key_stream 8 (prepare_key64 key) = key_stream 4 key"
proof
  fix k
  have "k mod 8 mod 4 = k mod 4" for k :: nat by (rule mod_mod_cancel) simp
  then show "key_stream 8 (prepare_key64 key) k = key_stream 4 key k"
    using key_octet_prepare64 [of "k mod 8" key] by (simp add: key_stream_def)
qed

lemma mask_fast32_eq:
  "\<exists>key'. mask_inplace_fast32 addr key p = Ok (xor_stream (key_stream 4 key) p, key') \<and>
     key_stream 4 key' = (\<lambda>k. key_stream 4 key (length p + k))"
  unfolding mask_inplace_fast32_def by (rule mask_fast_eq) simp_all

lemma mask_fast64_eq:
  "\<exists>key'. mask_inplace_fast64 addr key p = Ok (xor_stream (key_stream 8 key) p, key') \<and>
     key_stream 8 key' = (\<lambda>k. key_stream 8 key (length p + k))"
  unfolding mask_inplace_fast64_def by (rule mask_fast_eq) simp_all

text \<open>
  What the frame code relies on, whatever the width of the prepared key: one call masks
  with the key's stream and leaves the key whose stream is the rest.
\<close>

locale masking =
  fixes mask_one :: "nat \<Rightarrow> 'k \<Rightarrow> bytes \<Rightarrow> (unit, bytes \<times> 'k) outcome"
    and stream :: "'k \<Rightarrow> nat \<Rightarrow> u8"
    and prepare :: "u32 \<Rightarrow> 'k"
  assumes mask_one: "\<exists>key'. mask_one addr key p = Ok (xor_stream (stream key) p, key') \<and>
      stream key' = (\<lambda>k. stream key (length p + k))"
    and prepare: "stream (prepare k) = key_stream 4 k"
begin

lemma mask_sequence:
  "\<exists>qs key'. mask_inplace mask_one bs key = Ok (qs, key') \<and>
     concat qs = xor_stream (stream key) (concat (map snd bs)) \<and>
     map length qs = map (length \<circ> snd) bs \<and>
     stream key' = (\<lambda>k. stream key (length (concat (map snd bs)) + k))"
proof (induction bs arbitrary: key)
  case (Cons b bs)
  obtain addr p where b: "b = (addr, p)" by (cases b)
  obtain key1 where 1: "mask_one addr key p = Ok (xor_stream (stream key) p, key1)"
    "stream key1 = (\<lambda>k. stream key (length p + k))" using mask_one by blast
  from Cons.IH [of key1] obtain qs key2 where 2: "mask_inplace mask_one bs key1 = Ok (qs, key2)"
    "concat qs = xor_stream (stream key1) (concat (map snd bs))"
    "map length qs = map (length \<circ> snd) bs"
    "stream key2 = (\<lambda>k. stream key1 (length (concat (map snd bs)) + k))" by blast
  show ?case
    using 1 2 by (simp add: b xor_stream_append add.assoc)
qed simp

lemma mask_single: "\<exists>key'. mask_one addr (prepare k) p = Ok (xor_stream (key_stream 4 k) p, key')"
  using mask_one [of addr "prepare k" p] by (auto simp: prepare)

end

interpretation mask32: masking mask_inplace_fast32 "key_stream 4" prepare_key32
  by unfold_locales (use mask_fast32_eq in auto)

interpretation mask64: masking mask_inplace_fast64 "key_stream 8" prepare_key64
  by unfold_locales (use mask_fast64_eq in auto)

section \<open>Properties\<close>

text \<open>The transformation of RFC 6455, section 5.3; the key is a 32-bit word in the order of its octets.\<close>

definition rfc_mask :: "u32 \<Rightarrow> bytes \<Rightarrow> bytes" where
  "rfc_mask key p = map (\<lambda>i. p ! i XOR key_octet key (i mod 4)) [0..<length p]"

lemma rfc_mask_stream: "rfc_mask key p = xor_stream (key_stream 4 key) p"
  by (intro nth_equalityI) (simp_all add: rfc_mask_def nth_xor_stream key_stream_def)

lemma length_rfc_mask [simp]: "length (rfc_mask key p) = length p"
  by (simp add: rfc_mask_def)

lemma rfc_mask_twice [simp]: "rfc_mask key (rfc_mask key p) = p"
  by (simp add: rfc_mask_stream)

text \<open>C18: masking a payload in place is the transformation of RFC 6455, for the 32-bit and
  the 64-bit form, at every alignment and however the payload is cut into buffers, and stays
  inside the buffers.\<close>

theorem mask_inplace_rfc:
  "(\<exists>qs key'. mask_inplace mask_inplace_fast32 bs (prepare_key32 key) = Ok (qs, key') \<and>
      concat qs = rfc_mask key (concat (map snd bs)) \<and> map length qs = map (length \<circ> snd) bs) \<and>
   (\<exists>qs key'. mask_inplace mask_inplace_fast64 bs (prepare_key64 key) = Ok (qs, key') \<and>
      concat qs = rfc_mask key (concat (map snd bs)) \<and> map length qs = map (length \<circ> snd) bs)"
  using mask32.mask_sequence [of bs "prepare_key32 key"] mask64.mask_sequence [of bs "prepare_key64 key"]
  by (auto simp: rfc_mask_stream)

text \<open>Masking twice with the same key gives the payload back, also when the second time
  the payload lies elsewhere and is masked with the key of the other width.\<close>

theorem mask_involution:
  "\<exists>q key1 key2. mask_inplace_fast64 addr (prepare_key64 key) p = Ok (q, key1) \<and>
     mask_inplace_fast32 addr' (prepare_key32 key) q = Ok (p, key2)"
  using mask64.mask_single [of addr key p]
    mask32.mask_single [of addr' key "xor_stream (key_stream 4 key) p"]
  by auto

text \<open>The loop that draws mask keys ends at its first round after any seeding and any
  number of keys drawn, and a mask key is never zero.\<close>

theorem maskgen_returns:
  "\<exists>key x. maskgen_call ((minstd_next ^^ n) (rekey rng)) = Some (key, x) \<and> key \<noteq> 0 \<and>
     x = (minstd_next ^^ Suc n) (rekey rng)"
proof -
  have "maskgen_ok ((minstd_next ^^ n) (rekey rng))"
    by (induction n) (simp_all add: maskgen_ok_rekey minstd_next_ok)
  from maskgen_call_Some [OF this] show ?thesis by simp
qed

end
