(* ===== verification/Ws_Utf8.thy ===== *)
theory Ws_Utf8
  imports Prelude
begin

text \<open>
  The UTF-8 validator of \<open>include/beast/websocket/detail/utf8_checker.hpp\<close>, which checks
  text messages as their octets arrive. A pointer into the input is the list of the octets
  from there to the end, so \<open>in[k]\<close> is \<open>rd xs k\<close>; \<open>have\<close> is the filled part of the array
  \<open>have_\<close>, up to \<open>p_\<close>.
\<close>

section \<open>The checker\<close>

record utf8_checker =
  utf_need :: nat
  utf_have :: bytes

definition utf8_init :: utf8_checker where
  "utf8_init = \<lparr>utf_need = 0, utf_have = []\<rparr>"

type_synonym 'a uout = "(unit, 'a) outcome"

text \<open>The lambda \<open>valid\<close>: \<open>None\<close> is \<open>false\<close>, \<open>Some\<close> the advanced pointer.\<close>

definition valid :: "bytes \<Rightarrow> bytes option uout" where
  "valid xs =
     ob (rd xs 0) (\<lambda>b0.
     if b0 < 128 then Ok (Some (drop 1 xs))
     else if b0 AND 0x60 = 0x40 then
       ob (rd xs 1) (\<lambda>b1. if b1 AND 0xC0 \<noteq> 0x80 then Ok None else Ok (Some (drop 2 xs)))
     else if b0 AND 0xF0 = 0xE0 then
       ob (rd xs 1) (\<lambda>b1. if b1 AND 0xC0 \<noteq> 0x80 then Ok None else
       ob (rd xs 2) (\<lambda>b2. if b2 AND 0xC0 \<noteq> 0x80 then Ok None else
       if b0 = 224 \<and> b1 < 160 \<or> b0 = 237 \<and> b1 > 159 then Ok None
       else Ok (Some (drop 3 xs))))
     else if b0 AND 0xF8 = 0xF0 then
       if b0 > 244 then Ok None else
       ob (rd xs 1) (\<lambda>b1. if b1 AND 0xC0 \<noteq> 0x80 then Ok None else
       ob (rd xs 2) (\<lambda>b2. if b2 AND 0xC0 \<noteq> 0x80 then Ok None else
       ob (rd xs 3) (\<lambda>b3. if b3 AND 0xC0 \<noteq> 0x80 then Ok None else
       if b0 = 240 \<and> b1 < 144 \<or> b0 = 244 \<and> b1 > 143 then Ok None
       else Ok (Some (drop 4 xs)))))
     else Ok None)"

text \<open>The lambda \<open>valid_have\<close>; it is called with at least one octet in \<open>have_\<close>.\<close>

definition valid_have :: "bytes \<Rightarrow> bool" where
  "valid_have h =
     (let h0 = h ! 0; size = length h in
      if h0 AND 0x60 = 0x40 then h0 \<le> 223
      else if h0 AND 0xF0 = 0xE0 then
        \<not> (size > 1 \<and> (h ! 1 AND 0xC0 \<noteq> 0x80 \<or> h0 = 224 \<and> h ! 1 < 160 \<or> h0 = 237 \<and> h ! 1 > 159))
      else if h0 AND 0xF8 = 0xF0 then
        if size > 2 \<and> h ! 2 AND 0xC0 \<noteq> 0x80 then False
        else \<not> (size > 1 \<and> (h ! 1 AND 0xC0 \<noteq> 0x80 \<or> h0 = 240 \<and> h ! 1 < 144 \<or> h0 = 244 \<and> h ! 1 > 143))
      else True)"

definition needed :: "u8 \<Rightarrow> nat" where
  "needed b =
     (if b < 128 then 1 else if b < 194 then 0 else if b < 224 then 2
      else if b < 240 then 3 else if b < 245 then 4 else 0)"

text \<open>
  The first loop reads eight octets at once where it may: everywhere, or, on platforms
  without unaligned reads, where the address is a multiple of eight. \<open>aligned n\<close> tells
  that for the position \<open>n\<close> octets before the end.
\<close>

definition ascii8 :: "bytes \<Rightarrow> bool uout" where
  "ascii8 xs = (if 8 \<le> length xs then Ok (list_all (\<lambda>b. b AND 0x80 = 0) (take 8 xs)) else Oob)"

lemma valid_shorter: "valid xs = Ok (Some ys) \<Longrightarrow> length ys < length xs"
  by (auto simp: valid_def ob_eq_Ok rd_eq_Ok split: if_splits)

function fast_loop :: "(nat \<Rightarrow> bool) \<Rightarrow> bytes \<Rightarrow> bytes option uout" where
  "fast_loop aligned xs =
     (if length xs > 7 then
        ob (if aligned (length xs) then ascii8 xs else Ok False) (\<lambda>a.
        if a then fast_loop aligned (drop 8 xs)
        else (case valid xs of
                Ok (Some ys) \<Rightarrow> fast_loop aligned ys
              | r \<Rightarrow> r))
      else Ok (Some xs))"
  by pat_completeness auto
termination by (relation "measure (\<lambda>(al, xs). length xs)") (auto dest: valid_shorter)

declare fast_loop.simps [simp del]

function slow_loop :: "bytes \<Rightarrow> bytes option uout" where
  "slow_loop xs =
     (if length xs > 3 then
        (case valid xs of Ok (Some ys) \<Rightarrow> slow_loop ys | r \<Rightarrow> r)
      else Ok (Some xs))"
  by pat_completeness auto
termination by (relation "measure length") (auto dest: valid_shorter)

declare slow_loop.simps [simp del]

text \<open>
  The last loop appends a sequence that is cut off at the end to \<open>have_\<close>. \<open>h\<close> is what is there:
  nothing, unless a call that failed left octets behind and \<open>reset\<close> was not called since.
  \<open>have_\<close> has room for four octets.
\<close>

function tail_loop :: "bytes \<Rightarrow> bytes \<Rightarrow> (bool \<times> utf8_checker) uout" where
  "tail_loop h xs =
     (let n = length xs in
      if n = 0 then Ok (True, \<lparr>utf_need = 0, utf_have = h\<rparr>)
      else ob (rd xs 0) (\<lambda>b.
        let nd = needed b in
        if nd = 0 then Ok (False, \<lparr>utf_need = 0, utf_have = h\<rparr>)
        else if nd \<le> n then
          (case valid xs of
             Ok (Some ys) \<Rightarrow> tail_loop h ys
           | Ok None \<Rightarrow> Ok (False, \<lparr>utf_need = 0, utf_have = h\<rparr>)
           | Err e \<Rightarrow> Err e
           | Oob \<Rightarrow> Oob)
        else if length (h @ xs) > 4 then Oob
        else Ok (valid_have (h @ xs), \<lparr>utf_need = nd - n, utf_have = h @ xs\<rparr>)))"
  by pat_completeness auto
termination by (relation "measure (\<lambda>(h, xs). length xs)") (auto dest: valid_shorter)

declare tail_loop.simps [simp del]

text \<open>\<open>write\<close> once no partial sequence is pending.\<close>

definition write_rest :: "(nat \<Rightarrow> bool) \<Rightarrow> bytes \<Rightarrow> bytes \<Rightarrow> (bool \<times> utf8_checker) uout" where
  "write_rest aligned h xs =
     ob (fast_loop aligned xs) (\<lambda>r. case r of None \<Rightarrow> Ok (False, \<lparr>utf_need = 0, utf_have = h\<rparr>) | Some xs \<Rightarrow>
     ob (slow_loop xs) (\<lambda>r. case r of None \<Rightarrow> Ok (False, \<lparr>utf_need = 0, utf_have = h\<rparr>) | Some xs \<Rightarrow>
     tail_loop h xs))"

definition utf8_write :: "(nat \<Rightarrow> bool) \<Rightarrow> bytes \<Rightarrow> utf8_checker \<Rightarrow> (bool \<times> utf8_checker) uout" where
  "utf8_write aligned xs c =
     (if utf_need c > 0 then
        let n = min (length xs) (utf_need c);
            h = utf_have c @ take n xs;
            nd = utf_need c - n
        in if nd > 0 then Ok (valid_have h, \<lparr>utf_need = nd, utf_have = h\<rparr>)
           else ob (valid h) (\<lambda>r.
             if r = None then Ok (False, \<lparr>utf_need = 0, utf_have = h\<rparr>)
             else write_rest aligned [] (drop n xs))
      else write_rest aligned (utf_have c) xs)"

text \<open>The overload for a sequence of buffers stops at the first that fails.\<close>

fun utf8_write_seq :: "(nat \<Rightarrow> bool) \<Rightarrow> bytes list \<Rightarrow> utf8_checker \<Rightarrow> (bool \<times> utf8_checker) uout" where
  "utf8_write_seq aligned [] c = Ok (True, c)"
| "utf8_write_seq aligned (b # bs) c =
     ob (utf8_write aligned b c) (\<lambda>(ok, c). if \<not> ok then Ok (False, c) else utf8_write_seq aligned bs c)"

definition utf8_finish :: "utf8_checker \<Rightarrow> bool \<times> utf8_checker" where
  "utf8_finish c = (utf_need c = 0, \<lparr>utf_need = 0, utf_have = []\<rparr>)"

definition check_utf8 :: "(nat \<Rightarrow> bool) \<Rightarrow> bytes \<Rightarrow> bool uout" where
  "check_utf8 aligned xs =
     ob (utf8_write aligned xs utf8_init) (\<lambda>(ok, c). if \<not> ok then Ok False else Ok (fst (utf8_finish c)))"

section \<open>Octet classes\<close>

lemma u8_classes:
  fixes b :: u8
  shows "128 \<le> b \<Longrightarrow> b AND 0x60 = 0x40 \<longleftrightarrow> 0xC0 \<le> b \<and> b < 0xE0"
    "b AND 0xF0 = 0xE0 \<longleftrightarrow> 0xE0 \<le> b \<and> b < 0xF0"
    "b AND 0xF8 = 0xF0 \<longleftrightarrow> 0xF0 \<le> b \<and> b < 0xF8"
    "b AND 0xC0 = 0x80 \<longleftrightarrow> 0x80 \<le> b \<and> b < 0xC0"
    "b AND 0x80 = 0 \<longleftrightarrow> b < 0x80"
proof -
  have "\<forall>b :: u8. (128 \<le> b \<longrightarrow> (b AND 0x60 = 0x40 \<longleftrightarrow> 0xC0 \<le> b \<and> b < 0xE0)) \<and>
    (b AND 0xF0 = 0xE0 \<longleftrightarrow> 0xE0 \<le> b \<and> b < 0xF0) \<and>
    (b AND 0xF8 = 0xF0 \<longleftrightarrow> 0xF0 \<le> b \<and> b < 0xF8) \<and>
    (b AND 0xC0 = 0x80 \<longleftrightarrow> 0x80 \<le> b \<and> b < 0xC0) \<and>
    (b AND 0x80 = 0 \<longleftrightarrow> b < 0x80)"
    unfolding all_u8 by code_simp
  then show "128 \<le> b \<Longrightarrow> b AND 0x60 = 0x40 \<longleftrightarrow> 0xC0 \<le> b \<and> b < 0xE0"
    "b AND 0xF0 = 0xE0 \<longleftrightarrow> 0xE0 \<le> b \<and> b < 0xF0"
    "b AND 0xF8 = 0xF0 \<longleftrightarrow> 0xF0 \<le> b \<and> b < 0xF8"
    "b AND 0xC0 = 0x80 \<longleftrightarrow> 0x80 \<le> b \<and> b < 0xC0"
    "b AND 0x80 = 0 \<longleftrightarrow> b < 0x80" by blast+
qed

section \<open>Well-formed text\<close>

text \<open>
  The well-formed sequences of RFC 3629 (table 3-7 of the Unicode standard), and the
  sequences with the two overlong lead octets C0 and C1 that \<open>valid\<close> accepts besides.
\<close>

definition cont :: "u8 \<Rightarrow> bool" where
  "cont b \<longleftrightarrow> 0x80 \<le> b \<and> b < 0xC0"

fun utf8_seq :: "bytes \<Rightarrow> bool" where
  "utf8_seq [a] \<longleftrightarrow> a < 0x80"
| "utf8_seq [a, b] \<longleftrightarrow> 0xC2 \<le> a \<and> a < 0xE0 \<and> cont b"
| "utf8_seq [a, b, c] \<longleftrightarrow> 0xE0 \<le> a \<and> a < 0xF0 \<and> cont b \<and> cont c \<and>
     \<not> (a = 0xE0 \<and> b < 0xA0) \<and> \<not> (a = 0xED \<and> b > 0x9F)"
| "utf8_seq [a, b, c, d] \<longleftrightarrow> 0xF0 \<le> a \<and> a < 0xF5 \<and> cont b \<and> cont c \<and> cont d \<and>
     \<not> (a = 0xF0 \<and> b < 0x90) \<and> \<not> (a = 0xF4 \<and> b > 0x8F)"
| "utf8_seq _ \<longleftrightarrow> False"

fun overlong2 :: "bytes \<Rightarrow> bool" where
  "overlong2 [a, b] \<longleftrightarrow> (a = 0xC0 \<or> a = 0xC1) \<and> cont b"
| "overlong2 _ \<longleftrightarrow> False"

definition lax_seq :: "bytes \<Rightarrow> bool" where
  "lax_seq q \<longleftrightarrow> utf8_seq q \<or> overlong2 q"

inductive sequences :: "(bytes \<Rightarrow> bool) \<Rightarrow> bytes \<Rightarrow> bool" for P where
  none: "sequences P []"
| more: "P q \<Longrightarrow> sequences P r \<Longrightarrow> sequences P (q @ r)"

abbreviation utf8_text :: "bytes \<Rightarrow> bool" where
  "utf8_text \<equiv> sequences utf8_seq"

abbreviation lax_text :: "bytes \<Rightarrow> bool" where
  "lax_text \<equiv> sequences lax_seq"

lemma sequences_concat: "sequences P s \<longleftrightarrow> (\<exists>qs. list_all P qs \<and> s = concat qs)"
proof
  assume "sequences P s"
  then show "\<exists>qs. list_all P qs \<and> s = concat qs"
  proof induction
    case (more q r)
    then obtain qs where "list_all P qs" "r = concat qs" by blast
    with more show ?case by (intro exI [of _ "q # qs"]) simp
  qed (simp add: exI [of _ "[]"])
next
  assume "\<exists>qs. list_all P qs \<and> s = concat qs"
  then obtain qs where "list_all P qs" "s = concat qs" by blast
  then show "sequences P s"
    by (induction qs arbitrary: s) (auto intro: sequences.intros)
qed

section \<open>One sequence\<close>

lemma u8_regions:
  fixes b :: u8
  obtains "b < 128" | "128 \<le> b" "b < 0xC0" | "0xC0 \<le> b" "b < 0xE0" | "0xE0 \<le> b" "b < 0xF0"
    | "0xF0 \<le> b" "b < 0xF5" | "0xF5 \<le> b" "b < 0xF8" | "0xF8 \<le> b"
  using not_less by metis

lemma valid_eq:
  "valid xs =
     ob (rd xs 0) (\<lambda>b0.
     if b0 < 128 then Ok (Some (drop 1 xs))
     else if b0 < 0xC0 then Ok None
     else if b0 < 0xE0 then
       ob (rd xs 1) (\<lambda>b1. if \<not> cont b1 then Ok None else Ok (Some (drop 2 xs)))
     else if b0 < 0xF0 then
       ob (rd xs 1) (\<lambda>b1. if \<not> cont b1 then Ok None else
       ob (rd xs 2) (\<lambda>b2. if \<not> cont b2 then Ok None else
       if b0 = 224 \<and> b1 < 160 \<or> b0 = 237 \<and> b1 > 159 then Ok None
       else Ok (Some (drop 3 xs))))
     else if b0 < 0xF5 then
       ob (rd xs 1) (\<lambda>b1. if \<not> cont b1 then Ok None else
       ob (rd xs 2) (\<lambda>b2. if \<not> cont b2 then Ok None else
       ob (rd xs 3) (\<lambda>b3. if \<not> cont b3 then Ok None else
       if b0 = 240 \<and> b1 < 144 \<or> b0 = 244 \<and> b1 > 143 then Ok None
       else Ok (Some (drop 4 xs)))))
     else Ok None)"
proof -
  have c: "b AND 0xC0 = 0x80 \<longleftrightarrow> cont b" for b by (simp add: u8_classes cont_def)
  show ?thesis
    unfolding valid_def c
    apply (rule ob_cong [OF refl])
    subgoal for b0
      by (rule u8_regions [of b0])
        (auto simp: u8_classes word_less_nat_alt word_le_nat_alt)
    done
qed

lemmas u8_nat = word_less_nat_alt word_le_nat_alt word_unat_eq_iff

lemma needed_seq: "utf8_seq q \<Longrightarrow> q \<noteq> [] \<and> needed (hd q) = length q"
  by (induction q rule: utf8_seq.induct) (auto simp: needed_def u8_nat)

lemma valid_complete: "utf8_seq q \<Longrightarrow> valid (q @ r) = Ok (Some r)"
  by (induction q rule: utf8_seq.induct) (auto simp: valid_eq u8_nat)

lemma valid_Some:
  assumes "valid xs = Ok (Some ys)"
  shows "lax_seq (take (length xs - length ys) xs) \<and> ys = drop (length xs - length ys) xs"
proof -
  consider a r where "xs = [a]" | a b where "xs = [a, b]" | a b c where "xs = [a, b, c]"
    | a b c d r where "xs = a # b # c # d # r"
    using assms by (cases xs rule: utf8_seq.cases) (auto simp: valid_eq rd_def)
  then show ?thesis
  proof cases
    case (4 a b c d r)
    with assms show ?thesis
      by (auto simp: valid_eq lax_seq_def u8_nat split: if_splits)
  qed (use assms in \<open>auto simp: valid_eq lax_seq_def u8_nat rd_def split: if_splits\<close>)
qed

lemma valid_sound:
  assumes "valid xs = Ok (Some ys)"
  obtains q where "lax_seq q" "xs = q @ ys"
  using valid_Some [OF assms] that by (metis append_take_drop_id)

lemma valid_not_Oob_4: "4 \<le> length xs \<Longrightarrow> valid xs \<noteq> Oob"
  by (auto simp: valid_eq ob_eq_Oob rd_def)

lemma valid_not_Oob_needed:
  assumes "needed (hd xs) \<le> length xs" "needed (hd xs) \<noteq> 0"
  shows "valid xs \<noteq> Oob"
proof -
  from assms obtain a r where xs: "xs = a # r" by (cases xs) auto
  show ?thesis
    using assms unfolding xs
    by (rule_tac b = a in u8_regions)
      (auto simp: valid_eq needed_def ob_eq_Oob rd_def u8_nat split: if_splits)
qed

lemma needed_le_4: "needed b \<le> 4"
  by (simp add: needed_def)

lemma valid_have_eq:
  assumes "128 \<le> h0"
  shows "valid_have (h0 # h) \<longleftrightarrow>
     (if 0xE0 \<le> h0 \<and> h0 < 0xF0 then
        h \<noteq> [] \<longrightarrow> cont (h ! 0) \<and> \<not> (h0 = 224 \<and> h ! 0 < 160) \<and> \<not> (h0 = 237 \<and> h ! 0 > 159)
      else if 0xF0 \<le> h0 \<and> h0 < 0xF8 then
        (length h > 1 \<longrightarrow> cont (h ! 1)) \<and>
        (h \<noteq> [] \<longrightarrow> cont (h ! 0) \<and> \<not> (h0 = 240 \<and> h ! 0 < 144) \<and> \<not> (h0 = 244 \<and> h ! 0 > 143))
      else True)"
proof -
  have c: "b AND 0xC0 = 0x80 \<longleftrightarrow> cont b" for b by (simp add: u8_classes cont_def)
  have l: "b < 0xE0 \<Longrightarrow> b \<le> 223" for b :: u8 by (simp add: u8_nat)
  have n: "(h0 # h) ! 1 = h ! 0" "(h0 # h) ! 2 = h ! 1" "length (h0 # h) > 1 \<longleftrightarrow> h \<noteq> []"
    "length (h0 # h) > 2 \<longleftrightarrow> length h > 1" "(h0 # h) ! 0 = h0" by (simp_all add: numeral_2_eq_2)
  have z: "length h > 1 \<Longrightarrow> h \<noteq> []" by auto
  show ?thesis
    unfolding valid_have_def c n Let_def u8_classes(1) [OF assms] u8_classes(2,3)
    by (rule u8_regions [of h0]; use z in \<open>simp add: u8_nat; blast?\<close>)
qed

lemma valid_have_complete:
  assumes "utf8_seq (h @ t)" "h \<noteq> []" "t \<noteq> []"
  shows "valid_have h"
proof -
  have len: "length (h @ t) \<le> 4"
    using needed_seq [OF assms(1)] needed_le_4 [of "hd (h @ t)"] by simp
  from assms(3) obtain u t' where t: "t = u # t'" by (cases t) auto
  have "length h \<le> 3" using len t by simp
  then consider a where "h = [a]" | a b where "h = [a, b]" | a b c where "h = [a, b, c]"
    using assms(2) by (cases h rule: utf8_seq.cases) auto
  then show ?thesis
  proof cases
    case (1 a)
    with assms(1) t have "128 \<le> a"
      by (cases t' rule: utf8_seq.cases) (auto simp: u8_nat)
    with 1 show ?thesis by (simp add: valid_have_eq)
  next
    case (2 a b)
    with assms(1) t show ?thesis
      by (cases t' rule: utf8_seq.cases) (auto simp: valid_have_eq u8_nat)
  next
    case (3 a b c)
    with assms(1) t len show ?thesis
      by (cases t') (auto simp: valid_have_eq u8_nat)
  qed
qed

lemma text_front:
  assumes "sequences P s" "s \<noteq> []"
  obtains q r where "s = q @ r" "P q" "sequences P r" "q \<noteq> []"
proof -
  have "s \<noteq> [] \<longrightarrow> (\<exists>q r. s = q @ r \<and> P q \<and> sequences P r \<and> q \<noteq> [])"
    using assms(1) by induction auto
  with assms(2) that show thesis by blast
qed

lemma text_step:
  assumes "utf8_text (xs @ r)" "xs \<noteq> []" "needed (hd xs) \<le> length xs"
  obtains q ys where "xs = q @ ys" "utf8_seq q" "utf8_text (ys @ r)"
proof -
  from assms obtain q s where q: "xs @ r = q @ s" "utf8_seq q" "utf8_text s" "q \<noteq> []"
    by (auto elim: text_front)
  have "hd q = hd xs" using q assms(2) by (metis hd_append2)
  then have "length q \<le> length xs" using needed_seq [OF q(2)] assms(3) by simp
  with q(1) obtain ys where "xs = q @ ys" "s = ys @ r"
    by (auto simp: append_eq_append_conv2)
  with q that show thesis by blast
qed

lemma ascii_prepend: "list_all (\<lambda>b. b AND 0x80 = 0) q \<Longrightarrow> lax_text r \<Longrightarrow> lax_text (q @ r)"
proof (induction q)
  case (Cons a q)
  then have "lax_seq [a]" by (simp add: lax_seq_def u8_classes)
  with Cons sequences.more [of lax_seq "[a]" "q @ r"] show ?case by simp
qed simp

lemma ascii_remove: "list_all (\<lambda>b. b AND 0x80 = 0) q \<Longrightarrow> utf8_text (q @ r) \<Longrightarrow> utf8_text r"
proof (induction q)
  case (Cons a q)
  then have "a < 128" by (simp add: u8_classes)
  then have a: "needed (hd (a # q)) = 1" by (simp add: needed_def)
  from Cons.prems(2) obtain q' ys where q': "a # q = q' @ ys" "utf8_seq q'" "utf8_text (ys @ r)"
    by (rule text_step) (use a in auto)
  then have "length q' = 1" using needed_seq [OF q'(2)] a by (cases q') auto
  with q' have "ys = q" by (cases q') auto
  with Cons q' show ?case by simp
qed simp

section \<open>The loops\<close>

lemma fast_loop_unfold:
  "length xs > 7 \<Longrightarrow> fast_loop al xs =
     (if al (length xs) \<and> list_all (\<lambda>b. b AND 0x80 = 0) (take 8 xs) then fast_loop al (drop 8 xs)
      else (case valid xs of Ok (Some ys) \<Rightarrow> fast_loop al ys | r \<Rightarrow> r))"
  by (subst fast_loop.simps) (auto simp: ascii8_def)

lemma fast_loop_sound:
  "fast_loop al xs = Ok (Some ys) \<Longrightarrow> lax_text (ys @ r) \<Longrightarrow> lax_text (xs @ r)"
proof (induction "length xs" arbitrary: xs rule: less_induct)
  case less
  show ?case
  proof (cases "length xs > 7")
    case False
    with less.prems show ?thesis by (simp add: fast_loop.simps [of al xs])
  next
    case True
    note run = less.prems(1) [unfolded fast_loop_unfold [OF True]]
    show ?thesis
    proof (cases "al (length xs) \<and> list_all (\<lambda>b. b AND 0x80 = 0) (take 8 xs)")
      case asc: True
      with run True less.hyps [of "drop 8 xs"] less.prems have "lax_text (drop 8 xs @ r)" by simp
      with asc ascii_prepend [of "take 8 xs" "drop 8 xs @ r"] show ?thesis
        by (simp flip: append_assoc)
    next
      case False
      with run obtain zs where zs: "valid xs = Ok (Some zs)" "fast_loop al zs = Ok (Some ys)"
        by (auto split: outcome.splits option.splits)
      from zs(1) obtain q where q: "lax_seq q" "xs = q @ zs" by (rule valid_sound)
      have "lax_text (zs @ r)"
        using less.hyps [OF valid_shorter [OF zs(1)] zs(2) less.prems(2)] .
      with q show ?thesis by (simp add: sequences.more)
    qed
  qed
qed

lemma fast_loop_complete:
  "utf8_text (xs @ r) \<Longrightarrow> \<exists>ys. fast_loop al xs = Ok (Some ys) \<and> utf8_text (ys @ r)"
proof (induction "length xs" arbitrary: xs rule: less_induct)
  case less
  show ?case
  proof (cases "length xs > 7")
    case False
    with less.prems show ?thesis by (simp add: fast_loop.simps [of al xs])
  next
    case True
    show ?thesis
    proof (cases "al (length xs) \<and> list_all (\<lambda>b. b AND 0x80 = 0) (take 8 xs)")
      case asc: True
      have "utf8_text (take 8 xs @ drop 8 xs @ r)"
        using less.prems by (simp flip: append_assoc)
      with asc have "utf8_text (drop 8 xs @ r)" by (blast intro: ascii_remove)
      with asc True less.hyps [of "drop 8 xs"] show ?thesis by (simp add: fast_loop_unfold)
    next
      case False
      from less.prems obtain q ys where q: "xs = q @ ys" "utf8_seq q" "utf8_text (ys @ r)"
        by (rule text_step) (use True needed_le_4 [of "hd xs"] in auto)
      with valid_complete [of q ys] have v: "valid xs = Ok (Some ys)" by simp
      from less.hyps [OF valid_shorter [OF v] q(3)] v True False show ?thesis
        by (auto simp: fast_loop_unfold)
    qed
  qed
qed

lemma fast_loop_not_Oob: "fast_loop al xs \<noteq> Oob"
proof (induction "length xs" arbitrary: xs rule: less_induct)
  case less
  show ?case
  proof (cases "length xs > 7")
    case False
    then show ?thesis by (simp add: fast_loop.simps [of al xs])
  next
    case True
    then have "valid xs \<noteq> Oob" by (intro valid_not_Oob_4) simp
    with True less.hyps valid_shorter [of xs] show ?thesis
      by (auto simp: fast_loop_unfold split: outcome.split option.split)
  qed
qed

lemma slow_loop_unfold:
  "slow_loop xs = (if length xs > 3 then (case valid xs of Ok (Some ys) \<Rightarrow> slow_loop ys | r \<Rightarrow> r) else Ok (Some xs))"
  by (rule slow_loop.simps)

lemma slow_loop_sound:
  "slow_loop xs = Ok (Some ys) \<Longrightarrow> lax_text (ys @ r) \<Longrightarrow> lax_text (xs @ r)"
proof (induction "length xs" arbitrary: xs rule: less_induct)
  case less
  note run = less.prems(1) [unfolded slow_loop_unfold [of xs]]
  show ?case
  proof (cases "length xs > 3")
    case False
    with run less.prems(2) show ?thesis by simp
  next
    case True
    with run obtain zs where zs: "valid xs = Ok (Some zs)" "slow_loop zs = Ok (Some ys)"
      by (auto split: outcome.splits option.splits)
    from zs(1) obtain q where q: "lax_seq q" "xs = q @ zs" by (rule valid_sound)
    have "lax_text (zs @ r)"
      using less.hyps [OF valid_shorter [OF zs(1)] zs(2) less.prems(2)] .
    with q show ?thesis by (simp add: sequences.more)
  qed
qed

lemma slow_loop_complete:
  "utf8_text (xs @ r) \<Longrightarrow> \<exists>ys. slow_loop xs = Ok (Some ys) \<and> utf8_text (ys @ r)"
proof (induction "length xs" arbitrary: xs rule: less_induct)
  case less
  show ?case
  proof (cases "length xs > 3")
    case False
    with less.prems show ?thesis by (simp add: slow_loop_unfold [of xs])
  next
    case True
    from less.prems obtain q ys where q: "xs = q @ ys" "utf8_seq q" "utf8_text (ys @ r)"
      by (rule text_step) (use True needed_le_4 [of "hd xs"] in auto)
    with valid_complete [of q ys] have v: "valid xs = Ok (Some ys)" by simp
    from less.hyps [OF valid_shorter [OF v] q(3)] v True show ?thesis
      by (simp add: slow_loop_unfold [of xs])
  qed
qed

lemma slow_loop_not_Oob: "slow_loop xs \<noteq> Oob"
proof (induction "length xs" arbitrary: xs rule: less_induct)
  case less
  then show ?case
    using valid_not_Oob_4 [of xs] valid_shorter [of xs]
    by (subst slow_loop_unfold) (auto split: outcome.split option.split)
qed

section \<open>The state between calls\<close>

text \<open>Nothing is pending, or the beginning of a sequence of which \<open>need_\<close> octets are missing.\<close>

definition utf8_inv :: "utf8_checker \<Rightarrow> bool" where
  "utf8_inv c \<longleftrightarrow>
     (if utf_need c = 0 then utf_have c = []
      else utf_have c \<noteq> [] \<and> needed (hd (utf_have c)) = length (utf_have c) + utf_need c)"

lemma utf8_inv_init [simp]: "utf8_inv \<lparr>utf_need = 0, utf_have = []\<rparr>" "utf8_inv utf8_init"
  by (simp_all add: utf8_inv_def utf8_init_def)

lemma needed_le: "needed b \<le> 4"
  by (simp add: needed_def)

lemma tail_loop_unfold:
  "tail_loop [] xs =
     (if xs = [] then Ok (True, \<lparr>utf_need = 0, utf_have = []\<rparr>)
      else if needed (hd xs) = 0 then Ok (False, \<lparr>utf_need = 0, utf_have = []\<rparr>)
      else if needed (hd xs) \<le> length xs then
        (case valid xs of
           Ok (Some ys) \<Rightarrow> tail_loop [] ys
         | Ok None \<Rightarrow> Ok (False, \<lparr>utf_need = 0, utf_have = []\<rparr>)
         | Err e \<Rightarrow> Err e
         | Oob \<Rightarrow> Oob)
      else Ok (valid_have xs, \<lparr>utf_need = needed (hd xs) - length xs, utf_have = xs\<rparr>))"
  by (subst tail_loop.simps) (use needed_le [of "hd xs"] in \<open>cases xs; simp add: Let_def\<close>)

lemma tail_loop_sound:
  "tail_loop [] xs = Ok (True, c) \<Longrightarrow> utf8_inv c \<and> (lax_text (utf_have c @ r) \<longrightarrow> lax_text (xs @ r))"
proof (induction "length xs" arbitrary: xs rule: less_induct)
  case less
  note run = less.prems [unfolded tail_loop_unfold [of xs]]
  show ?case
  proof (cases "xs \<noteq> [] \<and> needed (hd xs) \<noteq> 0 \<and> needed (hd xs) \<le> length xs")
    case False
    with run show ?thesis by (auto simp: utf8_inv_def split: if_splits)
  next
    case True
    with run obtain ys where ys: "valid xs = Ok (Some ys)" "tail_loop [] ys = Ok (True, c)"
      by (auto split: outcome.splits option.splits)
    from ys(1) obtain q where "lax_seq q" "xs = q @ ys" by (rule valid_sound)
    with less.hyps [OF valid_shorter [OF ys(1)] ys(2)] show ?thesis
      by (auto intro: sequences.more)
  qed
qed

lemma tail_loop_complete:
  "utf8_text (xs @ r) \<Longrightarrow>
     \<exists>c. tail_loop [] xs = Ok (True, c) \<and> utf8_inv c \<and> utf8_text (utf_have c @ r)"
proof (induction "length xs" arbitrary: xs rule: less_induct)
  case less
  show ?case
  proof (cases "xs = []")
    case True
    with less.prems show ?thesis by (simp add: tail_loop_unfold)
  next
    case ne: False
    with less.prems obtain q s where q: "xs @ r = q @ s" "utf8_seq q" "utf8_text s" "q \<noteq> []"
      by (auto elim: text_front)
    have "hd q = hd xs" using q ne by (metis hd_append2)
    then have nd: "needed (hd xs) = length q" "length q \<noteq> 0" using needed_seq [OF q(2)] q(4) by auto
    show ?thesis
    proof (cases "length q \<le> length xs")
      case True
      from less.prems obtain q' ys where q': "xs = q' @ ys" "utf8_seq q'" "utf8_text (ys @ r)"
        by (rule text_step) (use ne nd True in auto)
      with valid_complete [of q' ys] have v: "valid xs = Ok (Some ys)" by simp
      from less.hyps [OF valid_shorter [OF v] q'(3)] v True nd ne show ?thesis
        by (auto simp: tail_loop_unfold [of xs])
    next
      case False
      with q(1) obtain t where "q = xs @ t" "t \<noteq> []"
        by (auto simp: append_eq_append_conv2)
      with q(2) ne have "valid_have xs" by (auto intro: valid_have_complete)
      with False ne nd less.prems show ?thesis
        by (simp add: tail_loop_unfold [of xs] utf8_inv_def)
    qed
  qed
qed

lemma tail_loop_not_Oob: "tail_loop [] xs \<noteq> Oob"
proof (induction "length xs" arbitrary: xs rule: less_induct)
  case less
  then show ?case
    using valid_not_Oob_needed [of xs] valid_shorter [of xs]
    by (subst tail_loop_unfold) (auto split: outcome.split option.split)
qed

lemma write_rest_sound:
  assumes "write_rest al [] xs = Ok (True, c)"
  shows "utf8_inv c \<and> (lax_text (utf_have c @ r) \<longrightarrow> lax_text (xs @ r))"
proof -
  from assms obtain ys zs where "fast_loop al xs = Ok (Some ys)" "slow_loop ys = Ok (Some zs)"
    "tail_loop [] zs = Ok (True, c)"
    by (auto simp: write_rest_def ob_eq_Ok split: option.splits)
  with tail_loop_sound [of zs c r] slow_loop_sound [of ys zs r] fast_loop_sound [of al xs ys r]
  show ?thesis by blast
qed

lemma write_rest_complete:
  assumes "utf8_text (xs @ r)"
  shows "\<exists>c. write_rest al [] xs = Ok (True, c) \<and> utf8_inv c \<and> utf8_text (utf_have c @ r)"
proof -
  from fast_loop_complete [OF assms] obtain ys where
    ys: "fast_loop al xs = Ok (Some ys)" "utf8_text (ys @ r)" by blast
  from slow_loop_complete [OF ys(2)] obtain zs where
    zs: "slow_loop ys = Ok (Some zs)" "utf8_text (zs @ r)" by blast
  from tail_loop_complete [OF zs(2)] ys zs show ?thesis by (auto simp: write_rest_def)
qed

lemma write_rest_not_Oob: "write_rest al [] xs \<noteq> Oob"
  using fast_loop_not_Oob slow_loop_not_Oob tail_loop_not_Oob
  by (auto simp: write_rest_def ob_eq_Oob split: option.splits)

section \<open>Calls\<close>

lemma lax_seq_needed: "lax_seq q \<Longrightarrow> q \<noteq> [] \<and> (needed (hd q) = length q \<or> needed (hd q) = 0)"
proof -
  assume "lax_seq q"
  moreover have "needed 0xC0 = 0" "needed 0xC1 = 0" by (simp_all add: needed_def)
  ultimately show ?thesis
    using needed_seq [of q] by (cases q rule: overlong2.cases) (auto simp: lax_seq_def)
qed

lemma utf8_write_sound:
  assumes "utf8_inv c" "utf8_write al xs c = Ok (True, c')"
  shows "utf8_inv c' \<and> (lax_text (utf_have c' @ r) \<longrightarrow> lax_text (utf_have c @ xs @ r))"
proof (cases "utf_need c > 0")
  case False
  with assms write_rest_sound [of al xs c' r] show ?thesis
    by (auto simp: utf8_write_def utf8_inv_def)
next
  case True
  show ?thesis
  proof (cases "length xs < utf_need c")
    case less: True
    with True assms have "c' = \<lparr>utf_need = utf_need c - length xs, utf_have = utf_have c @ xs\<rparr>"
      by (auto simp: utf8_write_def Let_def min_def split: if_splits)
    with assms(1) True less show ?thesis by (auto simp: utf8_inv_def)
  next
    case False
    define h where "h = utf_have c @ take (utf_need c) xs"
    define rest where "rest = drop (utf_need c) xs"
    have split: "utf_have c @ xs @ r = h @ rest @ r"
      by (simp add: h_def rest_def)
    from assms(2) True False obtain ys where v: "valid h = Ok (Some ys)" "write_rest al [] rest = Ok (True, c')"
      by (auto simp: utf8_write_def Let_def h_def rest_def min_def ob_eq_Ok split: if_splits)
    have hl: "hd h = hd (utf_have c)" "length h = needed (hd h)"
      using assms(1) True False by (auto simp: h_def utf8_inv_def)
    have "ys = []"
    proof -
      obtain q where q: "lax_seq q" "h = q @ ys" using v(1) by (rule valid_sound)
      then have "needed (hd q) = length q \<or> needed (hd q) = 0" "q \<noteq> []"
        using lax_seq_needed by auto
      moreover from this q have "hd q = hd h" by simp
      moreover have "length h \<noteq> 0" using \<open>q \<noteq> []\<close> q by simp
      ultimately have "length q = length h" using hl by simp
      with q(2) show ?thesis by simp
    qed
    with v(1) have "lax_seq h" by (auto elim: valid_sound)
    with write_rest_sound [OF v(2), of r] show ?thesis
      unfolding split by (auto intro: sequences.more)
  qed
qed

lemma utf8_write_complete:
  assumes "utf8_inv c" "utf8_text (utf_have c @ xs @ r)"
  shows "\<exists>c'. utf8_write al xs c = Ok (True, c') \<and> utf8_inv c' \<and> utf8_text (utf_have c' @ r)"
proof (cases "utf_need c > 0")
  case False
  with assms write_rest_complete [of xs r al] show ?thesis
    by (auto simp: utf8_write_def utf8_inv_def)
next
  case True
  with assms(1) have ne: "utf_have c \<noteq> []"
    and nd: "needed (hd (utf_have c)) = length (utf_have c) + utf_need c"
    by (auto simp: utf8_inv_def)
  from assms(2) ne obtain q s where q: "utf_have c @ xs @ r = q @ s" "utf8_seq q" "utf8_text s" "q \<noteq> []"
    by (auto elim: text_front)
  have "hd q = hd (utf_have c)" using q ne by (metis hd_append2)
  then have lq: "length q = length (utf_have c) + utf_need c" using needed_seq [OF q(2)] nd by simp
  define t where "t = drop (length (utf_have c)) q"
  have "take (length (utf_have c)) q = take (length (utf_have c)) (q @ s)" using lq by simp
  also have "\<dots> = utf_have c" by (simp flip: q(1))
  finally have t1: "q = utf_have c @ t" by (metis append_take_drop_id t_def)
  with q(1) lq have t: "q = utf_have c @ t" "xs @ r = t @ s" "length t = utf_need c" by auto
  show ?thesis
  proof (cases "length xs < utf_need c")
    case less: True
    with t obtain u where u: "t = xs @ u" by (auto simp: append_eq_append_conv2)
    then have "u \<noteq> []" using less t(3) by auto
    with u q(2) t ne have "valid_have (utf_have c @ xs)"
      by (intro valid_have_complete [of _ u]) auto
    with True less ne nd assms(2) show ?thesis
      by (auto simp: utf8_write_def Let_def min_def utf8_inv_def)
  next
    case False
    define u where "u = drop (utf_need c) xs"
    have "take (utf_need c) xs = take (utf_need c) (xs @ r)" using False by simp
    also have "\<dots> = t" using t(3) by (simp add: t(2))
    finally have u: "xs = t @ u" by (metis append_take_drop_id u_def)
    with t(2) have u: "xs = t @ u" "s = u @ r" by auto
    have "valid (utf_have c @ t) = Ok (Some [])"
      using valid_complete [OF q(2), of "[]"] t(1) by simp
    moreover have "utf8_text (u @ r)" using q(3) u by simp
    ultimately show ?thesis
      using write_rest_complete [of u r al] True False t(3) u(1)
      by (auto simp: utf8_write_def Let_def min_def)
  qed
qed

lemma utf8_write_not_Oob:
  assumes "utf8_inv c"
  shows "utf8_write al xs c \<noteq> Oob"
proof -
  have "valid (utf_have c @ take (utf_need c) xs) \<noteq> Oob"
    if "utf_need c > 0" "utf_need c \<le> length xs"
    using that assms by (intro valid_not_Oob_needed) (auto simp: utf8_inv_def)
  moreover have "utf_need c = 0 \<Longrightarrow> utf_have c = []" using assms by (simp add: utf8_inv_def)
  ultimately show ?thesis
    using write_rest_not_Oob by (auto simp: utf8_write_def Let_def min_def ob_eq_Oob)
qed

lemma write_seq_sound:
  "utf8_inv c \<Longrightarrow> utf8_write_seq al bs c = Ok (True, c') \<Longrightarrow>
     utf8_inv c' \<and> (lax_text (utf_have c') \<longrightarrow> lax_text (utf_have c @ concat bs))"
proof (induction bs arbitrary: c)
  case (Cons b bs)
  then obtain c1 where c1: "utf8_write al b c = Ok (True, c1)" "utf8_write_seq al bs c1 = Ok (True, c')"
    by (auto simp: ob_eq_Ok split: if_splits)
  with Cons utf8_write_sound [OF Cons.prems(1) c1(1), of "concat bs"] show ?case by auto
qed simp

lemma write_seq_complete:
  "utf8_inv c \<Longrightarrow> utf8_text (utf_have c @ concat bs @ r) \<Longrightarrow>
     \<exists>c'. utf8_write_seq al bs c = Ok (True, c') \<and> utf8_inv c' \<and> utf8_text (utf_have c' @ r)"
proof (induction bs arbitrary: c)
  case (Cons b bs)
  then obtain c1 where "utf8_write al b c = Ok (True, c1)" "utf8_inv c1"
    "utf8_text (utf_have c1 @ concat bs @ r)"
    using utf8_write_complete [of c b "concat bs @ r" al] by auto
  with Cons.IH [of c1] show ?case by auto
qed simp

section \<open>Properties\<close>

text \<open>C19: well-formed UTF-8 is accepted however it is cut into buffers, and the check of a
  message then succeeds: no valid text is refused.\<close>

theorem utf8_accepts:
  assumes "utf8_text (concat bs)"
  shows "\<exists>c. utf8_write_seq aligned bs utf8_init = Ok (True, c) \<and> fst (utf8_finish c)"
proof -
  obtain c where c: "utf8_write_seq aligned bs utf8_init = Ok (True, c)" "utf8_inv c" "utf8_text (utf_have c)"
    using write_seq_complete [of utf8_init bs "[]" aligned] assms by (auto simp: utf8_init_def)
  have "utf_need c = 0"
  proof (rule ccontr)
    assume need: "utf_need c \<noteq> 0"
    with c(2) have ne: "utf_have c \<noteq> []"
      "needed (hd (utf_have c)) = length (utf_have c) + utf_need c"
      by (auto simp: utf8_inv_def)
    from c(3) ne(1) obtain q r where q: "utf_have c = q @ r" "utf8_seq q" "q \<noteq> []" by (rule text_front)
    with needed_seq [OF q(2)] ne(2) need show False by simp
  qed
  with c show ?thesis by (auto simp: utf8_finish_def)
qed

theorem utf8_accepts_witness:
  "\<exists>c. utf8_write_seq (\<lambda>_. True) [[0x24, 0xE2], [], [0x82], [0xAC, 0x24]] utf8_init = Ok (True, c) \<and>
     fst (utf8_finish c)"
proof (rule utf8_accepts)
  have "sequences utf8_seq (concat [[0x24], [0xE2, 0x82, 0xAC], [0x24]])"
    unfolding sequences_concat
    by (rule exI [of _ "[[0x24], [0xE2, 0x82, 0xAC], [0x24]]"]) code_simp
  then show "utf8_text (concat [[0x24, 0xE2], [], [0x82], [0xAC, 0x24 :: u8]])" by simp
qed

text \<open>C20: what is accepted, however it is cut, is well-formed except that the two-octet
  sequences may start with the overlong lead octets C0 and C1.\<close>

theorem utf8_accepted:
  assumes "utf8_write_seq aligned bs utf8_init = Ok (True, c)" "fst (utf8_finish c)"
  shows "lax_text (concat bs)"
proof -
  have "utf8_inv c \<and> (lax_text (utf_have c) \<longrightarrow> lax_text (utf_have utf8_init @ concat bs))"
    by (rule write_seq_sound [OF _ assms(1)]) simp
  moreover have "utf_need c = 0" using assms(2) by (simp add: utf8_finish_def)
  ultimately show ?thesis
    by (simp add: utf8_inv_def utf8_init_def sequences.none)
qed

theorem utf8_accepted_witness: "lax_text (concat [[0xC3], [0xA9]])"
proof -
  have run: "utf8_write_seq (\<lambda>_. True) [[0xC3], [0xA9]] utf8_init = Ok (True, \<lparr>utf_need = 0, utf_have = []\<rparr>)"
    by code_simp
  show ?thesis by (rule utf8_accepted [OF run]) code_simp
qed




end
