(* ===== verification/Ws_Frame.thy ===== *)
theory Ws_Frame
  imports Ws_Mask Ws_Utf8 Core_Buffers
begin

text \<open>
  WebSocket frames, \<open>include/beast/websocket/detail/frame.hpp\<close>, with the enumerations of
  \<open>websocket/rfc6455.hpp\<close> and the conversions of \<open>websocket/detail/endian.hpp\<close>. A sequence
  of buffers is the list of their octets. \<open>boost::endian::big_uint16_buf_t\<close> and
  \<open>big_uint64_buf_t\<close> are the octets of the number, the most significant first.
\<close>

section \<open>Byte order\<close>

definition big_uint16_to_native :: "bytes \<Rightarrow> (unit, u16) outcome" where
  "big_uint16_to_native p =
     ob (rd p 0) (\<lambda>p0. ob (rd p 1) (\<lambda>p1. Ok (push_bit 8 (ucast p0) + ucast p1)))"

definition big_uint64_to_native :: "bytes \<Rightarrow> (unit, u64) outcome" where
  "big_uint64_to_native p =
     ob (rd p 0) (\<lambda>p0. ob (rd p 1) (\<lambda>p1. ob (rd p 2) (\<lambda>p2. ob (rd p 3) (\<lambda>p3.
     ob (rd p 4) (\<lambda>p4. ob (rd p 5) (\<lambda>p5. ob (rd p 6) (\<lambda>p6. ob (rd p 7) (\<lambda>p7.
       Ok (push_bit 56 (ucast p0) + push_bit 48 (ucast p1) + push_bit 40 (ucast p2) +
           push_bit 32 (ucast p3) + push_bit 24 (ucast p4) + push_bit 16 (ucast p5) +
           push_bit 8 (ucast p6) + ucast p7)))))))))"

definition little_uint32_to_native :: "bytes \<Rightarrow> (unit, u32) outcome" where
  "little_uint32_to_native p =
     ob (rd p 0) (\<lambda>p0. ob (rd p 1) (\<lambda>p1. ob (rd p 2) (\<lambda>p2. ob (rd p 3) (\<lambda>p3.
       Ok (ucast p0 + push_bit 8 (ucast p1) + push_bit 16 (ucast p2) + push_bit 24 (ucast p3))))))"

definition native_to_little_uint32 :: "u32 \<Rightarrow> bytes" where
  "native_to_little_uint32 v =
     [ucast (v AND 0xFF), ucast (drop_bit 8 v AND 0xFF), ucast (drop_bit 16 v AND 0xFF),
      ucast (drop_bit 24 v AND 0xFF)]"

definition big_uint16_buf :: "u16 \<Rightarrow> bytes" where
  "big_uint16_buf v = map (\<lambda>k. ucast (drop_bit (8 * k) v)) [1, 0]"

definition big_uint64_buf :: "u64 \<Rightarrow> bytes" where
  "big_uint64_buf v = map (\<lambda>k. ucast (drop_bit (8 * k) v)) [7, 6, 5, 4, 3, 2, 1, 0]"

section \<open>Opcodes\<close>

datatype opcode = Op_cont | Op_text | Op_binary | Op_rsv3 | Op_rsv4 | Op_rsv5 | Op_rsv6 | Op_rsv7
  | Op_close | Op_ping | Op_pong | Op_crsvb | Op_crsvc | Op_crsvd | Op_crsve | Op_crsvf

definition opcodes :: "opcode list" where
  "opcodes = [Op_cont, Op_text, Op_binary, Op_rsv3, Op_rsv4, Op_rsv5, Op_rsv6, Op_rsv7,
     Op_close, Op_ping, Op_pong, Op_crsvb, Op_crsvc, Op_crsvd, Op_crsve, Op_crsvf]"

fun op_val :: "opcode \<Rightarrow> nat" where
  "op_val Op_cont = 0" | "op_val Op_text = 1" | "op_val Op_binary = 2" | "op_val Op_rsv3 = 3"
| "op_val Op_rsv4 = 4" | "op_val Op_rsv5 = 5" | "op_val Op_rsv6 = 6" | "op_val Op_rsv7 = 7"
| "op_val Op_close = 8" | "op_val Op_ping = 9" | "op_val Op_pong = 10" | "op_val Op_crsvb = 11"
| "op_val Op_crsvc = 12" | "op_val Op_crsvd = 13" | "op_val Op_crsve = 14" | "op_val Op_crsvf = 15"

definition op_octet :: "opcode \<Rightarrow> u8" where
  "op_octet op = of_nat (op_val op)"

text \<open>\<open>static_cast<opcode>(b & 0x0f)\<close>.\<close>

definition op_cast :: "u8 \<Rightarrow> opcode" where
  "op_cast b = opcodes ! unat (b AND 0x0F)"

text \<open>The enumerators compare by their values.\<close>

lemma op_val_inject [simp]: "op_val a = op_val b \<longleftrightarrow> a = b"
  by (cases a; cases b) simp_all

instantiation opcode :: linorder
begin

definition less_eq_opcode :: "opcode \<Rightarrow> opcode \<Rightarrow> bool" where
  "less_eq_opcode a b \<longleftrightarrow> op_val a \<le> op_val b"

definition less_opcode :: "opcode \<Rightarrow> opcode \<Rightarrow> bool" where
  "less_opcode a b \<longleftrightarrow> op_val a < op_val b"

instance
  by intro_classes (auto simp: less_eq_opcode_def less_opcode_def)

end

definition is_reserved :: "opcode \<Rightarrow> bool" where
  "is_reserved op \<longleftrightarrow> (op \<ge> Op_rsv3 \<and> op \<le> Op_rsv7) \<or> (op \<ge> Op_crsvb \<and> op \<le> Op_crsvf)"

definition is_valid :: "opcode \<Rightarrow> bool" where
  "is_valid op \<longleftrightarrow> op \<le> Op_crsvf"

definition is_control :: "opcode \<Rightarrow> bool" where
  "is_control op \<longleftrightarrow> op \<ge> Op_close"

section \<open>Close codes\<close>

type_synonym close_code = u16

definition cc_none :: close_code where "cc_none = 0"
definition cc_normal :: close_code where "cc_normal = 1000"
definition cc_going_away :: close_code where "cc_going_away = 1001"
definition cc_protocol_error :: close_code where "cc_protocol_error = 1002"
definition cc_unknown_data :: close_code where "cc_unknown_data = 1003"
definition cc_reserved1 :: close_code where "cc_reserved1 = 1004"
definition cc_no_status :: close_code where "cc_no_status = 1005"
definition cc_abnormal :: close_code where "cc_abnormal = 1006"
definition cc_bad_payload :: close_code where "cc_bad_payload = 1007"
definition cc_policy_error :: close_code where "cc_policy_error = 1008"
definition cc_too_big :: close_code where "cc_too_big = 1009"
definition cc_needs_extension :: close_code where "cc_needs_extension = 1010"
definition cc_internal_error :: close_code where "cc_internal_error = 1011"
definition cc_service_restart :: close_code where "cc_service_restart = 1012"
definition cc_try_again_later :: close_code where "cc_try_again_later = 1013"
definition cc_reserved2 :: close_code where "cc_reserved2 = 1014"
definition cc_reserved3 :: close_code where "cc_reserved3 = 1015"

lemmas cc_defs = cc_none_def cc_normal_def cc_going_away_def cc_protocol_error_def
  cc_unknown_data_def cc_reserved1_def cc_no_status_def cc_abnormal_def cc_bad_payload_def
  cc_policy_error_def cc_too_big_def cc_needs_extension_def cc_internal_error_def
  cc_service_restart_def cc_try_again_later_def cc_reserved2_def cc_reserved3_def

definition is_valid_close_code :: "u16 \<Rightarrow> bool" where
  "is_valid_close_code v =
     (if v = cc_normal \<or> v = cc_going_away \<or> v = cc_protocol_error \<or> v = cc_unknown_data \<or>
         v = cc_bad_payload \<or> v = cc_policy_error \<or> v = cc_too_big \<or> v = cc_needs_extension \<or>
         v = cc_internal_error \<or> v = cc_service_restart \<or> v = cc_try_again_later then True
      else if v = cc_reserved1 \<or> v = cc_no_status \<or> v = cc_abnormal \<or> v = cc_reserved2 \<or>
         v = cc_reserved3 then False
      else if v \<ge> 1016 \<and> v \<le> 2999 then False
      else if v \<le> 999 then False
      else True)"

text \<open>A \<open>close_reason\<close>; the string holds at most 123 characters.\<close>

record close_reason =
  cr_code :: u16
  cr_reason :: bytes

definition cr_default :: close_reason where
  "cr_default = \<lparr>cr_code = cc_none, cr_reason = []\<rparr>"

definition cr_of_code :: "u16 \<Rightarrow> close_reason" where
  "cr_of_code c = \<lparr>cr_code = c, cr_reason = []\<rparr>"

section \<open>Frame headers\<close>

record frame_header =
  fh_op :: opcode
  fh_fin :: bool
  fh_mask :: bool
  fh_rsv1 :: bool
  fh_rsv2 :: bool
  fh_rsv3 :: bool
  fh_len :: u64
  fh_key :: u32

definition fh_octet0 :: "frame_header \<Rightarrow> u8" where
  "fh_octet0 fh =
     (let b0 = (if fh_fin fh then 0x80 else 0x00) OR op_octet (fh_op fh);
          b0 = (if fh_rsv1 fh then b0 OR 0x40 else b0);
          b0 = (if fh_rsv2 fh then b0 OR 0x20 else b0);
          b0 = (if fh_rsv3 fh then b0 OR 0x10 else b0)
      in b0)"

definition fh_encode :: "frame_header \<Rightarrow> bytes" where
  "fh_encode fh =
     (let b0 = fh_octet0 fh;
          b1 = (if fh_mask fh then 0x80 else 0x00 :: u8);
          b = (if fh_len fh \<le> 125 then [b0, b1 OR ucast (fh_len fh)]
               else if fh_len fh \<le> 65535 then [b0, b1 OR 126] @ big_uint16_buf (ucast (fh_len fh))
               else [b0, b1 OR 127] @ big_uint64_buf (fh_len fh))
      in if fh_mask fh then b @ native_to_little_uint32 (fh_key fh) else b)"

definition write_fh :: "'b dynbuf \<Rightarrow> frame_header \<Rightarrow> 'b \<Rightarrow> (length_error, 'b) outcome" where
  "write_fh db fh b = db_append db (fh_encode fh) b"

section \<open>Control payloads\<close>

text \<open>\<open>ping_data\<close> is a string of at most 125 characters: more is an assertion failure.\<close>

definition read_ping_data :: "bytes list \<Rightarrow> (unit, bytes) outcome" where
  "read_ping_data bs = (if length (concat bs) \<le> 125 then Ok (concat bs) else Oob)"

definition read_close_reason ::
    "(nat \<Rightarrow> bool) \<Rightarrow> bytes list \<Rightarrow> close_reason \<Rightarrow> (unit, close_code \<times> close_reason) outcome" where
  "read_close_reason al bs cr =
     (let n = length (concat bs) in
      if n > 125 then Oob
      else if n = 0 then Ok (cc_none, cr_default)
      else if n = 1 then Ok (cc_protocol_error, cr)
      else
        ob (big_uint16_to_native (take 2 (concat bs))) (\<lambda>code.
        let cr = cr\<lparr>cr_code := code\<rparr>; cb = drop 2 (concat bs); n = n - 2 in
        if \<not> is_valid_close_code code then Ok (cc_protocol_error, cr)
        else if n > 0 then
          let cr = cr\<lparr>cr_reason := cb\<rparr> in
          ob (check_utf8 al (cr_reason cr)) (\<lambda>ok.
          if \<not> ok then Ok (cc_protocol_error, cr) else Ok (cc_none, cr))
        else Ok (cc_none, cr\<lparr>cr_reason := []\<rparr>)))"

section \<open>Byte order round trips\<close>

lemma add_or: "(\<And>n. \<not> (bit a n \<and> bit b n)) \<Longrightarrow> a + b = a OR (b :: 'a::len word)"
  by (rule disjunctive_add) blast

lemma u8_high_bit: "bit (b :: u8) n \<Longrightarrow> n < 8"
  by (auto dest: bit_imp_le_length)

lemma load_le_store_le: "LENGTH('a) = 8 * n \<Longrightarrow> load_le (store_le n w) = (w :: 'a::len word)"
proof (rule bit_word_eqI)
  fix k assume n: "LENGTH('a) = 8 * n" and k: "k < LENGTH('a)"
  then have "k div 8 < n" "8 * (k div 8) + k mod 8 = k" by simp_all
  with k show "bit (load_le (store_le n w) :: 'a word) k = bit w k"
    by (simp add: bit_load_le store_le_def bit_key_octet)
qed

lemma push_bit_or: "push_bit n (a OR b) = push_bit n a OR push_bit n (b :: 'a::len word)"
  by (rule bit_word_eqI) (auto simp: bit_simps)

lemma big_uint16_load:
  assumes "length p = 2"
  shows "big_uint16_to_native p = Ok (load_le (rev p))"
proof -
  obtain a b where p: "p = [a, b]" using assms by (auto simp: numeral_2_eq_2 length_Suc_conv)
  have "push_bit 8 (ucast a) + ucast b = push_bit 8 (ucast a) OR (ucast b :: u16)"
    by (rule add_or) (auto simp: bit_simps dest: u8_high_bit)
  then show ?thesis by (simp add: p big_uint16_to_native_def or.commute)
qed

lemma little_uint32_load:
  assumes "length p = 4"
  shows "little_uint32_to_native p = Ok (load_le p)"
proof -
  obtain a b c d where p: "p = [a, b, c, d]"
    using assms by (auto simp: numeral_eq_Suc length_Suc_conv)
  have "ucast a + push_bit 8 (ucast b) = ucast a OR (push_bit 8 (ucast b) :: u32)"
    by (rule add_or) (auto simp: bit_simps dest: u8_high_bit)
  moreover have "(ucast a OR push_bit 8 (ucast b)) + push_bit 16 (ucast c) =
      ucast a OR push_bit 8 (ucast b) OR (push_bit 16 (ucast c) :: u32)"
    by (subst add_or) (auto simp: bit_simps or.assoc dest: u8_high_bit)
  moreover have "(ucast a OR push_bit 8 (ucast b) OR push_bit 16 (ucast c)) + push_bit 24 (ucast d) =
      ucast a OR push_bit 8 (ucast b) OR push_bit 16 (ucast c) OR (push_bit 24 (ucast d) :: u32)"
    by (subst add_or) (auto simp: bit_simps or.assoc dest: u8_high_bit)
  ultimately show ?thesis
    by (simp add: p little_uint32_to_native_def push_bit_or)
qed

lemma big_uint64_load:
  assumes "length p = 8"
  shows "big_uint64_to_native p = Ok (load_le (rev p))"
proof -
  obtain a b c d e f g h where p: "p = [a, b, c, d, e, f, g, h]"
    using assms by (auto simp: numeral_eq_Suc length_Suc_conv)
  define s :: "nat \<Rightarrow> u8 \<Rightarrow> u64" where "s k x = push_bit k (ucast x)" for k x
  have b: "bit (s k x) n \<longleftrightarrow> n < 64 \<and> k \<le> n \<and> bit x (n - k)" for k x n
    by (auto simp: s_def bit_simps)
  have h: "bit x (n - k) \<Longrightarrow> n < k + 8" for x :: u8 and n k
    using u8_high_bit [of x "n - k"] by simp
  have or: "w + s k x = w OR s k x" if "\<And>n. k \<le> n \<Longrightarrow> n < k + 8 \<Longrightarrow> \<not> bit w n" for w k x
    using that h by (intro add_or) (auto simp: b)
  have "s 56 a + s 48 b + s 40 c + s 32 d + s 24 e + s 16 f + s 8 g + s 0 h =
      s 56 a OR s 48 b OR s 40 c OR s 32 d OR s 24 e OR s 16 f OR s 8 g OR s 0 h"
    by (simp add: or or.assoc b bit_or_iff)
  then show ?thesis
    by (simp add: p big_uint64_to_native_def push_bit_or s_def or.assoc or.commute or.left_commute)
qed

lemma native_to_little_store: "native_to_little_uint32 v = store_le 4 v"
proof -
  have "w AND 0xFF = take_bit 8 w" for w :: u32
    by (simp add: take_bit_eq_mask mask_eq_exp_minus_1)
  moreover have "ucast (take_bit 8 w) = (ucast w :: u8)" for w :: u32
    by (rule bit_word_eqI) (auto simp: bit_simps)
  ultimately have "ucast (w AND 0xFF) = (ucast w :: u8)" for w :: u32
    by simp
  then show ?thesis by (simp add: native_to_little_uint32_def store_le_def key_octet_def numeral_eq_Suc)
qed

end
