(* ===== verification/Ws_Pmd.thy ===== *)
theory Ws_Pmd
  imports Http_Lists
begin

text \<open>
  Negotiation of the permessage-deflate extension,
  \<open>include/beast/websocket/detail/pmd_extension.hpp\<close>, with the options of
  \<open>websocket/option.hpp\<close>. The code reads one field of the request or response and replaces
  one: the field's value is an argument (empty when the field is absent, as
  \<open>basic_fields::operator[]\<close> has it) and the value it is replaced with a result, \<open>None\<close>
  when the field is left alone. C++ \<open>int\<close> values are integers: they stay below 100.
\<close>

record permessage_deflate =
  po_server_enable :: bool
  po_client_enable :: bool
  po_server_max_window_bits :: int
  po_client_max_window_bits :: int
  po_server_no_context_takeover :: bool
  po_client_no_context_takeover :: bool
  po_compLevel :: int
  po_memLevel :: int

definition po_default :: permessage_deflate where
  "po_default = \<lparr>po_server_enable = False, po_client_enable = False,
     po_server_max_window_bits = 15, po_client_max_window_bits = 15,
     po_server_no_context_takeover = False, po_client_no_context_takeover = False,
     po_compLevel = 8, po_memLevel = 4\<rparr>"

record pmd_offer =
  pd_accept :: bool
  pd_server_max_window_bits :: int
  pd_client_max_window_bits :: int
  pd_server_no_context_takeover :: bool
  pd_client_no_context_takeover :: bool

section \<open>parse_bits\<close>

definition char_digit :: "char \<Rightarrow> int" where
  "char_digit c = int (octet c) - 48"

fun parse_bits_loop :: "int \<Rightarrow> string \<Rightarrow> int" where
  "parse_bits_loop i [] = i"
| "parse_bits_loop i (c # s) =
     (if octet c < 48 \<or> octet c > 57 then - 1 else parse_bits_loop (10 * i + char_digit c) s)"

definition parse_bits :: "string \<Rightarrow> int" where
  "parse_bits s =
     (if length s = 0 then - 1
      else if length s > 2 then - 1
      else if octet (hd s) < 49 \<or> octet (hd s) > 57 then - 1
      else parse_bits_loop 0 s)"

section \<open>pmd_read\<close>

text \<open>One parameter; \<open>None\<close> is \<open>return\<close>, the offer as it is then is returned beside it.\<close>

definition pmd_param :: "pmd_offer \<Rightarrow> string \<times> string \<Rightarrow> bool \<times> pmd_offer" where
  "pmd_param offer param =
     (if ci_equal (fst param) ''server_max_window_bits'' then
        if pd_server_max_window_bits offer \<noteq> 0 then (False, offer)
        else if snd param = [] then (False, offer)
        else
          let offer = offer\<lparr>pd_server_max_window_bits := parse_bits (snd param)\<rparr> in
          (\<not> (pd_server_max_window_bits offer < 8 \<or> pd_server_max_window_bits offer > 15), offer)
      else if ci_equal (fst param) ''client_max_window_bits'' then
        if pd_client_max_window_bits offer \<noteq> 0 then (False, offer)
        else if snd param \<noteq> [] then
          let offer = offer\<lparr>pd_client_max_window_bits := parse_bits (snd param)\<rparr> in
          (\<not> (pd_client_max_window_bits offer < 8 \<or> pd_client_max_window_bits offer > 15), offer)
        else (True, offer\<lparr>pd_client_max_window_bits := - 1\<rparr>)
      else if ci_equal (fst param) ''server_no_context_takeover'' then
        if pd_server_no_context_takeover offer then (False, offer)
        else if snd param \<noteq> [] then (False, offer)
        else (True, offer\<lparr>pd_server_no_context_takeover := True\<rparr>)
      else if ci_equal (fst param) ''client_no_context_takeover'' then
        if pd_client_no_context_takeover offer then (False, offer)
        else if snd param \<noteq> [] then (False, offer)
        else (True, offer\<lparr>pd_client_no_context_takeover := True\<rparr>)
      else (False, offer))"

fun pmd_params :: "pmd_offer \<Rightarrow> (string \<times> string) list \<Rightarrow> pmd_offer" where
  "pmd_params offer [] = offer\<lparr>pd_accept := True\<rparr>"
| "pmd_params offer (p # ps) =
     (case pmd_param offer p of (ok, offer) \<Rightarrow> if ok then pmd_params offer ps else offer)"

fun pmd_exts :: "pmd_offer \<Rightarrow> (string \<times> string) list \<Rightarrow> pmd_offer" where
  "pmd_exts offer [] = offer"
| "pmd_exts offer (e # es) =
     (if ci_equal (fst e) ''permessage-deflate'' then pmd_params offer (param_list (snd e))
      else pmd_exts offer es)"

definition pmd_none :: pmd_offer where
  "pmd_none = \<lparr>pd_accept = False, pd_server_max_window_bits = 0, pd_client_max_window_bits = 0,
     pd_server_no_context_takeover = False, pd_client_no_context_takeover = False\<rparr>"

definition pmd_read :: "string \<Rightarrow> pmd_offer" where
  "pmd_read field = pmd_exts pmd_none (ext_list field)"

section \<open>pmd_write, pmd_negotiate, pmd_normalize\<close>

text \<open>\<open>std::to_string\<close> of a number that is not negative and below 100.\<close>

definition digit_char :: "int \<Rightarrow> char" where
  "digit_char d = char_of (nat d + 48)"

definition int_to_string :: "int \<Rightarrow> string" where
  "int_to_string i =
     (if i < 0 then CHR ''-'' # (if - i < 10 then [digit_char (- i)] else [digit_char (- i div 10), digit_char (- i mod 10)])
      else if i < 10 then [digit_char i] else [digit_char (i div 10), digit_char (i mod 10)])"

definition pmd_write :: "pmd_offer \<Rightarrow> string" where
  "pmd_write offer =
     ''permessage-deflate'' @
     (if pd_server_max_window_bits offer \<noteq> 0 then
        if pd_server_max_window_bits offer \<noteq> - 1
        then ''; server_max_window_bits='' @ int_to_string (pd_server_max_window_bits offer)
        else ''; server_max_window_bits''
      else '''') @
     (if pd_client_max_window_bits offer \<noteq> 0 then
        if pd_client_max_window_bits offer \<noteq> - 1
        then ''; client_max_window_bits='' @ int_to_string (pd_client_max_window_bits offer)
        else ''; client_max_window_bits''
      else '''') @
     (if pd_server_no_context_takeover offer then ''; server_no_context_takeover'' else '''') @
     (if pd_client_no_context_takeover offer then ''; client_no_context_takeover'' else '''')"

definition pmd_negotiate ::
    "pmd_offer \<Rightarrow> pmd_offer \<Rightarrow> permessage_deflate \<Rightarrow> string option \<times> pmd_offer" where
  "pmd_negotiate config offer po =
     (if \<not> (pd_accept offer \<and> po_server_enable po) then (None, config\<lparr>pd_accept := False\<rparr>)
      else
        let config = config\<lparr>pd_accept := True\<rparr>;
            s = ''permessage-deflate'';
            config = config\<lparr>pd_server_no_context_takeover :=
              pd_server_no_context_takeover offer \<or> po_server_no_context_takeover po\<rparr>;
            s = (if pd_server_no_context_takeover config then s @ ''; server_no_context_takeover'' else s);
            config = config\<lparr>pd_client_no_context_takeover :=
              po_client_no_context_takeover po \<or> pd_client_no_context_takeover offer\<rparr>;
            s = (if pd_client_no_context_takeover config then s @ ''; client_no_context_takeover'' else s);
            config = config\<lparr>pd_server_max_window_bits :=
              (if pd_server_max_window_bits offer \<noteq> 0
               then min (pd_server_max_window_bits offer) (po_server_max_window_bits po)
               else po_server_max_window_bits po)\<rparr>;
            (config, s) =
              (if pd_server_max_window_bits config < 15 then
                 let config = (if pd_server_max_window_bits config < 9
                               then config\<lparr>pd_server_max_window_bits := 9\<rparr> else config)
                 in (config, s @ ''; server_max_window_bits='' @ int_to_string (pd_server_max_window_bits config))
               else (config, s));
            (config, s) =
              (if pd_client_max_window_bits offer = - 1 then
                 let config = config\<lparr>pd_client_max_window_bits := po_client_max_window_bits po\<rparr> in
                 (config,
                  if pd_client_max_window_bits config < 15
                  then s @ ''; client_max_window_bits='' @ int_to_string (pd_client_max_window_bits config)
                  else s)
               else if pd_client_max_window_bits offer = 0 then
                 (if po_client_max_window_bits po = 15 then config\<lparr>pd_client_max_window_bits := 15\<rparr>
                  else config\<lparr>pd_accept := False\<rparr>, s)
               else
                 let config = config\<lparr>pd_client_max_window_bits :=
                   min (po_client_max_window_bits po) (pd_client_max_window_bits offer)\<rparr> in
                 (config, s @ ''; client_max_window_bits='' @ int_to_string (pd_client_max_window_bits config)))
        in (if pd_accept config then Some s else None, config))"

definition pmd_normalize :: "pmd_offer \<Rightarrow> pmd_offer" where
  "pmd_normalize offer =
     (if pd_accept offer then
        let offer = (if pd_server_max_window_bits offer = 0
                     then offer\<lparr>pd_server_max_window_bits := 15\<rparr> else offer)
        in if pd_client_max_window_bits offer = 0 \<or> pd_client_max_window_bits offer = - 1
           then offer\<lparr>pd_client_max_window_bits := 15\<rparr> else offer
      else offer)"

definition pmd_set_option :: "permessage_deflate \<Rightarrow> permessage_deflate \<Rightarrow> (unit, permessage_deflate) outcome" where
  "pmd_set_option opts po =
     (if po_server_max_window_bits po > 15 \<or> po_server_max_window_bits po < 9 then Err ()
      else if po_client_max_window_bits po > 15 \<or> po_client_max_window_bits po < 9 then Err ()
      else if po_compLevel po < 0 \<or> po_compLevel po > 9 then Err ()
      else if po_memLevel po < 1 \<or> po_memLevel po > 9 then Err ()
      else Ok po)"

section \<open>Parameter lists that are written\<close>

fun param_text :: "(string \<times> string) list \<Rightarrow> string" where
  "param_text [] = []"
| "param_text ((n, v) # ps) = ''; '' @ n @ (if v = [] then [] else CHR ''='' # v) @ param_text ps"

definition is_token :: "string \<Rightarrow> bool" where
  "is_token s \<longleftrightarrow> s \<noteq> [] \<and> list_all is_tchar s"

definition plain_param :: "string \<times> string \<Rightarrow> bool" where
  "plain_param p \<longleftrightarrow> is_token (fst p) \<and> (snd p = [] \<or> is_token (snd p))"

definition ends_token :: "string \<Rightarrow> bool" where
  "ends_token s \<longleftrightarrow> (s = [] \<or> \<not> is_tchar (hd s))"

lemma special_chars:
  "\<not> is_tchar (CHR '';'')" "\<not> is_tchar (CHR ''='')" "\<not> is_ows (CHR '';'')" "\<not> is_ows (CHR ''='')"
  "is_ows (CHR '' '')" "\<not> is_tchar (CHR 0x22)" "\<not> is_tchar (CHR '','')" "\<not> is_tchar (CHR '' '')"
  by code_simp+

lemma skip_token_append: "list_all is_tchar n \<Longrightarrow> ends_token r \<Longrightarrow> skip_token (n @ r) = r"
  by (induction n) (cases r; auto simp: ends_token_def)+

lemma ows_skip_token: "is_token n \<Longrightarrow> ows_skip (n @ r) = n @ r"
  by (cases n) (auto simp: is_token_def tchar_not_ows)

lemma ows_skip_at: "ends_token r \<Longrightarrow> r = [] \<or> hd r = CHR '';'' \<Longrightarrow> ows_skip r = r"
  by (cases r) (auto simp: special_chars)

lemma between_append [simp]: "between (a @ b) b = a"
  by (simp add: between_def)

lemma param_text_ends: "ends_token (param_text ps)" "param_text ps = [] \<or> hd (param_text ps) = CHR '';''"
  by (cases ps rule: param_text.cases; simp add: ends_token_def special_chars)+

lemma param_body_text:
  assumes "plain_param (n, v)"
  shows "param_body (n @ (if v = [] then [] else CHR ''='' # v) @ param_text ps) = (n, Some (param_text ps, v))"
proof -
  from assms obtain c n' where n: "n = c # n'" "is_tchar c" "list_all is_tchar n'"
    by (cases n) (auto simp: plain_param_def is_token_def)
  show ?thesis
  proof (cases v)
    case Nil
    have "skip_token (n' @ param_text ps) = param_text ps"
      by (rule skip_token_append) (use n param_text_ends in auto)
    moreover have "ows_skip (param_text ps) = param_text ps"
      by (rule ows_skip_at) (use param_text_ends in auto)
    ultimately show ?thesis
      using Nil n between_append [of "c # n'" "param_text ps"]
      by (cases ps rule: param_text.cases) (auto simp: param_body_def Let_def)
  next
    case (Cons d v')
    with assms have v: "is_tchar d" "list_all is_tchar v'" "is_token v"
      by (auto simp: plain_param_def is_token_def)
    have "skip_token (n' @ CHR ''='' # v @ param_text ps) = CHR ''='' # v @ param_text ps"
      by (rule skip_token_append) (use n in \<open>auto simp: ends_token_def special_chars\<close>)
    moreover have "param_value (v @ param_text ps) = Some (param_text ps, v)"
    proof -
      have "skip_token (v' @ param_text ps) = param_text ps"
        by (rule skip_token_append) (use v param_text_ends in auto)
      with v Cons between_append [of v "param_text ps"] show ?thesis
        by (auto simp: param_value_def Let_def special_chars)
    qed
    ultimately show ?thesis
      using Cons n v between_append [of "c # n'" "CHR ''='' # v @ param_text ps"] ows_skip_token [of v "param_text ps"]
      by (auto simp: param_body_def Let_def special_chars)
  qed
qed

lemma param_increment_text:
  assumes "plain_param (n, v)" "pi_it p = param_text ((n, v) # ps)"
  shows "param_increment p = \<lparr>pi_it = param_text ps, pi_first = param_text ((n, v) # ps), pi_v = (n, v)\<rparr>"
proof -
  have "ows_skip (CHR '' '' # n @ (if v = [] then [] else CHR ''='' # v) @ param_text ps) =
      n @ (if v = [] then [] else CHR ''='' # v) @ param_text ps"
    using assms ows_skip_token [of n] by (simp add: special_chars plain_param_def)
  with param_body_text [OF assms(1), of ps] assms(2) show ?thesis
    by (simp add: param_increment_def Let_def special_chars)
qed

lemma param_increment_end: "pi_it p = [] \<Longrightarrow> param_increment p = \<lparr>pi_it = [], pi_first = [], pi_v = ([], [])\<rparr>"
  by (simp add: param_increment_def)

lemma length_param_text: "length (param_text ps) < length (param_text ((n, v) # ps))"
  by simp

lemma params_end_text:
  "list_all plain_param ps \<Longrightarrow> pi_it p = param_text ps \<Longrightarrow> pi_it (params_end p) = []"
proof (induction ps arbitrary: p rule: param_text.induct)
  case 1
  then show ?case by (subst params_end.simps) (simp add: param_increment_end param_empty_def)
next
  case (2 n v ps)
  then have inc: "param_increment p =
      \<lparr>pi_it = param_text ps, pi_first = param_text ((n, v) # ps), pi_v = (n, v)\<rparr>"
    by (intro param_increment_text) auto
  moreover have "\<not> param_empty (param_increment p)"
    using length_param_text [of ps n v] by (auto simp: inc param_empty_def simp del: param_text.simps)
  ultimately show ?case
    using 2 by (subst params_end.simps) (simp add: Let_def)
qed

lemma param_list_increment_text:
  assumes "plain_param (n, v)" "pi_it p = param_text ((n, v) # ps)"
  shows "param_list_increment p =
    \<lparr>pi_it = param_text ps, pi_first = param_text ((n, v) # ps), pi_v = (n, v)\<rparr>"
proof -
  have "v \<noteq> [] \<longrightarrow> hd v \<noteq> CHR 0x22"
    using assms(1) special_chars by (cases v) (auto simp: plain_param_def is_token_def)
  with param_increment_text [OF assms] length_param_text [of ps n v] show ?thesis
    by (auto simp: param_list_increment_def Let_def param_empty_def simp del: param_text.simps)
qed

lemma param_items_text:
  "list_all plain_param (q # ps) \<Longrightarrow> pi_it p = param_text ps \<Longrightarrow> pi_first p \<noteq> [] \<Longrightarrow> pi_v p = q \<Longrightarrow>
     param_items p = q # ps"
proof (induction ps arbitrary: p q)
  case Nil
  then have "param_list_increment p = \<lparr>pi_it = [], pi_first = [], pi_v = ([], [])\<rparr>"
    by (simp add: param_list_increment_def param_increment_end param_empty_def)
  with Nil show ?case
    by (subst param_items.simps, simp add: param_at_end_def)
      (subst param_items.simps, simp add: param_at_end_def)
next
  case (Cons r ps)
  obtain n v where r: "r = (n, v)" by (cases r)
  have "param_list_increment p =
      \<lparr>pi_it = param_text ps, pi_first = param_text ((n, v) # ps), pi_v = (n, v)\<rparr>"
    by (rule param_list_increment_text) (use Cons r in auto)
  moreover have "param_items (param_list_increment p) = r # ps"
    by (rule Cons.IH) (use Cons.prems calculation r in auto)
  ultimately show ?case
    using Cons.prems by (subst param_items.simps) (simp add: param_at_end_def)
qed

lemma param_list_text:
  assumes "list_all plain_param ps"
  shows "param_list (param_text ps) = ps"
proof (cases ps)
  case Nil
  then show ?thesis
    by (simp add: param_list_def param_list_begin_def param_list_increment_def param_increment_end
        param_empty_def) (subst param_items.simps, simp add: param_at_end_def)
next
  case (Cons r rs)
  obtain n v where r: "r = (n, v)" by (cases r)
  have "param_list_begin (param_text ps) =
      \<lparr>pi_it = param_text rs, pi_first = param_text ps, pi_v = (n, v)\<rparr>"
    unfolding param_list_begin_def using assms Cons r
    by (subst param_list_increment_text [of n v _ rs]) auto
  then show ?thesis
    unfolding param_list_def using assms Cons r by (auto intro!: param_items_text)
qed

lemma ext_list_text:
  assumes t: "is_token t" and ps: "list_all plain_param ps"
  shows "ext_list (t @ param_text ps) = [(t, param_text ps)]"
proof -
  obtain c t' where c: "t = c # t'" "is_tchar c" "list_all is_tchar t'"
    using t by (cases t) (auto simp: is_token_def)
  have "skip_token (t' @ param_text ps) = param_text ps"
    by (rule skip_token_append) (use c param_text_ends in auto)
  then have elem: "ext_elem (t @ param_text ps) = ([], t, param_text ps)"
    using c between_append [of t "param_text ps"] between_append [of "param_text ps" "[]"]
      params_end_text [OF ps, of "\<lparr>pi_it = param_text ps, pi_first = param_text ps, pi_v = ([], [])\<rparr>"]
    by (simp add: ext_elem_def Let_def)
  have first: "ext_list_increment (list_start (t @ param_text ps)) =
      \<lparr>li_it = [], li_first = t @ param_text ps, li_v = (t, param_text ps)\<rparr>"
    using ows_skip_token [OF t, of "param_text ps"] c elem
    by (simp add: ext_list_increment_def list_start_def) (subst list_scan.simps, simp)
  have "ext_list_increment \<lparr>li_it = [], li_first = t @ param_text ps, li_v = (t, param_text ps)\<rparr> =
      list_err ([], [])"
    by (simp add: ext_list_increment_def) (subst list_scan.simps, simp)
  with first c show ?thesis
    by (simp add: ext_list_def)
      (subst ext_items.simps, simp add: list_at_end_def,
       subst ext_items.simps, simp add: list_at_end_def list_err_def)
qed

section \<open>Offers that are written and read\<close>

definition bits_param :: "string \<Rightarrow> int \<Rightarrow> (string \<times> string) list" where
  "bits_param name n = (if n = 0 then [] else [(name, if n = - 1 then [] else int_to_string n)])"

definition flag_param :: "string \<Rightarrow> bool \<Rightarrow> (string \<times> string) list" where
  "flag_param name b = (if b then [(name, [])] else [])"

abbreviation smwb :: string where "smwb \<equiv> ''server_max_window_bits''"
abbreviation cmwb :: string where "cmwb \<equiv> ''client_max_window_bits''"
abbreviation snct :: string where "snct \<equiv> ''server_no_context_takeover''"
abbreviation cnct :: string where "cnct \<equiv> ''client_no_context_takeover''"
abbreviation pmd_name :: string where "pmd_name \<equiv> ''permessage-deflate''"

text \<open>The numbers of window bits the code exchanges.\<close>

definition window_bits :: "int \<Rightarrow> bool" where
  "window_bits n \<longleftrightarrow> 8 \<le> n \<and> n \<le> 15"

lemma window_bits_cases:
  assumes "window_bits n"
  obtains "n = 8" | "n = 9" | "n = 10" | "n = 11" | "n = 12" | "n = 13" | "n = 14" | "n = 15"
proof -
  from assms have "n = 8 \<or> n = 9 \<or> n = 10 \<or> n = 11 \<or> n = 12 \<or> n = 13 \<or> n = 14 \<or> n = 15"
    by (auto simp: window_bits_def)
  with that show ?thesis by blast
qed

lemma bits_texts:
  "int_to_string 8 = ''8''" "int_to_string 9 = ''9''" "int_to_string 10 = ''10''"
  "int_to_string 11 = ''11''" "int_to_string 12 = ''12''" "int_to_string 13 = ''13''"
  "int_to_string 14 = ''14''" "int_to_string 15 = ''15''"
  by code_simp+

lemma parse_bits_texts:
  "parse_bits ''8'' = 8" "parse_bits ''9'' = 9" "parse_bits ''10'' = 10" "parse_bits ''11'' = 11"
  "parse_bits ''12'' = 12" "parse_bits ''13'' = 13" "parse_bits ''14'' = 14" "parse_bits ''15'' = 15"
  by code_simp+

lemma digit_tokens:
  "is_token ''8''" "is_token ''9''" "is_token ''10''" "is_token ''11''"
  "is_token ''12''" "is_token ''13''" "is_token ''14''" "is_token ''15''"
  by code_simp+

lemma int_to_string_window:
  assumes "window_bits n"
  shows "parse_bits (int_to_string n) = n" "is_token (int_to_string n)"
  using assms by (cases rule: window_bits_cases; simp add: bits_texts parse_bits_texts digit_tokens)+

lemma name_tokens: "is_token smwb" "is_token cmwb" "is_token snct" "is_token cnct" "is_token pmd_name"
  by code_simp+

lemma name_ci:
  "\<not> ci_equal cmwb smwb" "\<not> ci_equal snct smwb" "\<not> ci_equal snct cmwb"
  "\<not> ci_equal cnct smwb" "\<not> ci_equal cnct cmwb" "\<not> ci_equal cnct snct"
proof -
  have "beast_tolower (CHR ''c'') \<noteq> beast_tolower (CHR ''s'')"
    "beast_tolower (CHR ''m'') \<noteq> beast_tolower (CHR ''n'')" by code_simp+
  then show "\<not> ci_equal cmwb smwb" "\<not> ci_equal snct smwb" "\<not> ci_equal snct cmwb"
    "\<not> ci_equal cnct smwb" "\<not> ci_equal cnct cmwb" "\<not> ci_equal cnct snct"
    by (simp_all add: ci_equal_def)
qed

lemma plain_bits_param: "window_bits n \<or> n = 0 \<or> n = - 1 \<Longrightarrow> is_token name \<Longrightarrow>
    list_all plain_param (bits_param name n)"
  using int_to_string_window(2) [of n] by (auto simp: bits_param_def plain_param_def)

lemma plain_flag_param: "is_token name \<Longrightarrow> list_all plain_param (flag_param name b)"
  by (simp add: flag_param_def plain_param_def)

lemma param_text_append: "param_text (ps @ qs) = param_text ps @ param_text qs"
  by (induction ps rule: param_text.induct) simp_all

lemma param_text_bits:
  assumes "window_bits n \<or> n = 0 \<or> n = - 1"
  shows "param_text (bits_param name n) =
    (if n \<noteq> 0 then if n \<noteq> - 1 then ''; '' @ name @ ''='' @ int_to_string n else ''; '' @ name else '''')"
proof -
  have "int_to_string n \<noteq> []" if "window_bits n"
    using int_to_string_window(2) [OF that] by (simp add: is_token_def)
  with assms show ?thesis by (auto simp: bits_param_def)
qed

lemma param_text_flag: "param_text (flag_param name b) = (if b then ''; '' @ name else '''')"
  by (simp add: flag_param_def)

lemma pmd_params_append:
  "\<not> pd_accept f \<Longrightarrow> pmd_params f (ps @ qs) =
     (let g = pmd_params f ps in if pd_accept g then pmd_params (g\<lparr>pd_accept := False\<rparr>) qs else g)"
proof (induction ps arbitrary: f)
  case (Cons p ps)
  obtain ok g where g: "pmd_param f p = (ok, g)" by (cases "pmd_param f p")
  then have "pd_accept g = pd_accept f"
    by (auto simp: pmd_param_def Let_def split: if_splits)
  with g Cons show ?case by (auto simp: Let_def)
next
  case Nil
  then have "f\<lparr>pd_accept := False\<rparr> = f" by (cases f) simp
  then show ?case by (simp add: Let_def)
qed

lemma pmd_param_smwb:
  "window_bits n \<or> n = 0 \<Longrightarrow> \<not> pd_accept f \<Longrightarrow> pd_server_max_window_bits f = 0 \<Longrightarrow>
     pmd_params f (bits_param smwb n) = f\<lparr>pd_server_max_window_bits := n, pd_accept := True\<rparr>"
  using int_to_string_window [of n]
  by (auto simp: bits_param_def pmd_param_def Let_def window_bits_def is_token_def)

lemma pmd_param_cmwb:
  "window_bits n \<or> n = 0 \<or> n = - 1 \<Longrightarrow> \<not> pd_accept f \<Longrightarrow> pd_client_max_window_bits f = 0 \<Longrightarrow>
     pmd_params f (bits_param cmwb n) = f\<lparr>pd_client_max_window_bits := n, pd_accept := True\<rparr>"
  using int_to_string_window [of n]
  by (auto simp: bits_param_def pmd_param_def Let_def window_bits_def is_token_def name_ci)

lemma pmd_param_snct:
  "\<not> pd_accept f \<Longrightarrow> \<not> pd_server_no_context_takeover f \<Longrightarrow>
     pmd_params f (flag_param snct b) = f\<lparr>pd_server_no_context_takeover := b, pd_accept := True\<rparr>"
  by (auto simp: flag_param_def pmd_param_def name_ci)

lemma pmd_param_cnct:
  "\<not> pd_accept f \<Longrightarrow> \<not> pd_client_no_context_takeover f \<Longrightarrow>
     pmd_params f (flag_param cnct b) = f\<lparr>pd_client_no_context_takeover := b, pd_accept := True\<rparr>"
  by (auto simp: flag_param_def pmd_param_def name_ci)

lemmas pmd_param_simps = pmd_params_append pmd_param_smwb pmd_param_cmwb pmd_param_snct pmd_param_cnct

lemma pmd_read_text:
  assumes "list_all plain_param ps"
  shows "pmd_read (pmd_name @ param_text ps) = pmd_params pmd_none ps"
  using ext_list_text [OF name_tokens(5) assms] param_list_text [OF assms]
  by (simp add: pmd_read_def)

section \<open>Properties\<close>

text \<open>C28: what \<open>pmd_write\<close> writes \<open>pmd_read\<close> reads back: every offer whose window bits are
  absent, given without a value (the client's) or in 8..15 survives the exchange.\<close>

theorem pmd_roundtrip:
  assumes "pd_accept offer"
    and "window_bits (pd_server_max_window_bits offer) \<or> pd_server_max_window_bits offer = 0"
    and "window_bits (pd_client_max_window_bits offer) \<or> pd_client_max_window_bits offer = 0 \<or>
      pd_client_max_window_bits offer = - 1"
  shows "pmd_read (pmd_write offer) = offer"
proof -
  let ?ps = "bits_param smwb (pd_server_max_window_bits offer) @
    bits_param cmwb (pd_client_max_window_bits offer) @
    flag_param snct (pd_server_no_context_takeover offer) @
    flag_param cnct (pd_client_no_context_takeover offer)"
  have s: "window_bits (pd_server_max_window_bits offer) \<or> pd_server_max_window_bits offer = 0 \<or>
      pd_server_max_window_bits offer = - 1" using assms(2) by blast
  have "pmd_write offer = pmd_name @ param_text ?ps"
    by (simp add: pmd_write_def param_text_append param_text_bits [OF s] param_text_bits [OF assms(3)]
        param_text_flag)
  moreover have "list_all plain_param ?ps"
    using assms plain_bits_param plain_flag_param name_tokens by auto
  ultimately have "pmd_read (pmd_write offer) = pmd_params pmd_none ?ps"
    by (simp only: pmd_read_text)
  also have "\<dots> = offer"
    using assms by (cases offer) (simp add: pmd_param_simps pmd_none_def Let_def)
  finally show ?thesis .
qed

theorem pmd_roundtrip_witness:
  "pmd_read (pmd_write (pmd_none\<lparr>pd_accept := True, pd_server_max_window_bits := 10\<rparr>)) =
     pmd_none\<lparr>pd_accept := True, pd_server_max_window_bits := 10\<rparr>"
  by (rule pmd_roundtrip) (simp_all add: pmd_none_def window_bits_def)

text \<open>The response of the server, and the options \<open>set_option\<close> takes.\<close>

definition po_valid :: "permessage_deflate \<Rightarrow> bool" where
  "po_valid po \<longleftrightarrow> 9 \<le> po_server_max_window_bits po \<and> po_server_max_window_bits po \<le> 15 \<and>
     9 \<le> po_client_max_window_bits po \<and> po_client_max_window_bits po \<le> 15 \<and>
     0 \<le> po_compLevel po \<and> po_compLevel po \<le> 9 \<and> 1 \<le> po_memLevel po \<and> po_memLevel po \<le> 9"

lemma set_option_valid: "pmd_set_option opts po = (if po_valid po then Ok po else Err ())"
  by (auto simp: pmd_set_option_def po_valid_def)

definition offer_valid :: "pmd_offer \<Rightarrow> bool" where
  "offer_valid offer \<longleftrightarrow>
     (window_bits (pd_server_max_window_bits offer) \<or> pd_server_max_window_bits offer = 0) \<and>
     (window_bits (pd_client_max_window_bits offer) \<or> pd_client_max_window_bits offer = 0 \<or>
      pd_client_max_window_bits offer = - 1)"

lemma pmd_params_valid:
  "offer_valid f \<Longrightarrow> \<not> pd_accept f \<Longrightarrow> pd_accept (pmd_params f ps) \<Longrightarrow> offer_valid (pmd_params f ps)"
proof (induction ps arbitrary: f)
  case (Cons p ps)
  obtain ok g where g: "pmd_param f p = (ok, g)" by (cases "pmd_param f p")
  have "ok \<Longrightarrow> offer_valid g" "\<not> pd_accept g"
    using g Cons.prems(1,2)
    by (auto simp: pmd_param_def Let_def offer_valid_def window_bits_def split: if_splits)
  with g Cons show ?case by (cases ok) auto
qed (simp add: offer_valid_def)

lemma pmd_exts_valid:
  "offer_valid f \<Longrightarrow> \<not> pd_accept f \<Longrightarrow> pd_accept (pmd_exts f es) \<Longrightarrow> offer_valid (pmd_exts f es)"
  by (induction f es rule: pmd_exts.induct) (auto dest: pmd_params_valid)

lemma pmd_read_valid: "pd_accept (pmd_read s) \<Longrightarrow> offer_valid (pmd_read s)"
  unfolding pmd_read_def
  by (rule pmd_exts_valid) (simp_all add: pmd_none_def offer_valid_def)

text \<open>An offer that \<open>pmd_read\<close> accepts has its window bits absent, without a value or in
  8..15, whatever the field says.\<close>

theorem pmd_read_bounds:
  assumes "pd_accept (pmd_read field)"
  shows "offer_valid (pmd_read field)"
  by (rule pmd_read_valid [OF assms])

theorem pmd_read_bounds_witness: "offer_valid (pmd_read ''permessage-deflate'')"
proof (rule pmd_read_bounds)
  have "pmd_read (pmd_name @ param_text []) = pmd_params pmd_none []"
    by (rule pmd_read_text) simp
  then show "pd_accept (pmd_read ''permessage-deflate'')" by simp
qed

text \<open>The bits the server announces, and the value its configuration has for them.\<close>

definition server_bits :: "pmd_offer \<Rightarrow> permessage_deflate \<Rightarrow> int" where
  "server_bits offer po =
     max 9 (if pd_server_max_window_bits offer \<noteq> 0
            then min (pd_server_max_window_bits offer) (po_server_max_window_bits po)
            else po_server_max_window_bits po)"

definition client_bits :: "pmd_offer \<Rightarrow> permessage_deflate \<Rightarrow> int" where
  "client_bits offer po =
     (if pd_client_max_window_bits offer = - 1 then po_client_max_window_bits po
      else if pd_client_max_window_bits offer = 0 then 15
      else min (po_client_max_window_bits po) (pd_client_max_window_bits offer))"

definition server_param :: "pmd_offer \<Rightarrow> permessage_deflate \<Rightarrow> int" where
  "server_param offer po = (if server_bits offer po < 15 then server_bits offer po else 0)"

definition client_param :: "pmd_offer \<Rightarrow> permessage_deflate \<Rightarrow> int" where
  "client_param offer po =
     (if pd_client_max_window_bits offer = 0 then 0
      else if pd_client_max_window_bits offer = - 1 \<and> \<not> client_bits offer po < 15 then 0
      else client_bits offer po)"

definition response_params :: "pmd_offer \<Rightarrow> permessage_deflate \<Rightarrow> (string \<times> string) list" where
  "response_params offer po =
     flag_param snct (pd_server_no_context_takeover offer \<or> po_server_no_context_takeover po) @
     flag_param cnct (po_client_no_context_takeover po \<or> pd_client_no_context_takeover offer) @
     bits_param smwb (server_param offer po) @ bits_param cmwb (client_param offer po)"

lemma server_bits_window: "po_valid po \<Longrightarrow> window_bits (server_bits offer po)"
  by (auto simp: server_bits_def window_bits_def po_valid_def)

lemma client_bits_window: "po_valid po \<Longrightarrow> offer_valid offer \<Longrightarrow> window_bits (client_bits offer po)"
  by (auto simp: client_bits_def window_bits_def po_valid_def offer_valid_def)

lemma pmd_negotiate_text:
  assumes po: "po_valid po" "po_server_enable po" and offer: "offer_valid offer" "pd_accept offer"
    and client: "pd_client_max_window_bits offer = 0 \<Longrightarrow> po_client_max_window_bits po = 15"
  shows "pmd_negotiate config offer po =
    (Some (pmd_name @ param_text (response_params offer po)),
     \<lparr>pd_accept = True, pd_server_max_window_bits = server_bits offer po,
      pd_client_max_window_bits = client_bits offer po,
      pd_server_no_context_takeover = pd_server_no_context_takeover offer \<or> po_server_no_context_takeover po,
      pd_client_no_context_takeover = po_client_no_context_takeover po \<or> pd_client_no_context_takeover offer\<rparr>)"
proof -
  have w: "window_bits (server_bits offer po)" "window_bits (client_bits offer po)"
    using po offer server_bits_window client_bits_window by auto
  define sb where "sb = (if pd_server_max_window_bits offer \<noteq> 0
      then min (pd_server_max_window_bits offer) (po_server_max_window_bits po)
      else po_server_max_window_bits po)"
  have sb: "server_bits offer po = max 9 sb" "sb \<le> 15"
    using po by (auto simp: server_bits_def sb_def po_valid_def)
  have s: "param_text (bits_param smwb (server_param offer po)) =
      (if sb < 15 then ''; server_max_window_bits='' @ int_to_string (max 9 sb) else [])"
    by (subst param_text_bits) (use w sb in \<open>auto simp: window_bits_def server_param_def\<close>)
  have c: "param_text (bits_param cmwb (client_param offer po)) =
      (if pd_client_max_window_bits offer = 0 then []
       else if pd_client_max_window_bits offer = - 1 \<and> \<not> client_bits offer po < 15 then []
       else ''; client_max_window_bits='' @ int_to_string (client_bits offer po))"
    by (subst param_text_bits) (use w in \<open>auto simp: window_bits_def client_param_def\<close>)
  note r = response_params_def param_text_append s c param_text_flag
  have max9: "max 9 sb = (if sb < 9 then 9 else sb)" by simp
  consider "pd_client_max_window_bits offer = 0" | "pd_client_max_window_bits offer = - 1"
    | "pd_client_max_window_bits offer \<noteq> 0" "pd_client_max_window_bits offer \<noteq> - 1" by blast
  then show ?thesis
    using offer po client sb(2)
    by cases (simp_all add: pmd_negotiate_def r sb(1) max9 client_bits_def Let_def flip: sb_def)
qed


lemma pmd_read_plain: "pmd_read ''permessage-deflate'' = pmd_none\<lparr>pd_accept := True\<rparr>"
proof -
  have "pmd_read (pmd_name @ param_text []) = pmd_params pmd_none []"
    by (rule pmd_read_text) simp
  then show ?thesis by simp
qed


end
