(* ===== verification/Ws_Stream_Base.thy ===== *)
theory Ws_Stream_Base
  imports Ws_Frame Ws_Pmd
begin

text \<open>
  The state every WebSocket stream has and the operations on it that do no I/O of their own,
  \<open>include/beast/websocket/detail/stream_base.hpp\<close>, on a platform with 64-bit pointers
  (\<open>prepared_key\<close> is \<open>std::uint64_t\<close>). The members that only asynchronous operations use
  (\<open>wr_block_\<close>, \<open>ping_data_\<close>, the parked operations) are left out.

  The object reads and writes through its next layer, a SyncStream the program supplies:
  \<open>net\<close> is what that layer does. \<open>nt_in\<close> are the octets it will deliver and \<open>nt_error\<close> the
  error it reports once they are used up; \<open>nt_pieces\<close> are the most that successive calls of
  \<open>read_some\<close> deliver; \<open>nt_out\<close> is what was written, \<open>nt_writes\<close> the errors of successive
  writes (none once the list is used up) and \<open>nt_teardown\<close> the result of the teardown.

  The compression engines are the template parameters \<open>InflateStream\<close> and \<open>DeflateStream\<close> of
  \<open>detail::inflate\<close> and \<open>detail::deflate\<close>: \<open>codec\<close> holds these two functions and the resets.
\<close>

section \<open>The next layer\<close>

datatype error_code = Ec_closed | Ec_failed | Ec_handshake_failed | Ec_eof | Ec_net nat | Ec_zlib nat

record net =
  nt_in :: bytes
  nt_pieces :: "nat list"
  nt_error :: error_code
  nt_out :: bytes
  nt_writes :: "error_code option list"
  nt_teardown :: "error_code option"

section \<open>Compression\<close>

record 'z codec =
  cd_fresh :: 'z
  cd_zi_reset :: "int \<Rightarrow> 'z \<Rightarrow> 'z"
  cd_zo_reset :: "int \<Rightarrow> int \<Rightarrow> int \<Rightarrow> 'z \<Rightarrow> 'z"
  cd_zi_again :: "'z \<Rightarrow> 'z"
  cd_zo_again :: "'z \<Rightarrow> 'z"
  cd_inflate :: "bytes \<Rightarrow> 'z \<Rightarrow> (bytes \<times> error_code option) \<times> 'z"
  cd_deflate :: "nat \<Rightarrow> bytes \<Rightarrow> bool \<Rightarrow> 'z \<Rightarrow> (bytes \<times> nat \<times> bool \<times> error_code option) \<times> 'z"

record 'z pmd =
  pmd_rd_set :: bool
  pmd_zo :: 'z
  pmd_zi :: 'z

section \<open>The object\<close>

datatype role_type = Client | Server

record 'z ws =
  ws_maskgen :: maskgen
  ws_rd_msg_max :: u64
  ws_wr_autofrag_opt :: bool
  ws_wr_buf_size_opt :: nat
  ws_rd_buf_size_opt :: nat
  ws_wr_opcode :: opcode
  ws_ping_cb :: bool
  ws_role :: role_type
  ws_failed :: bool
  ws_wr_close :: bool
  ws_cr :: close_reason
  ws_rd_op :: opcode
  ws_rd_cont :: bool
  ws_rd_utf8 :: utf8_checker
  ws_rd_size :: u64
  ws_rd_buf_size :: nat
  ws_rd_buf :: bool
  ws_wr_cont :: bool
  ws_wr_autofrag :: bool
  ws_wr_compress :: bool
  ws_wr_buf_size :: nat
  ws_wr_buf :: bool
  ws_pmd :: "'z pmd option"
  ws_pmd_opts :: permessage_deflate
  ws_pmd_config :: pmd_offer
  ws_pings :: "(bool \<times> bytes) list"
  ws_net :: net

text \<open>\<open>ws_ping_cb\<close> tells that a ping callback is set; its calls are recorded in \<open>ws_pings\<close>.\<close>

text \<open>
  The object as constructed: the members have their default initializers; those that have none
  (\<open>role_\<close>, \<open>failed_\<close>, \<open>rd_\<close>, \<open>wr_\<close>) get their values from \<open>open\<close> before they are used. \<open>rng\<close> seeds
  the mask keys.
\<close>

definition ws_init :: "u32 \<Rightarrow> net \<Rightarrow> 'z ws" where
  "ws_init rng nt =
     \<lparr>ws_maskgen = rekey rng, ws_rd_msg_max = 16 * 1024 * 1024, ws_wr_autofrag_opt = True,
      ws_wr_buf_size_opt = 4096, ws_rd_buf_size_opt = 4096, ws_wr_opcode = Op_text,
      ws_ping_cb = False, ws_role = Client, ws_failed = False, ws_wr_close = False,
      ws_cr = cr_default, ws_rd_op = Op_cont, ws_rd_cont = False, ws_rd_utf8 = utf8_init,
      ws_rd_size = 0, ws_rd_buf_size = 0, ws_rd_buf = False, ws_wr_cont = False,
      ws_wr_autofrag = False, ws_wr_compress = False, ws_wr_buf_size = 0, ws_wr_buf = False,
      ws_pmd = None, ws_pmd_opts = po_default, ws_pmd_config = pmd_none, ws_pings = [],
      ws_net = nt\<rparr>"

definition pmd_is_set :: "'z ws \<Rightarrow> bool" where
  "pmd_is_set s \<longleftrightarrow> ws_pmd s \<noteq> None"

definition pmd_reading :: "'z ws \<Rightarrow> bool" where
  "pmd_reading s \<longleftrightarrow> (case ws_pmd s of None \<Rightarrow> False | Some p \<Rightarrow> pmd_rd_set p)"

definition ws_open :: "'z codec \<Rightarrow> role_type \<Rightarrow> 'z ws \<Rightarrow> 'z ws" where
  "ws_open cd role s =
     (let s = s\<lparr>ws_role := role, ws_failed := False, ws_rd_cont := False, ws_wr_close := False,
                ws_wr_cont := False, ws_wr_buf_size := 0\<rparr>
      in if (role = Client \<and> po_client_enable (ws_pmd_opts s) \<or>
             role = Server \<and> po_server_enable (ws_pmd_opts s)) \<and> pd_accept (ws_pmd_config s)
         then
           let config = pmd_normalize (ws_pmd_config s); po = ws_pmd_opts s;
               (zi, zo) = (if role = Client
                 then (cd_zi_reset cd (pd_server_max_window_bits config) (cd_fresh cd),
                       cd_zo_reset cd (po_compLevel po) (pd_client_max_window_bits config)
                         (po_memLevel po) (cd_fresh cd))
                 else (cd_zi_reset cd (pd_client_max_window_bits config) (cd_fresh cd),
                       cd_zo_reset cd (po_compLevel po) (pd_server_max_window_bits config)
                         (po_memLevel po) (cd_fresh cd)))
           in s\<lparr>ws_pmd_config := config,
                ws_pmd := Some \<lparr>pmd_rd_set = False, pmd_zo = zo, pmd_zi = zi\<rparr>\<rparr>
         else s)"

definition ws_close :: "'z ws \<Rightarrow> 'z ws" where
  "ws_close s = s\<lparr>ws_rd_buf := False, ws_wr_buf := False, ws_pmd := None\<rparr>"

definition rd_begin :: "'z ws \<Rightarrow> 'z ws" where
  "rd_begin s =
     (if pmd_is_set s then
        if \<not> ws_rd_buf s \<or> ws_rd_buf_size s \<noteq> ws_rd_buf_size_opt s
        then s\<lparr>ws_rd_buf_size := ws_rd_buf_size_opt s, ws_rd_buf := True\<rparr>
        else s
      else s)"

definition wr_begin :: "'z ws \<Rightarrow> 'z ws" where
  "wr_begin s =
     (let s = s\<lparr>ws_wr_autofrag := ws_wr_autofrag_opt s, ws_wr_compress := pmd_is_set s\<rparr> in
      if ws_wr_compress s \<or> ws_role s = Client then
        if \<not> ws_wr_buf s \<or> ws_wr_buf_size s \<noteq> ws_wr_buf_size_opt s
        then s\<lparr>ws_wr_buf_size := ws_wr_buf_size_opt s, ws_wr_buf := True\<rparr>
        else s
      else s\<lparr>ws_wr_buf_size := ws_wr_buf_size_opt s, ws_wr_buf := False\<rparr>)"

section \<open>Reading a frame header\<close>

text \<open>\<open>db.consume(buffer_copy(buffer(b), db.data()))\<close> for an array of \<open>n\<close> octets.\<close>

definition take_octets :: "'b dynbuf \<Rightarrow> nat \<Rightarrow> 'b \<Rightarrow> (unit, bytes \<times> 'b) outcome" where
  "take_octets db n b =
     (if length (db_contents db b) < n then Oob
      else Ok (take n (db_contents db b), db_consume db n b))"

definition fh_need :: "u64 \<Rightarrow> bool \<Rightarrow> nat" where
  "fh_need len msk = (if len = 126 then 2 else if len = 127 then 8 else 0) + (if msk then 4 else 0)"

definition fh_parse :: "u8 \<Rightarrow> u8 \<Rightarrow> frame_header \<Rightarrow> frame_header" where
  "fh_parse b0 b1 fh =
     fh\<lparr>fh_len := ucast (b1 AND 0x7F), fh_mask := b1 AND 0x80 \<noteq> 0, fh_op := op_cast b0,
        fh_fin := b0 AND 0x80 \<noteq> 0, fh_rsv1 := b0 AND 0x40 \<noteq> 0, fh_rsv2 := b0 AND 0x20 \<noteq> 0,
        fh_rsv3 := b0 AND 0x10 \<noteq> 0\<rparr>"

text \<open>The switch over the opcode: \<open>False\<close> is \<open>return err(close_code::protocol_error)\<close>.\<close>

definition fh_check :: "frame_header \<Rightarrow> 'z ws \<Rightarrow> bool \<times> 'z ws" where
  "fh_check fh s =
     (if fh_op fh = Op_binary \<or> fh_op fh = Op_text then
        if ws_rd_cont s then (False, s)
        else if (fh_rsv1 fh \<and> \<not> pmd_is_set s) \<or> fh_rsv2 fh \<or> fh_rsv3 fh then (False, s)
        else (True, s\<lparr>ws_pmd := map_option (\<lambda>p. p\<lparr>pmd_rd_set := fh_rsv1 fh\<rparr>) (ws_pmd s)\<rparr>)
      else if fh_op fh = Op_cont then
        if \<not> ws_rd_cont s then (False, s)
        else if fh_rsv1 fh \<or> fh_rsv2 fh \<or> fh_rsv3 fh then (False, s)
        else (True, s)
      else
        if is_reserved (fh_op fh) then (False, s)
        else if \<not> fh_fin fh then (False, s)
        else if fh_len fh > 125 then (False, s)
        else if fh_rsv1 fh \<or> fh_rsv2 fh \<or> fh_rsv3 fh then (False, s)
        else (True, s))"

text \<open>
  The result is \<open>code\<close>, the number of further octets needed, the header, the buffer and the
  object.
\<close>

definition read_fh1 :: "'b dynbuf \<Rightarrow> frame_header \<Rightarrow> 'b \<Rightarrow> 'z ws \<Rightarrow>
    (unit, (close_code \<times> nat) \<times> frame_header \<times> 'b \<times> 'z ws) outcome" where
  "read_fh1 db fh b s =
     ob (take_octets db 2 b) (\<lambda>(bs, b).
     let fh = fh_parse (bs ! 0) (bs ! 1) fh;
         need = fh_need (fh_len fh) (fh_mask fh);
         (ok, s) = fh_check fh s
     in if \<not> ok then Ok ((cc_protocol_error, 0), fh, b, s)
        else if ws_role s = Server \<and> \<not> fh_mask fh then Ok ((cc_protocol_error, 0), fh, b, s)
        else if ws_role s = Client \<and> fh_mask fh then Ok ((cc_protocol_error, 0), fh, b, s)
        else Ok ((cc_none, need), fh, b, s))"

text \<open>The extended length; \<open>None\<close> is one that is not canonical.\<close>

definition read_len :: "'b dynbuf \<Rightarrow> u64 \<Rightarrow> 'b \<Rightarrow> (unit, u64 option \<times> 'b) outcome" where
  "read_len db len b =
     (if len = 126 then
        ob (take_octets db 2 b) (\<lambda>(bs, b).
        ob (big_uint16_to_native bs) (\<lambda>v. Ok (if ucast v < (126 :: u64) then None else Some (ucast v), b)))
      else if len = 127 then
        ob (take_octets db 8 b) (\<lambda>(bs, b).
        ob (big_uint64_to_native bs) (\<lambda>v. Ok (if v < 65536 then None else Some v, b)))
      else Ok (Some len, b))"

definition read_key :: "'b dynbuf \<Rightarrow> bool \<Rightarrow> 'b \<Rightarrow> (unit, u32 \<times> 'b) outcome" where
  "read_key db msk b =
     (if msk then
        ob (take_octets db 4 b) (\<lambda>(bs, b). ob (little_uint32_to_native bs) (\<lambda>v. Ok (v, b)))
      else Ok (0, b))"

definition read_fh2 :: "'b dynbuf \<Rightarrow> frame_header \<Rightarrow> 'b \<Rightarrow> 'z ws \<Rightarrow>
    (unit, close_code \<times> frame_header \<times> 'b \<times> 'z ws) outcome" where
  "read_fh2 db fh b s =
     ob (read_len db (fh_len fh) b) (\<lambda>(len, b).
     case len of
       None \<Rightarrow> Ok (cc_protocol_error, fh, b, s)
     | Some len \<Rightarrow>
       ob (read_key db (fh_mask fh) b) (\<lambda>(key, b).
       let fh = fh\<lparr>fh_len := len, fh_key := key\<rparr> in
       if \<not> is_control (fh_op fh) then
         if fh_op fh \<noteq> Op_cont then
           Ok (cc_none, fh, b, s\<lparr>ws_rd_size := 0, ws_rd_op := fh_op fh, ws_rd_cont := \<not> fh_fin fh\<rparr>)
         else if ws_rd_size s > - 1 - fh_len fh then Ok (cc_too_big, fh, b, s)
         else Ok (cc_none, fh, b, s\<lparr>ws_rd_cont := \<not> fh_fin fh\<rparr>)
       else Ok (cc_none, fh, b, s)))"

section \<open>Writing control frames\<close>

text \<open>
  An error of these operations is an exception of \<open>prepare\<close>. A mask-key generator that never
  delivers a key is an endless loop without side effects, undefined behaviour in C++.
\<close>

definition next_key :: "'z ws \<Rightarrow> ('e, u32 \<times> 'z ws) outcome" where
  "next_key s =
     (case maskgen_call (ws_maskgen s) of
        None \<Rightarrow> Oob
      | Some (key, g) \<Rightarrow> Ok (key, s\<lparr>ws_maskgen := g\<rparr>))"

definition mask_octets :: "nat \<Rightarrow> u64 \<Rightarrow> bytes \<Rightarrow> ('e, bytes \<times> u64) outcome" where
  "mask_octets addr key p =
     (case mask_inplace_fast64 addr key p of Ok r \<Rightarrow> Ok r | Err _ \<Rightarrow> Oob | Oob \<Rightarrow> Oob)"

definition control_header :: "opcode \<Rightarrow> nat \<Rightarrow> 'z ws \<Rightarrow> ('e, frame_header \<times> 'z ws) outcome" where
  "control_header op len s =
     (let fh = \<lparr>fh_op = op, fh_fin = True, fh_mask = (ws_role s = Client), fh_rsv1 = False,
                fh_rsv2 = False, fh_rsv3 = False, fh_len = of_nat len, fh_key = 0\<rparr>
      in if fh_mask fh then ob (next_key s) (\<lambda>(key, s). Ok (fh\<lparr>fh_key := key\<rparr>, s))
         else Ok (fh, s))"

text \<open>\<open>addr\<close> is the address of the buffers \<open>prepare\<close> returns.\<close>

definition write_masked :: "'b dynbuf \<Rightarrow> nat \<Rightarrow> bool \<Rightarrow> u64 \<Rightarrow> bytes \<Rightarrow> 'b \<Rightarrow> (length_error, 'b \<times> u64) outcome" where
  "write_masked db addr msk key xs b =
     ob (db_prepare db (length xs) b) (\<lambda>b.
     ob (if msk then mask_octets addr key xs else Ok (xs, key)) (\<lambda>(xs, key).
     Ok (db_commit db (length xs) (db_store db xs b), key)))"

definition write_close :: "'b dynbuf \<Rightarrow> nat \<Rightarrow> 'b \<Rightarrow> close_reason \<Rightarrow> 'z ws \<Rightarrow> (length_error, 'b \<times> 'z ws) outcome" where
  "write_close db addr b cr s =
     (let len = (if cr_code cr = cc_none then 0 else 2 + length (cr_reason cr)) in
      ob (control_header Op_close len s) (\<lambda>(fh, s).
      ob (write_fh db fh b) (\<lambda>b.
      if cr_code cr \<noteq> cc_none then
        let key = prepare_key64 (fh_key fh) in
        ob (write_masked db addr (fh_mask fh) key (big_uint16_buf (cr_code cr)) b) (\<lambda>(b, key).
        if cr_reason cr \<noteq> [] then
          ob (write_masked db addr (fh_mask fh) key (cr_reason cr) b) (\<lambda>(b, key). Ok (b, s))
        else Ok (b, s))
      else Ok (b, s))))"

definition write_ping :: "'b dynbuf \<Rightarrow> nat \<Rightarrow> 'b \<Rightarrow> opcode \<Rightarrow> bytes \<Rightarrow> 'z ws \<Rightarrow> (length_error, 'b \<times> 'z ws) outcome" where
  "write_ping db addr b op data s =
     ob (control_header op (length data) s) (\<lambda>(fh, s).
     ob (write_fh db fh b) (\<lambda>b.
     if data = [] then Ok (b, s)
     else
       ob (write_masked db addr (fh_mask fh) (prepare_key64 (fh_key fh)) data b) (\<lambda>(b, key). Ok (b, s))))"

end
