(* ===== verification/Ws_Header.thy ===== *)
theory Ws_Header
  imports Ws_Stream_Base
begin

text \<open>
  Frame headers written by \<open>detail::write\<close> and read by \<open>read_fh1\<close> and \<open>read_fh2\<close>: round trip
  over any DynamicBuffer, which headers are refused, and the payload of close frames.
\<close>

section \<open>The two first octets\<close>

lemma op_octet_and:
  "op_octet op AND 0x0F = op_octet op" "op_octet op AND 0x80 = 0" "op_octet op AND 0x40 = 0"
  "op_octet op AND 0x20 = 0" "op_octet op AND 0x10 = 0" "opcodes ! unat (op_octet op) = op"
  by (cases op; simp add: op_octet_def opcodes_def)+

definition octet0 :: "bool \<Rightarrow> bool \<Rightarrow> bool \<Rightarrow> bool \<Rightarrow> opcode \<Rightarrow> u8" where
  "octet0 f r1 r2 r3 op = fh_octet0 \<lparr>fh_op = op, fh_fin = f, fh_mask = False, fh_rsv1 = r1, fh_rsv2 = r2,
     fh_rsv3 = r3, fh_len = 0, fh_key = 0\<rparr>"

lemma fh_octet0_eq: "fh_octet0 fh = octet0 (fh_fin fh) (fh_rsv1 fh) (fh_rsv2 fh) (fh_rsv3 fh) (fh_op fh)"
  by (simp add: octet0_def fh_octet0_def)

lemma octet0_fields:
  "op_cast (octet0 f r1 r2 r3 op) = op" "octet0 f r1 r2 r3 op AND 0x80 \<noteq> 0 \<longleftrightarrow> f"
  "octet0 f r1 r2 r3 op AND 0x40 \<noteq> 0 \<longleftrightarrow> r1" "octet0 f r1 r2 r3 op AND 0x20 \<noteq> 0 \<longleftrightarrow> r2"
  "octet0 f r1 r2 r3 op AND 0x10 \<noteq> 0 \<longleftrightarrow> r3"
  by (cases f; cases r1; cases r2; cases r3;
      simp add: octet0_def fh_octet0_def Let_def bit.conj_disj_distrib2 op_octet_and op_cast_def)+

lemma octet1_fields:
  fixes x :: u8
  assumes "x \<le> 127"
  shows "((if m then 0x80 else 0x00) OR x) AND 0x7F = x" "((if m then 0x80 else 0x00) OR x) AND 0x80 \<noteq> 0 \<longleftrightarrow> m"
proof -
  have "\<forall>x :: u8. x \<le> 127 \<longrightarrow> (0x80 OR x) AND 0x7F = x \<and> (0x80 OR x) AND 0x80 \<noteq> 0 \<and> x AND 0x7F = x \<and> x AND 0x80 = 0"
    unfolding all_u8 by code_simp
  with assms show "((if m then 0x80 else 0x00) OR x) AND 0x7F = x"
    "((if m then 0x80 else 0x00) OR x) AND 0x80 \<noteq> 0 \<longleftrightarrow> m" by auto
qed

section \<open>The encoding in parts\<close>

definition short_len :: "u64 \<Rightarrow> u64" where
  "short_len len = (if len \<le> 125 then len else if len \<le> 65535 then 126 else 127)"

definition long_len :: "u64 \<Rightarrow> bytes" where
  "long_len len = (if len \<le> 125 then [] else if len \<le> 65535 then big_uint16_buf (ucast len) else big_uint64_buf len)"

definition key_octets :: "frame_header \<Rightarrow> bytes" where
  "key_octets fh = (if fh_mask fh then native_to_little_uint32 (fh_key fh) else [])"

lemma fh_encode_parts:
  "fh_encode fh = [fh_octet0 fh, (if fh_mask fh then 0x80 else 0x00) OR ucast (short_len (fh_len fh))] @
     long_len (fh_len fh) @ key_octets fh"
  by (simp add: fh_encode_def short_len_def long_len_def key_octets_def Let_def)

lemma length_long_len: "length (long_len len) = (if short_len len = 126 then 2 else if short_len len = 127 then 8 else 0)"
  by (auto simp: long_len_def short_len_def big_uint16_buf_def big_uint64_buf_def)

lemma length_key_octets: "length (key_octets fh) = (if fh_mask fh then 4 else 0)"
  by (simp add: key_octets_def native_to_little_uint32_def)

lemma length_fh_encode: "length (fh_encode fh) = 2 + fh_need (short_len (fh_len fh)) (fh_mask fh)"
  by (simp add: fh_encode_parts length_long_len length_key_octets fh_need_def)

lemma fh_encode_bound: "length (fh_encode fh) \<le> 14"
  by (simp add: length_fh_encode fh_need_def)

lemma u64_small: "x \<le> n \<Longrightarrow> unat n < 2 ^ LENGTH('a) \<Longrightarrow> ucast (ucast x :: 'a::len word) = (x :: u64)"
  by (rule word_unat_eq_iff [THEN iffD2])
    (simp add: unsigned_ucast_eq unsigned_take_bit_eq word_le_nat_alt take_bit_nat_eq_self order.strict_trans1)

lemma short_len_octet: "ucast (ucast (short_len len) :: u8) = short_len len" "(ucast (short_len len) :: u8) \<le> 127"
proof -
  have le: "short_len len \<le> 127" by (auto simp: short_len_def word_le_nat_alt)
  then show e: "ucast (ucast (short_len len) :: u8) = short_len len"
    by (rule u64_small) simp
  have "unat (ucast (ucast (short_len len) :: u8) :: u64) \<le> 127"
    using le by (simp only: e) (simp add: word_le_nat_alt)
  then show "(ucast (short_len len) :: u8) \<le> 127"
    by (simp add: word_le_nat_alt unsigned_ucast_eq unsigned_take_bit_eq)
qed

lemma fh_parse_encode:
  "fh_parse (fh_octet0 fh) ((if fh_mask fh then 0x80 else 0x00) OR ucast (short_len (fh_len fh))) fh0 =
     fh\<lparr>fh_len := short_len (fh_len fh), fh_key := fh_key fh0\<rparr>"
  using octet1_fields [OF short_len_octet(2) [of "fh_len fh"], of "fh_mask fh"] short_len_octet(1) [of "fh_len fh"]
  by (cases fh; cases fh0) (simp add: fh_parse_def fh_octet0_eq octet0_fields)

lemma fh_check_len: "(len > 125 \<longleftrightarrow> fh_len fh > 125) \<Longrightarrow> fh_check (fh\<lparr>fh_len := len, fh_key := k\<rparr>) s = fh_check fh s"
  by (simp add: fh_check_def)

lemma short_len_control: "short_len len > 125 \<longleftrightarrow> len > 125"
  by (auto simp: short_len_def)

section \<open>Reading what was written\<close>

definition fh_first :: "frame_header \<Rightarrow> bytes" where
  "fh_first fh = [fh_octet0 fh, (if fh_mask fh then 0x80 else 0x00) OR ucast (short_len (fh_len fh))]"

definition fh_rest :: "frame_header \<Rightarrow> bytes" where
  "fh_rest fh = long_len (fh_len fh) @ key_octets fh"

lemma fh_encode_split: "fh_encode fh = fh_first fh @ fh_rest fh"
  by (simp add: fh_encode_parts fh_first_def fh_rest_def)

lemma length_fh_first [simp]: "length (fh_first fh) = 2"
  by (simp add: fh_first_def)

text \<open>What \<open>read_fh2\<close> leaves in the object.\<close>

definition fh_accept :: "frame_header \<Rightarrow> 'z ws \<Rightarrow> 'z ws" where
  "fh_accept fh s =
     (if is_control (fh_op fh) then s
      else if fh_op fh = Op_cont then s\<lparr>ws_rd_cont := \<not> fh_fin fh\<rparr>
      else s\<lparr>ws_rd_size := 0, ws_rd_op := fh_op fh, ws_rd_cont := \<not> fh_fin fh\<rparr>)"

lemma big_uint16_roundtrip: "big_uint16_to_native (big_uint16_buf v) = Ok v"
proof -
  have "rev (big_uint16_buf v) = store_le 2 v"
    by (simp add: big_uint16_buf_def store_le_def key_octet_def numeral_2_eq_2)
  moreover have "length (big_uint16_buf v) = 2" by (simp add: big_uint16_buf_def)
  ultimately show ?thesis using load_le_store_le [of 2 v] by (simp add: big_uint16_load)
qed

lemma big_uint64_roundtrip: "big_uint64_to_native (big_uint64_buf v) = Ok v"
proof -
  have "rev (big_uint64_buf v) = store_le 8 v"
    by (simp add: big_uint64_buf_def store_le_def key_octet_def upt_conv_Cons)
  moreover have "length (big_uint64_buf v) = 8" by (simp add: big_uint64_buf_def)
  ultimately show ?thesis using load_le_store_le [of 8 v] by (simp add: big_uint64_load)
qed

lemma little_uint32_roundtrip: "little_uint32_to_native (native_to_little_uint32 v) = Ok v"
  using load_le_store_le [of 4 v]
  by (simp add: little_uint32_load native_to_little_store store_le_def)

lemma length_be [simp]: "length (big_uint16_buf v) = 2" "length (big_uint64_buf w) = 8"
    "length (native_to_little_uint32 k) = 4"
  by (simp_all add: big_uint16_buf_def big_uint64_buf_def native_to_little_uint32_def)

context dynamic_buffer
begin

lemma take_octets_ok:
  assumes "inv b" "db_contents db b = xs @ ys" "length xs = n"
  shows "take_octets db n b = Ok (xs, db_consume db n b)" "inv (db_consume db n b)"
    "db_contents db (db_consume db n b) = ys" "room b \<le> room (db_consume db n b)"
  using assms consume [OF assms(1), of n] by (simp_all add: take_octets_def)

lemma read_fh1_first:
  assumes b: "inv b" "db_contents db b = fh_first fh @ r"
    and check: "fh_check fh s = (True, s')"
    and role: "fh_mask fh \<longleftrightarrow> ws_role s = Server"
  shows "\<exists>b'. read_fh1 db fh0 b s =
      Ok ((cc_none, length (fh_rest fh)), fh\<lparr>fh_len := short_len (fh_len fh), fh_key := fh_key fh0\<rparr>, b', s') \<and>
    inv b' \<and> db_contents db b' = r \<and> room b \<le> room b'"
proof -
  note t = take_octets_ok [OF b length_fh_first]
  have role': "ws_role s' = ws_role s"
    using check by (auto simp: fh_check_def split: if_splits)
  have need: "fh_need (short_len (fh_len fh)) (fh_mask fh) = length (fh_rest fh)"
    using length_fh_encode [of fh] by (simp add: fh_encode_split)
  have parse: "fh_parse (fh_first fh ! 0) (fh_first fh ! 1) fh0 =
      fh\<lparr>fh_len := short_len (fh_len fh), fh_key := fh_key fh0\<rparr>"
    by (simp add: fh_first_def fh_parse_encode)
  have "read_fh1 db fh0 b s = Ok ((cc_none, length (fh_rest fh)),
      fh\<lparr>fh_len := short_len (fh_len fh), fh_key := fh_key fh0\<rparr>, db_consume db 2 b, s')"
    using t(1) role check need parse
    by (cases "ws_role s")
      (simp_all add: read_fh1_def fh_check_len [OF short_len_control] role' Let_def)
  with t show ?thesis by auto
qed

lemma read_len_long:
  assumes "inv b" "db_contents db b = long_len len @ r"
  shows "\<exists>b'. read_len db (short_len len) b = Ok (Some len, b') \<and> inv b' \<and> db_contents db b' = r \<and> room b \<le> room b'"
proof -
  consider "len \<le> 125" | "\<not> len \<le> 125" "len \<le> 65535" | "\<not> len \<le> 65535" by blast
  then show ?thesis
  proof cases
    case 1
    then have "short_len len = len" "len \<noteq> 126" "len \<noteq> 127"
      by (auto simp: short_len_def word_le_nat_alt)
    with assms 1 show ?thesis by (simp add: read_len_def long_len_def)
  next
    case 2
    have "ucast (ucast len :: u16) = len" by (rule u64_small [OF 2(2)]) simp
    moreover have "\<not> len < 126" using 2(1) by (simp add: word_le_nat_alt word_less_nat_alt)
    moreover have "short_len len = 126" using 2 by (simp add: short_len_def)
    ultimately show ?thesis
      using assms 2 take_octets_ok [of b "big_uint16_buf (ucast len)" r 2]
      by (simp add: read_len_def long_len_def big_uint16_roundtrip)
  next
    case 3
    then have "\<not> len \<le> 125" "\<not> len < 65536" by (auto simp: word_le_nat_alt word_less_nat_alt)
    moreover from this 3 have "short_len len = 127" by (simp add: short_len_def)
    ultimately show ?thesis
      using assms 3 take_octets_ok [of b "big_uint64_buf len" r 8]
      by (simp add: read_len_def long_len_def big_uint64_roundtrip)
  qed
qed

lemma read_key_octets:
  assumes "inv b" "db_contents db b = key_octets fh @ r" "\<not> fh_mask fh \<longrightarrow> fh_key fh = 0"
  shows "\<exists>b'. read_key db (fh_mask fh) b = Ok (fh_key fh, b') \<and> inv b' \<and> db_contents db b' = r \<and> room b \<le> room b'"
  using assms take_octets_ok [of b "native_to_little_uint32 (fh_key fh)" r 4]
  by (cases "fh_mask fh") (simp_all add: read_key_def key_octets_def little_uint32_roundtrip)

lemma read_fh2_rest:
  assumes b: "inv b" "db_contents db b = fh_rest fh @ r"
    and key: "\<not> fh_mask fh \<longrightarrow> fh_key fh = 0"
    and size: "fh_op fh = Op_cont \<longrightarrow> ws_rd_size s \<le> - 1 - fh_len fh"
  shows "\<exists>b'. read_fh2 db (fh\<lparr>fh_len := short_len (fh_len fh), fh_key := k\<rparr>) b s =
      Ok (cc_none, fh, b', fh_accept fh s) \<and> inv b' \<and> db_contents db b' = r \<and> room b \<le> room b'"
proof -
  from b have "db_contents db b = long_len (fh_len fh) @ (key_octets fh @ r)" by (simp add: fh_rest_def)
  with b(1) obtain b1 where b1: "read_len db (short_len (fh_len fh)) b = Ok (Some (fh_len fh), b1)" "inv b1"
    "db_contents db b1 = key_octets fh @ r" "room b \<le> room b1" using read_len_long by blast
  from read_key_octets [OF b1(2,3) key] obtain b2 where
    b2: "read_key db (fh_mask fh) b1 = Ok (fh_key fh, b2)" "inv b2" "db_contents db b2 = r" "room b1 \<le> room b2" by blast
  have fh: "fh\<lparr>fh_len := fh_len fh, fh_key := fh_key fh\<rparr> = fh" by (cases fh) simp
  have "\<not> ws_rd_size s > - 1 - fh_len fh" if "fh_op fh = Op_cont" using size that by simp
  then have "read_fh2 db (fh\<lparr>fh_len := short_len (fh_len fh), fh_key := k\<rparr>) b s =
      Ok (cc_none, fh, b2, fh_accept fh s)"
    using b1(1) b2(1) fh by (auto simp: read_fh2_def fh_accept_def Let_def)
  with b1 b2 show ?thesis by auto
qed

end

text \<open>C32: a frame header written to a buffer is read back: \<open>read_fh1\<close> accepts the first two
  octets and asks for exactly the rest, \<open>read_fh2\<close> gives the header back, and the octets after
  it stay in the buffer. This holds for every header the receiver's state admits.\<close>

theorem header_roundtrip:
  assumes "static_inv b" "length (fh_encode fh) + length r \<le> static_room b"
    and "static_data b = [[]]"
    and "fh_check fh s = (True, s')" "fh_mask fh \<longleftrightarrow> ws_role s = Server"
    and "\<not> fh_mask fh \<longrightarrow> fh_key fh = 0"
    and "fh_op fh = Op_cont \<longrightarrow> ws_rd_size s' \<le> - 1 - fh_len fh"
  shows "\<exists>b1 b2 b3 b4 h. write_fh static_db fh b = Ok b1 \<and> db_append static_db r b1 = Ok b2 \<and>
    read_fh1 static_db fh0 b2 s = Ok ((cc_none, length (fh_encode fh) - 2), h, b3, s') \<and>
    read_fh2 static_db h b3 s' = Ok (cc_none, fh, b4, fh_accept fh s') \<and>
    static_data b4 = [r]"
proof -
  have e: "db_contents static_db b = []" using assms(3) by (simp add: static_data_def)
  obtain b1 where b1: "write_fh static_db fh b = Ok b1" "static_inv b1"
    "db_contents static_db b1 = fh_encode fh" "static_room b1 = static_room b - length (fh_encode fh)"
    unfolding write_fh_def
    by (rule static.append_ok [OF assms(1), of "fh_encode fh"]) (use assms(2) e in \<open>auto simp del: static_contents\<close>)
  obtain b2 where b2: "db_append static_db r b1 = Ok b2" "static_inv b2"
    "db_contents static_db b2 = fh_first fh @ (fh_rest fh @ r)"
    by (rule static.append_ok [OF b1(2), of r])
      (use assms(2) b1 in \<open>auto simp: fh_encode_split simp del: static_contents\<close>)
  from static.read_fh1_first [OF b2(2,3) assms(4,5), of fh0] obtain b3 where
    b3: "read_fh1 static_db fh0 b2 s = Ok ((cc_none, length (fh_rest fh)),
        fh\<lparr>fh_len := short_len (fh_len fh), fh_key := fh_key fh0\<rparr>, b3, s')" "static_inv b3"
    "db_contents static_db b3 = fh_rest fh @ r" by blast
  from static.read_fh2_rest [OF b3(2,3) assms(6,7), of "fh_key fh0"] obtain b4 where
    "read_fh2 static_db (fh\<lparr>fh_len := short_len (fh_len fh), fh_key := fh_key fh0\<rparr>) b3 s' =
      Ok (cc_none, fh, b4, fh_accept fh s')" "db_contents static_db b4 = r" by blast
  with b1(1) b2(1) b3(1) show ?thesis
    by (intro exI conjI) (assumption | simp add: fh_encode_split static_data_def)+
qed

definition ws_example :: "unit ws" where
  "ws_example = ws_init 1 \<lparr>nt_in = [], nt_pieces = [], nt_error = Ec_eof, nt_out = [], nt_writes = [],
     nt_teardown = None\<rparr>"

theorem header_roundtrip_witness:
  "\<exists>b1 b2 b3 b4 h.
    write_fh static_db \<lparr>fh_op = Op_text, fh_fin = True, fh_mask = False, fh_rsv1 = False, fh_rsv2 = False,
      fh_rsv3 = False, fh_len = 3, fh_key = 0\<rparr> (static_reset (replicate 14 0)) = Ok b1 \<and>
    db_append static_db [1, 2, 3] b1 = Ok b2 \<and>
    read_fh1 static_db \<lparr>fh_op = Op_cont, fh_fin = False, fh_mask = False, fh_rsv1 = False, fh_rsv2 = False,
      fh_rsv3 = False, fh_len = 0, fh_key = 0\<rparr> b2 ws_example = Ok ((cc_none, 0), h, b3, ws_example) \<and>
    static_data b4 = [[1, 2, 3]]"
proof -
  let ?fh = "\<lparr>fh_op = Op_text, fh_fin = True, fh_mask = False, fh_rsv1 = False, fh_rsv2 = False,
      fh_rsv3 = False, fh_len = 3, fh_key = 0\<rparr>"
  have len: "length (fh_encode ?fh) = 2" by (simp add: fh_encode_def)
  have 1: "static_inv (static_reset (replicate 14 0))" by simp
  have 2: "length (fh_encode ?fh) + length [1, 2, 3 :: u8] \<le> static_room (static_reset (replicate 14 0))"
    using len by simp
  have 3: "static_data (static_reset (replicate 14 0)) = [[]]" by (simp add: static_data_def static_reset_def)
  have 4: "fh_check ?fh ws_example = (True, ws_example)"
    by (simp add: fh_check_def ws_example_def ws_init_def pmd_is_set_def)
  have 5: "fh_mask ?fh \<longleftrightarrow> ws_role ws_example = Server" by (simp add: ws_example_def ws_init_def)
  show ?thesis
    using header_roundtrip [OF 1 2 3 4 5, of "\<lparr>fh_op = Op_cont, fh_fin = False, fh_mask = False, fh_rsv1 = False,
      fh_rsv2 = False, fh_rsv3 = False, fh_len = 0, fh_key = 0\<rparr>"] len by fastforce
qed

section \<open>Which headers are taken\<close>

lemma op_val_cast: "op_val (op_cast b) = unat b mod 16"
proof -
  have "\<forall>b :: u8. op_val (op_cast b) = unat b mod 16" unfolding all_u8 by code_simp
  then show ?thesis by blast
qed

lemma octet_bits:
  fixes b :: u8
  shows "b AND 0x80 \<noteq> 0 \<longleftrightarrow> bit b 7" "b AND 0x40 \<noteq> 0 \<longleftrightarrow> bit b 6" "b AND 0x20 \<noteq> 0 \<longleftrightarrow> bit b 5"
    "b AND 0x10 \<noteq> 0 \<longleftrightarrow> bit b 4" "unat (b AND 0x7F) = unat b mod 128"
proof -
  have "\<forall>b :: u8. (b AND 0x80 \<noteq> 0 \<longleftrightarrow> bit b 7) \<and> (b AND 0x40 \<noteq> 0 \<longleftrightarrow> bit b 6) \<and>
      (b AND 0x20 \<noteq> 0 \<longleftrightarrow> bit b 5) \<and> (b AND 0x10 \<noteq> 0 \<longleftrightarrow> bit b 4) \<and> unat (b AND 0x7F) = unat b mod 128"
    unfolding all_u8 by code_simp
  then show "b AND 0x80 \<noteq> 0 \<longleftrightarrow> bit b 7" "b AND 0x40 \<noteq> 0 \<longleftrightarrow> bit b 6" "b AND 0x20 \<noteq> 0 \<longleftrightarrow> bit b 5"
    "b AND 0x10 \<noteq> 0 \<longleftrightarrow> bit b 4" "unat (b AND 0x7F) = unat b mod 128" by blast+
qed

text \<open>The rules of RFC 6455, sections 5.1 to 5.5, for the first two octets, as arithmetic.\<close>

definition rfc_header_ok :: "role_type \<Rightarrow> bool \<Rightarrow> bool \<Rightarrow> u8 \<Rightarrow> u8 \<Rightarrow> bool" where
  "rfc_header_ok role fragmented deflate b0 b1 \<longleftrightarrow>
     (let op = unat b0 mod 16; len = unat b1 mod 128 in
      (op = 0 \<and> fragmented \<or> (op = 1 \<or> op = 2) \<and> \<not> fragmented \<or>
       (op = 8 \<or> op = 9 \<or> op = 10) \<and> bit b0 7 \<and> len \<le> 125) \<and>
      (bit b0 6 \<longrightarrow> deflate \<and> (op = 1 \<or> op = 2)) \<and> \<not> bit b0 5 \<and> \<not> bit b0 4 \<and>
      (bit b1 7 \<longleftrightarrow> role = Server))"

lemma len7_le: "(ucast (b AND 0x7F :: u8) :: u64) > 125 \<longleftrightarrow> \<not> unat b mod 128 \<le> 125"
  by (simp add: word_less_nat_alt unsigned_ucast_eq take_bit_nat_eq_self octet_bits(5) not_le)

lemma fh_check_rfc:
  "fst (fh_check (fh_parse b0 b1 fh) s) \<and> (bit b1 7 \<longleftrightarrow> ws_role s = Server) \<longleftrightarrow>
     rfc_header_ok (ws_role s) (ws_rd_cont s) (pmd_is_set s) b0 b1"
proof -
  define op where "op = op_cast b0"
  have op: "unat b0 mod 16 = op_val op" by (simp add: op_def op_val_cast)
  show ?thesis
    unfolding rfc_header_ok_def fh_check_def fh_parse_def op Let_def
    by (cases op) (auto simp: octet_bits len7_le is_reserved_def less_eq_opcode_def less_opcode_def simp flip: op_def)
qed

text \<open>C31: \<open>read_fh1\<close> takes exactly the headers RFC 6455 allows in the state the stream is in:
  everything else is a protocol error, before anything of the message is read.\<close>

theorem read_fh1_rfc:
  assumes "static_inv b" "static_data b = [b0 # b1 # r]"
  shows "\<exists>code n h b' s'. read_fh1 static_db fh0 b s = Ok ((code, n), h, b', s') \<and>
    (code = cc_none \<longleftrightarrow> rfc_header_ok (ws_role s) (ws_rd_cont s) (pmd_is_set s) b0 b1) \<and>
    (code \<noteq> cc_none \<longrightarrow> code = cc_protocol_error)"
proof -
  have c: "db_contents static_db b = [b0, b1] @ r" using assms(2) by (simp add: static_data_def)
  note t = static.take_octets_ok [OF assms(1) c]
  have role: "ws_role (snd (fh_check h s)) = ws_role s" for h
    by (auto simp: fh_check_def)
  have mask: "fh_mask (fh_parse b0 b1 fh0) = bit b1 7" by (simp add: fh_parse_def octet_bits)
  show ?thesis
    using t(1) [of 2] fh_check_rfc [of b0 b1 fh0 s] role [of "fh_parse b0 b1 fh0"] mask
    by (cases "ws_role s"; cases "fh_check (fh_parse b0 b1 fh0) s")
      (auto simp: read_fh1_def Let_def cc_none_def cc_protocol_error_def)
qed

theorem read_fh1_rfc_witness:
  "\<forall>fh0. \<exists>code n h b' s'. read_fh1 static_db fh0 \<lparr>sb_mem = [0x83, 0x05], sb_in = 0, sb_out = 2, sb_last = 2\<rparr> ws_example =
      Ok ((code, n), h, b', s') \<and> code = cc_protocol_error"
proof -
  have 1: "static_inv \<lparr>sb_mem = [0x83, 0x05], sb_in = 0, sb_out = 2, sb_last = 2\<rparr>" by (simp add: static_inv_def)
  have 2: "static_data \<lparr>sb_mem = [0x83, 0x05], sb_in = 0, sb_out = 2, sb_last = 2\<rparr> = [0x83 # 0x05 # []]"
    by (simp add: static_data_def slice_def)
  have "\<not> rfc_header_ok (ws_role ws_example) (ws_rd_cont ws_example) (pmd_is_set ws_example) 0x83 0x05"
    by (simp add: rfc_header_ok_def)
  with read_fh1_rfc [OF 1 2, of _ ws_example] show ?thesis by blast
qed

section \<open>Headers have one encoding\<close>

lemma octet0_rebuild:
  "octet0 (b AND 0x80 \<noteq> 0) (b AND 0x40 \<noteq> 0) (b AND 0x20 \<noteq> 0) (b AND 0x10 \<noteq> 0) (op_cast b) = b"
proof -
  have "\<forall>b. octet0 (b AND 0x80 \<noteq> 0) (b AND 0x40 \<noteq> 0) (b AND 0x20 \<noteq> 0) (b AND 0x10 \<noteq> 0) (op_cast b) = b"
    unfolding all_u8 by code_simp
  then show ?thesis by blast
qed

lemma octet1_rebuild: "(if b AND 0x80 \<noteq> 0 then 0x80 else 0x00) OR (b AND 0x7F) = (b :: u8)"
proof -
  have "\<forall>b :: u8. (if b AND 0x80 \<noteq> 0 then 0x80 else 0x00) OR (b AND 0x7F) = b"
    unfolding all_u8 by code_simp
  then show ?thesis by blast
qed

lemma store_le_load_le:
  "8 * length p = LENGTH('a) \<Longrightarrow> store_le (length p) (load_le p :: 'a::len word) = p"
  by (intro nth_equalityI) (simp_all add: store_le_def key_octet_load_le)

lemma big_uint16_inverse: "length p = 2 \<Longrightarrow> big_uint16_to_native p = Ok v \<Longrightarrow> big_uint16_buf v = p"
proof -
  assume p: "length p = 2" "big_uint16_to_native p = Ok v"
  then have "store_le 2 v = rev p" using store_le_load_le [of "rev p", where 'a = 16]
    by (simp add: big_uint16_load)
  then have "rev (store_le 2 v) = p" by simp
  then show ?thesis by (simp add: big_uint16_buf_def store_le_def key_octet_def numeral_2_eq_2)
qed

lemma big_uint64_inverse: "length p = 8 \<Longrightarrow> big_uint64_to_native p = Ok v \<Longrightarrow> big_uint64_buf v = p"
proof -
  assume p: "length p = 8" "big_uint64_to_native p = Ok v"
  then have "store_le 8 v = rev p" using store_le_load_le [of "rev p", where 'a = 64]
    by (simp add: big_uint64_load)
  then have "rev (store_le 8 v) = p" by simp
  then show ?thesis by (simp add: big_uint64_buf_def store_le_def key_octet_def upt_conv_Cons)
qed

lemma little_uint32_inverse: "length p = 4 \<Longrightarrow> little_uint32_to_native p = Ok v \<Longrightarrow> native_to_little_uint32 v = p"
  using store_le_load_le [of p, where 'a = 32]
  by (simp add: little_uint32_load native_to_little_store)

context dynamic_buffer
begin

lemma take_octets_Ok:
  assumes "inv b" "take_octets db n b = Ok (xs, b')"
  shows "db_contents db b = xs @ db_contents db b'" "length xs = n" "inv b'"
proof -
  have "length (db_contents db b) \<ge> n" "xs = take n (db_contents db b)" "b' = db_consume db n b"
    using assms(2) by (auto simp: take_octets_def split: if_splits)
  then show "db_contents db b = xs @ db_contents db b'" "length xs = n" "inv b'"
    using consume [OF assms(1), of n] by simp_all
qed

lemma read_len_sound:
  assumes "inv b" "len \<le> 127" "read_len db len b = Ok (Some l, b')"
  shows "inv b'" "db_contents db b = long_len l @ db_contents db b'" "short_len l = len"
proof -
  have "inv b' \<and> db_contents db b = long_len l @ db_contents db b' \<and> short_len l = len"
  proof -
    consider "len = 126" | "len = 127" | "len \<noteq> 126" "len \<noteq> 127" by blast
    then show ?thesis
    proof cases
      case 1
      with assms(3) obtain bs v where v: "take_octets db 2 b = Ok (bs, b')"
        "big_uint16_to_native bs = Ok v" "l = ucast v" "\<not> (ucast v :: u64) < 126"
        by (auto simp: read_len_def ob_eq_Ok split: if_splits)
      have "unat v < 65536" using unsigned_less [of v] by simp
      then have "\<not> l \<le> 125" "l \<le> 65535" "ucast l = v"
        using v(3,4) by (simp_all add: word_le_nat_alt word_less_nat_alt unsigned_ucast_eq
            take_bit_nat_eq_self word_unat_eq_iff)
      with take_octets_Ok [OF assms(1) v(1)] big_uint16_inverse [of bs v] v(2) 1 show ?thesis
        by (simp add: long_len_def short_len_def)
    next
      case 2
      with assms(3) obtain bs where v: "take_octets db 8 b = Ok (bs, b')"
        "big_uint64_to_native bs = Ok l" "\<not> l < 65536"
        by (auto simp: read_len_def ob_eq_Ok split: if_splits)
      then have "\<not> l \<le> 125" "\<not> l \<le> 65535" by (auto simp: word_le_nat_alt word_less_nat_alt)
      with take_octets_Ok [OF assms(1) v(1)] big_uint64_inverse [of bs l] v(2) 2 show ?thesis
        by (simp add: long_len_def short_len_def)
    next
      case 3
      with assms have "l = len" "b' = b" by (simp_all add: read_len_def)
      moreover have "len \<le> 125"
        using assms(2) 3 by (simp add: word_le_nat_alt word_unat_eq_iff)
      ultimately show ?thesis using assms(1) by (simp add: long_len_def short_len_def)
    qed
  qed
  then show "inv b'" "db_contents db b = long_len l @ db_contents db b'" "short_len l = len" by auto
qed

lemma read_key_sound:
  assumes "inv b" "read_key db m b = Ok (k, b')" "m = fh_mask fh" "k = fh_key fh"
  shows "inv b'" "db_contents db b = key_octets fh @ db_contents db b'"
  using assms take_octets_Ok [OF assms(1), of 4 _ b'] little_uint32_inverse
  by (auto simp: read_key_def key_octets_def ob_eq_Ok split: if_splits)

lemma read_fh_sound:
  assumes b: "inv b"
    and r1: "read_fh1 db fh0 b s = Ok ((cc_none, n), h, b1, s1)"
    and r2: "read_fh2 db h b1 s1 = Ok (cc_none, fh, b2, s2)"
  shows "inv b2 \<and> db_contents db b = fh_encode fh @ db_contents db b2 \<and> n = length (fh_encode fh) - 2"
proof -
  from r1 obtain bs b' where bs': "take_octets db 2 b = Ok (bs, b')"
    by (auto simp: read_fh1_def ob_eq_Ok)
  then have "b1 = b'" and h: "h = fh_parse (bs ! 0) (bs ! 1) fh0" and n: "n = fh_need (fh_len h) (fh_mask h)"
    using r1 by (cases "fh_check (fh_parse (bs ! 0) (bs ! 1) fh0) s";
      simp add: read_fh1_def Let_def cc_none_def cc_protocol_error_def split: if_splits)+
  with bs' have bs: "take_octets db 2 b = Ok (bs, b1)" by simp
  note t = take_octets_Ok [OF b bs]
  define p0 p1 where "p0 = bs ! 0" and "p1 = bs ! 1"
  have bs2: "bs = [p0, p1]" using t(2) by (auto simp: p0_def p1_def numeral_2_eq_2 length_Suc_conv)
  from r2 obtain l b' k where l: "read_len db (fh_len h) b1 = Ok (Some l, b')"
    and k: "read_key db (fh_mask h) b' = Ok (k, b2)" and fh: "fh = h\<lparr>fh_len := l, fh_key := k\<rparr>"
    by (auto simp: read_fh2_def ob_eq_Ok Let_def cc_none_def cc_protocol_error_def cc_too_big_def
        split: option.splits if_splits)
  have h1: "fh_len h = ucast (p1 AND 0x7F)" "fh_mask h = (p1 AND 0x80 \<noteq> 0)"
    by (simp_all add: h fh_parse_def p1_def)
  have le: "(p1 AND 0x7F) \<le> 127" by (rule word_and_le1)
  then have le': "fh_len h \<le> 127"
    by (simp add: h1 word_le_nat_alt unsigned_ucast_eq take_bit_nat_eq_self order.strict_trans1)
  note rl = read_len_sound [OF t(3) le' l]
  have "fh_mask h = fh_mask fh" "k = fh_key fh" by (simp_all add: fh)
  note rk = read_key_sound [OF rl(1) k this]
  have "fh_octet0 fh = p0"
    by (simp add: fh fh_octet0_eq h fh_parse_def octet0_rebuild p0_def del: not_gr_zero)
  moreover have "(if fh_mask fh then 0x80 else 0x00) OR ucast (short_len (fh_len fh)) = p1"
  proof -
    have "ucast (ucast x :: u64) = x" for x :: u8
      by (rule bit_word_eqI) (auto simp: bit_simps)
    then show ?thesis using octet1_rebuild [of p1] by (simp add: fh h1 rl(3))
  qed
  ultimately have enc: "fh_encode fh = [p0, p1] @ long_len l @ key_octets fh"
    using fh by (simp add: fh_encode_parts)
  have "n = length (fh_encode fh) - 2"
    using n rl(3) fh by (simp add: length_fh_encode)
  moreover have "db_contents db b = fh_encode fh @ db_contents db b2"
    by (simp only: t(1) rl(2) rk(2) enc bs2 append_assoc append_Cons append_Nil)
  ultimately show ?thesis using rk(1) by blast
qed

end

text \<open>What \<open>read_fh1\<close> and \<open>read_fh2\<close> accept is exactly what \<open>detail::write\<close> writes for the
  header they return: a header has one encoding, longer forms of a length are refused.\<close>

theorem header_canonical:
  assumes "static_inv b"
    and "read_fh1 static_db fh0 b s = Ok ((cc_none, n), h, b1, s1)"
    and "read_fh2 static_db h b1 s1 = Ok (cc_none, fh, b2, s2)"
  shows "concat (static_data b) = fh_encode fh @ concat (static_data b2) \<and> n = length (fh_encode fh) - 2"
  using static.read_fh_sound [OF assms] by (simp add: static_data_def)

theorem header_canonical_witness:
  "concat (static_data \<lparr>sb_mem = [0x81, 0x05, 9], sb_in = 0, sb_out = 3, sb_last = 3\<rparr>) =
     fh_encode \<lparr>fh_op = Op_text, fh_fin = True, fh_mask = False, fh_rsv1 = False, fh_rsv2 = False,
      fh_rsv3 = False, fh_len = 5, fh_key = 0\<rparr> @ [9]"
proof -
  let ?h = "\<lparr>fh_op = Op_text, fh_fin = True, fh_mask = False, fh_rsv1 = False, fh_rsv2 = False,
      fh_rsv3 = False, fh_len = 5, fh_key = 0\<rparr>"
  let ?b = "\<lparr>sb_mem = [0x81, 0x05, 9], sb_in = 0, sb_out = 3, sb_last = 3\<rparr>"
  let ?b1 = "\<lparr>sb_mem = [0x81, 0x05, 9], sb_in = 2, sb_out = 3, sb_last = 3\<rparr>"
  have "static_inv ?b" by (simp add: static_inv_def)
  moreover have "fh_parse 0x81 0x05 ?h = ?h" by (simp add: fh_parse_def op_cast_def opcodes_def)
  moreover from this have "read_fh1 static_db ?h ?b ws_example = Ok ((cc_none, 0), ?h, ?b1, ws_example)"
    by (simp add: read_fh1_def take_octets_def static_consume_def slice_def fh_check_def fh_need_def
        ws_example_def ws_init_def pmd_is_set_def)
  moreover have "read_fh2 static_db ?h ?b1 ws_example =
      Ok (cc_none, ?h, ?b1, ws_example\<lparr>ws_rd_size := 0, ws_rd_op := Op_text, ws_rd_cont := False\<rparr>)"
    by (simp add: read_fh2_def read_len_def read_key_def is_control_def less_eq_opcode_def)
  ultimately have "concat (static_data ?b) = fh_encode ?h @ concat (static_data ?b1)"
    using header_canonical by blast
  then show ?thesis by (simp add: static_data_def slice_def)
qed

section \<open>Close codes\<close>

text \<open>The codes a received close frame may carry are those RFC 6455, section 7.4, allows on
  the wire (with 1012 and 1013, registered since), and every code from 3000 up.\<close>

theorem close_code_rfc:
  "is_valid_close_code v \<longleftrightarrow>
     1000 \<le> unat v \<and> unat v \<le> 1003 \<or> 1007 \<le> unat v \<and> unat v \<le> 1013 \<or> 3000 \<le> unat v"
  unfolding is_valid_close_code_def cc_defs
  by (simp add: word_unat_eq_iff word_le_nat_alt) presburger

end
