(* ===== verification/Ws_Stream.thy ===== *)
theory Ws_Stream
  imports Ws_Header
begin

text \<open>
  The synchronous operations of \<open>websocket::stream\<close>: \<open>read_frame\<close> and \<open>read\<close>
  (\<open>include/beast/websocket/impl/read.ipp\<close>), \<open>write_frame\<close> and \<open>write\<close> (\<open>impl/write.ipp\<close>),
  \<open>close\<close> (\<open>impl/close.ipp\<close>), \<open>ping\<close> and \<open>pong\<close> (\<open>impl/ping.ipp\<close>). A member function is a
  computation over the object and the caller's dynamic buffer. \<open>Return ec\<close> leaves it with an
  error code, \<open>Goto_close\<close> jumps to the label \<open>do_close\<close>, \<open>Throw\<close> is the exception of a full
  dynamic buffer. A failed assertion, and a loop that makes no progress, is \<open>Oob\<close>.
\<close>

datatype leave = Return error_code | Goto_close close_code | Throw

record 'z ws_cfg =
  cf_addr :: nat
  cf_aligned :: "nat \<Rightarrow> bool"
  cf_codec :: "'z codec"

text \<open>\<open>cf_addr\<close> and \<open>cf_aligned\<close> say where buffers lie in memory; nothing depends on them.\<close>

type_synonym ('z, 'b, 'a) wsact = "('z ws \<times> 'b, leave, 'a) act"

section \<open>The next layer\<close>

definition lift_throw :: "(length_error, 'a) outcome \<Rightarrow> ('z, 'b, 'a) wsact" where
  "lift_throw m st = (case m of Ok a \<Rightarrow> (Ok a, st) | Err _ \<Rightarrow> (Err Throw, st) | Oob \<Rightarrow> (Oob, st))"

definition lift_ub :: "(unit, 'a) outcome \<Rightarrow> ('z, 'b, 'a) wsact" where
  "lift_ub m st = (case m of Ok a \<Rightarrow> (Ok a, st) | Err _ \<Rightarrow> (Oob, st) | Oob \<Rightarrow> (Oob, st))"

definition act_oob :: "('z, 'b, 'a) wsact" where
  "act_oob st = (Oob, st)"

definition on_ws :: "('z ws \<Rightarrow> 'z ws) \<Rightarrow> ('z, 'b, unit) wsact" where
  "on_ws f = act_put (\<lambda>(s, d). (f s, d))"

definition get_ws :: "('z ws \<Rightarrow> 'a) \<Rightarrow> ('z, 'b, 'a) wsact" where
  "get_ws f = act_get (\<lambda>(s, d). f s)"

text \<open>\<open>boost::asio::read\<close> of \<open>n\<close> octets, followed by \<open>failed_ = ec != 0; if(failed_) return;\<close>.\<close>

definition net_read :: "nat \<Rightarrow> ('z, 'b, bytes) wsact" where
  "net_read n = (\<lambda>(s, d). let nt = ws_net s in
     if length (nt_in nt) < n
     then (Err (Return (nt_error nt)), (s\<lparr>ws_net := nt\<lparr>nt_in := []\<rparr>, ws_failed := True\<rparr>, d))
     else (Ok (take n (nt_in nt)), (s\<lparr>ws_net := nt\<lparr>nt_in := drop n (nt_in nt)\<rparr>, ws_failed := False\<rparr>, d)))"

text \<open>\<open>stream_.read_some\<close> into a buffer of \<open>m\<close> octets, and the same test.\<close>

definition net_read_some :: "nat \<Rightarrow> ('z, 'b, bytes) wsact" where
  "net_read_some m = (\<lambda>(s, d). let nt = ws_net s in
     if m = 0 then (Ok [], (s\<lparr>ws_failed := False\<rparr>, d))
     else if nt_in nt = [] then (Err (Return (nt_error nt)), (s\<lparr>ws_failed := True\<rparr>, d))
     else
       let piece = (case nt_pieces nt of [] \<Rightarrow> m | p # _ \<Rightarrow> max 1 p); k = min m piece in
       (Ok (take k (nt_in nt)),
        (s\<lparr>ws_net := nt\<lparr>nt_in := drop k (nt_in nt), nt_pieces := tl (nt_pieces nt)\<rparr>, ws_failed := False\<rparr>, d)))"

definition net_write :: "bytes \<Rightarrow> ('z, 'b, unit) wsact" where
  "net_write xs = (\<lambda>(s, d). let nt = ws_net s in
     case nt_writes nt of
       Some e # r \<Rightarrow> (Err (Return e), (s\<lparr>ws_net := nt\<lparr>nt_writes := r\<rparr>, ws_failed := True\<rparr>, d))
     | r \<Rightarrow> (Ok (), (s\<lparr>ws_net := nt\<lparr>nt_writes := tl r, nt_out := nt_out nt @ xs\<rparr>, ws_failed := False\<rparr>, d)))"

section \<open>read\_frame: the header\<close>

definition frame_streambuf :: static_buffer where
  "frame_streambuf = static_reset (replicate (2 + 8 + 4 + 125) 0)"

definition fh_uninit :: frame_header where
  "fh_uninit = \<lparr>fh_op = Op_cont, fh_fin = False, fh_mask = False, fh_rsv1 = False, fh_rsv2 = False,
     fh_rsv3 = False, fh_len = 0, fh_key = 0\<rparr>"

definition fb_read :: "nat \<Rightarrow> static_buffer \<Rightarrow> ('z, 'b, static_buffer) wsact" where
  "fb_read n fb =
     act_bind (lift_throw (static_prepare n fb)) (\<lambda>fb.
     act_bind (net_read n) (\<lambda>xs.
     act_ret (static_commit n (static_store xs fb))))"

definition do_fh1 :: "static_buffer \<Rightarrow> ('z, 'b, (close_code \<times> nat) \<times> frame_header \<times> static_buffer) wsact" where
  "do_fh1 fb = (\<lambda>(s, d).
     case read_fh1 static_db fh_uninit fb s of
       Ok (r, fh, fb, s) \<Rightarrow> (Ok (r, fh, fb), (s, d)) | _ \<Rightarrow> (Oob, (s, d)))"

definition do_fh2 :: "frame_header \<Rightarrow> static_buffer \<Rightarrow> ('z, 'b, close_code \<times> frame_header \<times> static_buffer) wsact" where
  "do_fh2 fh fb = (\<lambda>(s, d).
     case read_fh2 static_db fh fb s of
       Ok (r, fh, fb, s) \<Rightarrow> (Ok (r, fh, fb), (s, d)) | _ \<Rightarrow> (Oob, (s, d)))"

definition read_header :: "('z, 'b, frame_header \<times> static_buffer) wsact" where
  "read_header =
     act_bind (fb_read 2 frame_streambuf) (\<lambda>fb.
     act_bind (do_fh1 fb) (\<lambda>((code, n), fh, fb).
     if code \<noteq> cc_none then act_err (Goto_close code)
     else
       act_bind (if n > 0 then fb_read n fb else act_ret fb) (\<lambda>fb.
       act_bind (do_fh2 fh fb) (\<lambda>(code, fh, fb).
       act_bind (on_ws (\<lambda>s. s\<lparr>ws_failed := False\<rparr>)) (\<lambda>_.
       if code \<noteq> cc_none then act_err (Goto_close code) else act_ret (fh, fb))))))"

section \<open>read\_frame: control frames\<close>

definition control_payload :: "'z ws_cfg \<Rightarrow> frame_header \<Rightarrow> static_buffer \<Rightarrow> ('z, 'b, static_buffer) wsact" where
  "control_payload cf fh fb =
     (if fh_len fh > 0 then
        let len = unat (fh_len fh) in
        act_bind (lift_throw (static_prepare len fb)) (\<lambda>fb.
        let mb = sb_out fb in
        act_bind (net_read len) (\<lambda>xs.
        let fb = static_commit len (static_store xs fb) in
        act_bind (if fh_mask fh then
            act_bind (lift_ub (mask_octets (cf_addr cf) (prepare_key64 (fh_key fh))
                (slice (sb_mem fb) mb (mb + len)))) (\<lambda>(ys, key).
              act_ret (fb\<lparr>sb_mem := poke (sb_mem fb) mb ys\<rparr>))
          else act_ret fb) (\<lambda>fb.
        act_ret (static_commit len fb))))
      else act_ret fb)"

definition do_write_ping :: "'z ws_cfg \<Rightarrow> opcode \<Rightarrow> bytes \<Rightarrow> ('z, 'b, unit) wsact" where
  "do_write_ping cf op payload = (\<lambda>(s, d).
     case write_ping static_db (cf_addr cf) frame_streambuf op payload s of
       Ok (fb, s) \<Rightarrow> net_write (concat (static_data fb)) (s, d)
     | Err _ \<Rightarrow> (Err Throw, (s, d)) | Oob \<Rightarrow> (Oob, (s, d)))"

definition do_write_close :: "'z ws_cfg \<Rightarrow> close_reason \<Rightarrow> ('z, 'b, unit) wsact" where
  "do_write_close cf cr = (\<lambda>(s, d).
     case write_close static_db (cf_addr cf) frame_streambuf cr s of
       Ok (fb, s) \<Rightarrow> net_write (concat (static_data fb)) (s, d)
     | Err _ \<Rightarrow> (Err Throw, (s, d)) | Oob \<Rightarrow> (Oob, (s, d)))"

definition call_ping_cb :: "bool \<Rightarrow> bytes \<Rightarrow> ('z, 'b, unit) wsact" where
  "call_ping_cb is_pong payload =
     on_ws (\<lambda>s. if ws_ping_cb s then s\<lparr>ws_pings := ws_pings s @ [(is_pong, payload)]\<rparr> else s)"

text \<open>\<open>detail::read(cr_, fb.data(), code)\<close>.\<close>

definition do_read_close :: "'z ws_cfg \<Rightarrow> static_buffer \<Rightarrow> ('z, 'b, close_code) wsact" where
  "do_read_close cf fb = (\<lambda>(s, d).
     case read_close_reason (cf_aligned cf) (static_data fb) (ws_cr s) of
       Ok (code, cr) \<Rightarrow> (Ok code, (s\<lparr>ws_cr := cr\<rparr>, d)) | _ \<Rightarrow> (Oob, (s, d)))"

text \<open>The handler of a control frame returns for \<open>continue\<close>; the close frame leaves it.\<close>

definition control_frame :: "'z ws_cfg \<Rightarrow> frame_header \<Rightarrow> static_buffer \<Rightarrow> ('z, 'b, unit) wsact" where
  "control_frame cf fh fb =
     act_bind (control_payload cf fh fb) (\<lambda>fb.
     if fh_op fh = Op_ping then
       act_bind (lift_ub (read_ping_data (static_data fb))) (\<lambda>payload.
       act_bind (call_ping_cb False payload) (\<lambda>_.
       do_write_ping cf Op_pong payload))
     else if fh_op fh = Op_pong then
       act_bind (lift_ub (read_ping_data (static_data fb))) (\<lambda>payload.
       call_ping_cb True payload)
     else if fh_op fh \<noteq> Op_close then act_oob
     else
       act_bind (do_read_close cf fb) (\<lambda>code.
       if code \<noteq> cc_none then act_err (Goto_close code)
       else
         act_bind (get_ws ws_wr_close) (\<lambda>wr_close.
         act_bind (get_ws ws_cr) (\<lambda>cr.
         if \<not> wr_close then
           let cr = (if cr_code cr = cc_none then cr\<lparr>cr_code := cc_normal\<rparr> else cr);
               cr = cr\<lparr>cr_reason := []\<rparr>
           in act_bind (on_ws (\<lambda>s. s\<lparr>ws_wr_close := True\<rparr>)) (\<lambda>_.
              act_bind (do_write_close cf cr) (\<lambda>_.
              act_err (Goto_close cc_none)))
         else act_err (Goto_close cc_none)))))"

section \<open>read\_frame: data frames\<close>

text \<open>
  The UTF-8 checker gets the octets of a round as one buffer, as the library's flat and static
  buffers hold them.
\<close>

definition payload_utf8 :: "'z ws_cfg \<Rightarrow> bool \<Rightarrow> bytes \<Rightarrow> ('z, 'b, unit) wsact" where
  "payload_utf8 cf fin xs = (\<lambda>(s, d).
     if ws_rd_op s = Op_text then
       (case utf8_write (cf_aligned cf) xs (ws_rd_utf8 s) of
          Ok (ok, c) \<Rightarrow>
            if \<not> ok then (Err (Goto_close cc_bad_payload), (s\<lparr>ws_rd_utf8 := c\<rparr>, d))
            else if fin then
              (case utf8_finish c of (ok, c) \<Rightarrow>
                 if \<not> ok then (Err (Goto_close cc_bad_payload), (s\<lparr>ws_rd_utf8 := c\<rparr>, d))
                 else (Ok (), (s\<lparr>ws_rd_utf8 := c\<rparr>, d)))
            else (Ok (), (s\<lparr>ws_rd_utf8 := c\<rparr>, d))
        | _ \<Rightarrow> (Oob, (s, d)))
     else (Ok (), (s, d)))"

definition unmask_octets :: "'z ws_cfg \<Rightarrow> bool \<Rightarrow> u64 \<Rightarrow> bytes \<Rightarrow> ('z, 'b, bytes \<times> u64) wsact" where
  "unmask_octets cf msk key xs = (if msk then lift_ub (mask_octets (cf_addr cf) key xs) else act_ret (xs, key))"

definition db_prepare_act :: "'b dynbuf \<Rightarrow> nat \<Rightarrow> ('z, 'b, unit) wsact" where
  "db_prepare_act db n = (\<lambda>(s, d).
     case db_prepare db n d of Ok d \<Rightarrow> (Ok (), (s, d)) | Err _ \<Rightarrow> (Err Throw, (s, d)) | Oob \<Rightarrow> (Oob, (s, d)))"

definition db_commit_act :: "'b dynbuf \<Rightarrow> bytes \<Rightarrow> ('z, 'b, unit) wsact" where
  "db_commit_act db xs = act_put (\<lambda>(s, d). (s, db_commit db (length xs) (db_store db xs d)))"

text \<open>One round of the payload loop gives the number of octets received and the rotated key.\<close>

definition payload_round :: "'z ws_cfg \<Rightarrow> 'b dynbuf \<Rightarrow> frame_header \<Rightarrow> nat \<Rightarrow> u64 \<Rightarrow> ('z, 'b, nat \<times> u64) wsact" where
  "payload_round cf db fh remain key =
     act_bind (db_prepare_act db remain) (\<lambda>_.
     act_bind (net_read_some remain) (\<lambda>xs.
     if xs = [] then act_oob
     else
       act_bind (unmask_octets cf (fh_mask fh) key xs) (\<lambda>(ys, key).
       act_bind (payload_utf8 cf (remain - length xs = 0 \<and> fh_fin fh) ys) (\<lambda>_.
       act_bind (db_commit_act db ys) (\<lambda>_. act_ret (length xs, key))))))"

function read_payload :: "'z ws_cfg \<Rightarrow> 'b dynbuf \<Rightarrow> frame_header \<Rightarrow> nat \<Rightarrow> u64 \<Rightarrow> ('z, 'b, unit) wsact" where
  "read_payload cf db fh remain key st =
     (if remain > 0 then
        (case payload_round cf db fh remain key st of
           (Ok (k, key), st) \<Rightarrow> if k = 0 then (Oob, st) else read_payload cf db fh (remain - k) key st
         | (Err e, st) \<Rightarrow> (Err e, st)
         | (Oob, st) \<Rightarrow> (Oob, st))
      else (Ok (), st))"
  by pat_completeness auto
termination by (relation "measure (\<lambda>(cf, db, fh, remain, key, st). remain)") auto

declare read_payload.simps [simp del]

text \<open>The compressed payload: \<open>inflate\<close> appends to the dynamic buffer what it gets.\<close>

definition do_inflate :: "'z ws_cfg \<Rightarrow> 'b dynbuf \<Rightarrow> bytes \<Rightarrow> ('z, 'b, bytes) wsact" where
  "do_inflate cf db xs = (\<lambda>(s, d).
     case ws_pmd s of
       None \<Rightarrow> (Oob, (s, d))
     | Some p \<Rightarrow>
         (case cd_inflate (cf_codec cf) xs (pmd_zi p) of
            ((out, ec), z) \<Rightarrow>
              let s = s\<lparr>ws_pmd := Some (p\<lparr>pmd_zi := z\<rparr>)\<rparr> in
              (case db_append db out d of
                 Err _ \<Rightarrow> (Err Throw, (s, d))
               | Oob \<Rightarrow> (Oob, (s, d))
               | Ok d \<Rightarrow>
                   (case ec of
                      Some e \<Rightarrow> (Err (Return e), (s\<lparr>ws_failed := True\<rparr>, d))
                    | None \<Rightarrow> (Ok out, (s\<lparr>ws_failed := False\<rparr>, d))))))"

definition inflate_round :: "'z ws_cfg \<Rightarrow> 'b dynbuf \<Rightarrow> frame_header \<Rightarrow> nat \<Rightarrow> u64 \<Rightarrow> ('z, 'b, nat \<times> u64) wsact" where
  "inflate_round cf db fh remain key =
     act_bind (get_ws ws_rd_buf_size) (\<lambda>sz.
     act_bind (net_read_some (min remain sz)) (\<lambda>xs.
     act_bind (unmask_octets cf (fh_mask fh) key xs) (\<lambda>(ys, key).
     act_bind (do_inflate cf db ys) (\<lambda>out.
     act_bind (if remain - length xs = 0 \<and> fh_fin fh then do_inflate cf db [0x00, 0x00, 0xFF, 0xFF]
               else act_ret []) (\<lambda>out'.
     act_bind (payload_utf8 cf (remain - length xs = 0 \<and> fh_fin fh) (out @ out')) (\<lambda>_.
     act_ret (length xs, key)))))))"

function read_inflate :: "'z ws_cfg \<Rightarrow> 'b dynbuf \<Rightarrow> frame_header \<Rightarrow> nat \<Rightarrow> u64 \<Rightarrow> ('z, 'b, unit) wsact" where
  "read_inflate cf db fh remain key st =
     (case inflate_round cf db fh remain key st of
        (Ok (k, key), st) \<Rightarrow>
          if remain - k = 0 then (Ok (), st)
          else if k = 0 then (Oob, st)
          else read_inflate cf db fh (remain - k) key st
      | (Err e, st) \<Rightarrow> (Err e, st)
      | (Oob, st) \<Rightarrow> (Oob, st))"
  by pat_completeness auto
termination by (relation "measure (\<lambda>(cf, db, fh, remain, key, st). remain)") auto

declare read_inflate.simps [simp del]

definition inflate_done :: "'z ws_cfg \<Rightarrow> frame_header \<Rightarrow> 'z ws \<Rightarrow> 'z ws" where
  "inflate_done cf fh s =
     (if fh_fin fh \<and> (ws_role s = Client \<and> pd_server_no_context_takeover (ws_pmd_config s) \<or>
                      ws_role s = Server \<and> pd_client_no_context_takeover (ws_pmd_config s))
      then s\<lparr>ws_pmd := map_option (\<lambda>p. p\<lparr>pmd_zi := cd_zi_again (cf_codec cf) (pmd_zi p)\<rparr>) (ws_pmd s)\<rparr>
      else s)"

text \<open>\<open>None\<close> is \<open>continue\<close>; otherwise the result is \<open>fi.op\<close> and \<open>fi.fin\<close>.\<close>

definition data_frame :: "'z ws_cfg \<Rightarrow> 'b dynbuf \<Rightarrow> frame_header \<Rightarrow> ('z, 'b, (opcode \<times> bool) option) wsact" where
  "data_frame cf db fh =
     act_bind (on_ws (\<lambda>s. if fh_op fh \<noteq> Op_cont then rd_begin s else s)) (\<lambda>_.
     if fh_len fh = 0 \<and> \<not> fh_fin fh then act_ret None
     else
       act_bind (get_ws (\<lambda>s. (pmd_reading s, ws_rd_msg_max s, ws_rd_size s))) (\<lambda>(deflated, msg_max, size).
       act_bind
         (if \<not> deflated then
            if msg_max \<noteq> 0 \<and> fh_len fh > msg_max - size then act_err (Goto_close cc_too_big)
            else
              act_bind (on_ws (\<lambda>s. s\<lparr>ws_rd_size := ws_rd_size s + fh_len fh\<rparr>)) (\<lambda>_.
              read_payload cf db fh (unat (fh_len fh)) (prepare_key64 (fh_key fh)))
          else
            act_bind (read_inflate cf db fh (unat (fh_len fh)) (prepare_key64 (fh_key fh))) (\<lambda>_.
            on_ws (inflate_done cf fh))) (\<lambda>_.
       act_bind (get_ws ws_rd_op) (\<lambda>op. act_ret (Some (op, fh_fin fh))))))"

definition read_frame_round :: "'z ws_cfg \<Rightarrow> 'b dynbuf \<Rightarrow> ('z, 'b, (opcode \<times> bool) option) wsact" where
  "read_frame_round cf db =
     act_bind read_header (\<lambda>(fh, fb).
     if is_control (fh_op fh) then act_bind (control_frame cf fh fb) (\<lambda>_. act_ret None)
     else data_frame cf db fh)"

section \<open>What a computation does to the state\<close>

text \<open>
  \<open>moves R m\<close>: every run of \<open>m\<close> goes from a state to one that \<open>R\<close> relates to it, also when
  it leaves with an error. For a transitive and reflexive \<open>R\<close> this composes.
\<close>

definition moves :: "('s \<Rightarrow> 's \<Rightarrow> bool) \<Rightarrow> ('s, 'e, 'a) act \<Rightarrow> bool" where
  "moves R m \<longleftrightarrow> (\<forall>st. R st (snd (m st)))"

named_theorems moves_intros

lemma movesI: "(\<And>st. R st (snd (m st))) \<Longrightarrow> moves R m"
  by (simp add: moves_def)

lemma movesD: "moves R m \<Longrightarrow> m st = (r, st') \<Longrightarrow> R st st'"
  by (metis moves_def snd_conv)

lemma moves_bind [moves_intros]:
  assumes "transp R" "moves R m" "\<And>a. moves R (f a)"
  shows "moves R (act_bind m f)"
proof (rule movesI)
  fix st
  obtain r st1 where m: "m st = (r, st1)" by (cases "m st")
  have 1: "R st st1" by (rule movesD [OF assms(2) m])
  show "R st (snd (act_bind m f st))"
  proof (cases r)
    case (Ok a)
    have "R st1 (snd (f a st1))" using assms(3) by (simp add: moves_def)
    with 1 assms(1) m Ok show ?thesis by (auto dest: transpD)
  qed (use 1 m in simp_all)
qed

lemma moves_if [moves_intros]: "moves R m \<Longrightarrow> moves R n \<Longrightarrow> moves R (if b then m else n)"
  by simp

lemma moves_pure [moves_intros]:
  assumes "reflp R"
  shows "moves R (act_ret a)" "moves R (act_err e)" "moves R act_oob" "moves R (act_get g)"
    "moves R (get_ws h)" "moves R (lift_throw x)" "moves R (lift_ub y)"
  using assms
  by (auto simp: moves_def act_defs act_oob_def get_ws_def lift_throw_def lift_ub_def reflp_def
      split: outcome.split prod.split)

lemma moves_on_ws [moves_intros]: "(\<And>s d. R (s, d) (f s, d)) \<Longrightarrow> moves R (on_ws f)"
  by (auto simp: moves_def on_ws_def act_defs)

lemma moves_prod [moves_intros]:
  "(\<And>x y. moves R (f x y)) \<Longrightarrow> moves R (case p of (x, y) \<Rightarrow> f x y)"
  "(\<And>x y. moves R (g x y z)) \<Longrightarrow> moves R ((case p of (x, y) \<Rightarrow> g x y) z)"
  by (cases p; simp)+

text \<open>The octets still to come from the next layer never grow, and a frame takes at least two.\<close>

definition inputs :: "'z ws \<times> 'b \<Rightarrow> nat" where
  "inputs st = length (nt_in (ws_net (fst st)))"

definition reads :: "'z ws \<times> 'b \<Rightarrow> 'z ws \<times> 'b \<Rightarrow> bool" where
  "reads st st' \<longleftrightarrow> inputs st' \<le> inputs st"

lemma reads_order [simp]: "reflp reads" "transp reads"
  by (auto simp: reads_def reflp_def transp_def)

lemma reads_refl: "reads st st"
  by (simp add: reads_def)

lemma reads_net [moves_intros]:
  "moves reads (net_read n)" "moves reads (net_read_some m)" "moves reads (net_write xs)"
  by (auto simp: moves_def reads_def inputs_def net_read_def net_read_some_def net_write_def Let_def
      split: prod.split list.split option.split)

lemma reads_calls [moves_intros]:
  "moves reads (do_read_close cf fb)" "moves reads (payload_utf8 cf fin xs)"
  "moves reads (db_prepare_act db n)" "moves reads (db_commit_act db xs)"
  "moves reads (do_inflate cf db xs)" "moves reads (call_ping_cb b p)"
  by (auto simp: moves_def reads_def inputs_def do_read_close_def payload_utf8_def db_prepare_act_def
      db_commit_act_def do_inflate_def call_ping_cb_def on_ws_def act_defs Let_def
      split: prod.split outcome.split option.split)

lemma read_fh1_net:
  assumes "read_fh1 db fh b s = Ok (r, fh', b', s')"
  shows "ws_net s' = ws_net s"
proof -
  have check: "ws_net (snd (fh_check h s)) = ws_net s" for h by (simp add: fh_check_def)
  from assms obtain bs b1 where t: "take_octets db 2 b = Ok (bs, b1)"
    by (auto simp: read_fh1_def ob_eq_Ok)
  then show ?thesis
    using assms check [of "fh_parse (bs ! 0) (bs ! 1) fh"]
    by (cases "fh_check (fh_parse (bs ! 0) (bs ! 1) fh) s") (auto simp: read_fh1_def Let_def split: if_splits)
qed

lemma read_fh2_net:
  assumes "read_fh2 db fh b s = Ok (r, fh', b', s')"
  shows "ws_net s' = ws_net s"
proof -
  have "case read_fh2 db fh b s of Ok (r, fh', b', s') \<Rightarrow> ws_net s' = ws_net s | _ \<Rightarrow> True"
    by (simp add: read_fh2_def ob_def Let_def split: outcome.split option.split prod.split)
  with assms show ?thesis by simp
qed

lemma reads_headers [moves_intros]: "moves reads (do_fh1 fb)" "moves reads (do_fh2 fh fb)"
  by (auto simp: moves_def reads_def inputs_def do_fh1_def do_fh2_def read_fh1_net read_fh2_net
      split: outcome.split)

lemma control_header_net: "control_header op n s = Ok (fh, s') \<Longrightarrow> ws_net s' = ws_net s"
  by (auto simp: control_header_def next_key_def ob_eq_Ok Let_def split: if_splits option.splits)

lemma write_net:
  "write_ping db addr b op data s = Ok (b', s') \<Longrightarrow> ws_net s' = ws_net s"
  "write_close db addr b cr s = Ok (b', s') \<Longrightarrow> ws_net s' = ws_net s"
  by (auto simp: write_ping_def write_close_def ob_eq_Ok Let_def dest!: control_header_net split: if_splits)

lemma reads_net_write: "ws_net s' = ws_net s \<Longrightarrow> reads (s, d) (snd (net_write xs (s', d')))"
  using movesD [OF reads_net(3), of xs "(s', d')"]
  by (cases "net_write xs (s', d')") (auto simp: reads_def inputs_def)

lemma reads_writes [moves_intros]: "moves reads (do_write_ping cf op xs)" "moves reads (do_write_close cf cr)"
  by (auto simp: moves_def do_write_ping_def do_write_close_def reads_refl
      split: outcome.split prod.split intro!: reads_net_write dest: write_net)

lemma reads_header_frames [moves_intros]:
  "moves reads (fb_read n fb)" "moves reads read_header" "moves reads (control_payload cf fh fb)"
  unfolding fb_read_def read_header_def control_payload_def unmask_octets_def Let_def
  by (intro moves_intros; simp add: reads_def inputs_def)+

lemma reads_control [moves_intros]: "moves reads (control_frame cf fh fb)"
  unfolding control_frame_def Let_def
  by (intro moves_intros; simp add: reads_def inputs_def)

lemma reads_rounds [moves_intros]:
  "moves reads (payload_round cf db fh n key)" "moves reads (inflate_round cf db fh n key)"
  unfolding payload_round_def inflate_round_def unmask_octets_def
  by (intro moves_intros; simp add: reads_def inputs_def)+

lemma reads_read_payload [moves_intros]: "moves reads (read_payload cf db fh n key)"
proof (rule movesI)
  fix st :: "'a ws \<times> 'b"
  show "reads st (snd (read_payload cf db fh n key st))"
  proof (induction cf db fh n key st rule: read_payload.induct)
    case (1 cf db fh n key st)
    have r: "payload_round cf db fh n key st = (r, st') \<Longrightarrow> reads st st'" for r st'
      by (rule movesD [OF reads_rounds(1)])
    with 1 show ?case
      by (subst read_payload.simps)
        (fastforce split: prod.split outcome.split simp: reads_def)
  qed
qed

lemma reads_read_inflate [moves_intros]: "moves reads (read_inflate cf db fh n key)"
proof (rule movesI)
  fix st :: "'a ws \<times> 'b"
  show "reads st (snd (read_inflate cf db fh n key st))"
  proof (induction cf db fh n key st rule: read_inflate.induct)
    case (1 cf db fh n key st)
    have r: "inflate_round cf db fh n key st = (r, st') \<Longrightarrow> reads st st'" for r st'
      by (rule movesD [OF reads_rounds(2)])
    with 1 show ?case
      by (subst read_inflate.simps)
        (fastforce split: prod.split outcome.split simp: reads_def)
  qed
qed

lemma reads_data [moves_intros]: "moves reads (data_frame cf db fh)"
  unfolding data_frame_def
  by (intro moves_intros; simp add: reads_def inputs_def rd_begin_def inflate_done_def)

text \<open>A header takes octets.\<close>

lemma fb_read_takes:
  assumes "0 < n" "fb_read n fb st = (Ok fb', st')"
  shows "inputs st' < inputs st"
  using assms
  by (auto simp: fb_read_def act_bind_def lift_throw_def net_read_def inputs_def Let_def act_defs
      split: outcome.splits prod.splits if_splits)

lemma read_header_takes: "read_header st = (Ok r, st') \<Longrightarrow> inputs st' < inputs st"
proof -
  assume r: "read_header st = (Ok r, st')"
  obtain x st1 where 1: "fb_read 2 frame_streambuf st = (x, st1)" by (cases "fb_read 2 frame_streambuf st")
  with r obtain fb where x: "x = Ok fb" by (cases x) (auto simp: read_header_def)
  have "inputs st1 < inputs st" by (rule fb_read_takes [of 2 frame_streambuf _ fb]) (use 1 x in auto)
  moreover
  let ?rest = "\<lambda>fb. act_bind (do_fh1 fb) (\<lambda>((code, n), fh, fb).
     if code \<noteq> cc_none then act_err (Goto_close code)
     else
       act_bind (if n > 0 then fb_read n fb else act_ret fb) (\<lambda>fb.
       act_bind (do_fh2 fh fb) (\<lambda>(code, fh, fb).
       act_bind (on_ws (\<lambda>s. s\<lparr>ws_failed := False\<rparr>)) (\<lambda>_.
       if code \<noteq> cc_none then act_err (Goto_close code) else act_ret (fh, fb)))))"
  have "moves reads (?rest fb :: ('a, 'b, frame_header \<times> static_buffer) wsact)"
    by (intro moves_intros; simp add: reads_def inputs_def)
  moreover have "?rest fb st1 = (Ok r, st')" using r 1 x by (simp add: read_header_def)
  ultimately show ?thesis using movesD unfolding reads_def by fastforce
qed

lemma read_frame_round_takes:
  assumes "read_frame_round cf db st = (Ok r, st')"
  shows "inputs st' < inputs st"
proof -
  obtain x st1 where 1: "read_header st = (x, st1)" by (cases "read_header st")
  with assms obtain fh fb where x: "x = Ok (fh, fb)"
    by (cases x) (auto simp: read_frame_round_def)
  then have "inputs st1 < inputs st" using 1 by (auto dest: read_header_takes)
  moreover
  let ?rest = "if is_control (fh_op fh) then act_bind (control_frame cf fh fb) (\<lambda>_. act_ret None)
     else data_frame cf db fh"
  have "moves reads ?rest" by (intro moves_intros; simp)
  moreover have "?rest st1 = (Ok r, st')" using assms 1 x by (simp add: read_frame_round_def)
  ultimately show ?thesis using movesD unfolding reads_def by fastforce
qed

section \<open>read\_frame and read\<close>

function read_frame_loop :: "'z ws_cfg \<Rightarrow> 'b dynbuf \<Rightarrow> ('z, 'b, opcode \<times> bool) wsact" where
  "read_frame_loop cf db st =
     (case read_frame_round cf db st of
        (Ok None, st) \<Rightarrow> read_frame_loop cf db st
      | (Ok (Some fi), st) \<Rightarrow> (Ok fi, st)
      | (Err e, st) \<Rightarrow> (Err e, st)
      | (Oob, st) \<Rightarrow> (Oob, st))"
  by pat_completeness auto
termination
  by (relation "measure (\<lambda>(cf, db, st). inputs st)") (auto dest: read_frame_round_takes [OF sym])

declare read_frame_loop.simps [simp del]

text \<open>The code after the label \<open>do_close\<close>; an error of the teardown is what remains of \<open>ec\<close>.\<close>

definition call_teardown :: "'z ws \<Rightarrow> error_code option" where
  "call_teardown s = (case nt_teardown (ws_net s) of Some Ec_eof \<Rightarrow> None | r \<Rightarrow> r)"

definition do_close :: "'z ws_cfg \<Rightarrow> close_code \<Rightarrow> ('z, 'b, 'a) wsact" where
  "do_close cf code =
     (if code \<noteq> cc_none then
        act_bind (get_ws ws_wr_close) (\<lambda>wr_close.
        act_bind
          (if \<not> wr_close then
             act_bind (on_ws (\<lambda>s. s\<lparr>ws_wr_close := True\<rparr>)) (\<lambda>_. do_write_close cf (cr_of_code code))
           else act_ret ()) (\<lambda>_.
        act_bind (get_ws call_teardown) (\<lambda>ec.
        act_bind (on_ws (\<lambda>s. s\<lparr>ws_failed := True\<rparr>)) (\<lambda>_.
        case ec of Some e \<Rightarrow> act_err (Return e) | None \<Rightarrow> act_err (Return Ec_failed)))))
      else
        act_bind (get_ws call_teardown) (\<lambda>ec.
        act_bind (on_ws (\<lambda>s. s\<lparr>ws_failed := True\<rparr>)) (\<lambda>_.
        case ec of Some e \<Rightarrow> act_err (Return e) | None \<Rightarrow> act_err (Return Ec_closed))))"

definition read_frame :: "'z ws_cfg \<Rightarrow> 'b dynbuf \<Rightarrow> ('z, 'b, opcode \<times> bool) wsact" where
  "read_frame cf db st =
     (case read_frame_loop cf db st of
        (Err (Goto_close code), st) \<Rightarrow> do_close cf code st
      | r \<Rightarrow> r)"

lemma read_frame_loop_takes: "read_frame_loop cf db st = (Ok fi, st') \<Longrightarrow> inputs st' < inputs st"
proof (induction "inputs st" arbitrary: st rule: less_induct)
  case less
  obtain r st1 where r: "read_frame_round cf db st = (r, st1)" by (cases "read_frame_round cf db st")
  show ?case
  proof (cases r)
    case (Ok x)
    with r have lt: "inputs st1 < inputs st" by (auto dest: read_frame_round_takes)
    show ?thesis
    proof (cases x)
      case None
      with less.prems r Ok have "read_frame_loop cf db st1 = (Ok fi, st')"
        by (simp add: read_frame_loop.simps [of cf db st])
      with less.hyps [OF lt] lt show ?thesis by simp
    qed (use less.prems r Ok lt in \<open>simp add: read_frame_loop.simps [of cf db st]\<close>)
  qed (use less.prems r in \<open>auto simp: read_frame_loop.simps [of cf db st]\<close>)
qed

definition leaves :: "('s, 'e, 'a) act \<Rightarrow> bool" where
  "leaves m \<longleftrightarrow> (\<forall>st x st'. m st \<noteq> (Ok x, st'))"

lemma leaves_bind: "(\<And>a. leaves (f a)) \<Longrightarrow> leaves (act_bind m f)"
  by (auto simp: leaves_def act_bind_def split: prod.splits outcome.splits)

lemma leaves_err: "leaves (act_err e)"
  by (simp add: leaves_def)

lemma leaves_if: "leaves m \<Longrightarrow> leaves n \<Longrightarrow> leaves (if b then m else n)"
  by simp

lemma leaves_option: "leaves m \<Longrightarrow> (\<And>e. leaves (n e)) \<Longrightarrow> leaves (case ec of None \<Rightarrow> m | Some e \<Rightarrow> n e)"
  by (cases ec) simp_all

lemma do_close_leaves: "leaves (do_close cf code)"
  unfolding do_close_def by (intro leaves_if leaves_bind leaves_option leaves_err)

lemma do_close_not_Ok: "do_close cf code st \<noteq> (Ok x, st')"
  by (metis do_close_leaves leaves_def)

lemma read_frame_takes: "read_frame cf db st = (Ok fi, st') \<Longrightarrow> inputs st' < inputs st"
  by (auto simp: read_frame_def do_close_not_Ok read_frame_loop_takes
      split: prod.splits outcome.splits leave.splits)

function read_message :: "'z ws_cfg \<Rightarrow> 'b dynbuf \<Rightarrow> ('z, 'b, opcode) wsact" where
  "read_message cf db st =
     (case read_frame cf db st of
        (Ok (op, fin), st) \<Rightarrow> if fin then (Ok op, st) else read_message cf db st
      | (Err e, st) \<Rightarrow> (Err e, st)
      | (Oob, st) \<Rightarrow> (Oob, st))"
  by pat_completeness auto
termination
  by (relation "measure (\<lambda>(cf, db, st). inputs st)") (auto dest: read_frame_takes [OF sym])

declare read_message.simps [simp del]

section \<open>write\_frame and write\<close>

text \<open>
  Writing does not touch the dynamic buffer of a reader: the second part of the state is left
  alone. \<open>xs\<close> is what remains of the caller's buffers.
\<close>

definition write_header :: "frame_header \<Rightarrow> bytes \<Rightarrow> ('z, 'b, unit) wsact" where
  "write_header fh xs = (\<lambda>st.
     case write_fh static_db fh (static_reset (replicate 14 0)) of
       Ok fb \<Rightarrow> net_write (concat (static_data fb) @ xs) st
     | Err _ \<Rightarrow> (Err Throw, st) | Oob \<Rightarrow> (Oob, st))"

definition draw_key :: "('z, 'b, u32) wsact" where
  "draw_key = (\<lambda>(s, d).
     case next_key s of
       Ok (key, s) \<Rightarrow> (Ok key, (s, d)) | Err e \<Rightarrow> (Err e, (s, d)) | Oob \<Rightarrow> (Oob, (s, d)))"

definition set_wr_cont :: "bool \<Rightarrow> ('z, 'b, unit) wsact" where
  "set_wr_cont b = on_ws (\<lambda>s. s\<lparr>ws_wr_cont := b\<rparr>)"

text \<open>No mask, autofrag.\<close>

function write_plain :: "frame_header \<Rightarrow> bool \<Rightarrow> nat \<Rightarrow> bytes \<Rightarrow> ('z, 'b, unit) wsact" where
  "write_plain fh fin sz xs st =
     (let n = min (length xs) sz; remain = length xs - n;
          fh = fh\<lparr>fh_len := of_nat n, fh_fin := (if fin then remain = 0 else False)\<rparr>
      in case act_bind (set_wr_cont (\<not> fin)) (\<lambda>_. write_header fh (take n xs)) st of
           (Ok _, st) \<Rightarrow>
             if remain = 0 then (Ok (), st)
             else if n = 0 then (Oob, st)
             else write_plain (fh\<lparr>fh_op := Op_cont\<rparr>) fin sz (drop n xs) st
         | (Err e, st) \<Rightarrow> (Err e, st)
         | (Oob, st) \<Rightarrow> (Oob, st))"
  by pat_completeness auto
termination by (relation "measure (\<lambda>(fh, fin, sz, xs, st). length xs)") auto

declare write_plain.simps [simp del]

text \<open>Mask, no autofrag: the rest of the payload after the first buffer full.\<close>

function write_masked_rest :: "'z ws_cfg \<Rightarrow> nat \<Rightarrow> u64 \<Rightarrow> bytes \<Rightarrow> ('z, 'b, unit) wsact" where
  "write_masked_rest cf sz key xs st =
     (if xs = [] then (Ok (), st)
      else
        let n = min (length xs) sz in
        case act_bind (lift_ub (mask_octets (cf_addr cf) key (take n xs))) (\<lambda>(ys, key).
               act_bind (net_write ys) (\<lambda>_. act_ret key)) st of
          (Ok key, st) \<Rightarrow>
            if n = 0 then (Oob, st) else write_masked_rest cf sz key (drop n xs) st
        | (Err e, st) \<Rightarrow> (Err e, st)
        | (Oob, st) \<Rightarrow> (Oob, st))"
  by pat_completeness auto
termination by (relation "measure (\<lambda>(cf, sz, key, xs, st). length xs)") auto

declare write_masked_rest.simps [simp del]

text \<open>Mask, autofrag.\<close>

definition write_masked_frame :: "'z ws_cfg \<Rightarrow> frame_header \<Rightarrow> bool \<Rightarrow> nat \<Rightarrow> bytes \<Rightarrow> ('z, 'b, unit) wsact" where
  "write_masked_frame cf fh fin sz xs =
     (let n = min (length xs) sz; remain = length xs - n in
      act_bind draw_key (\<lambda>key.
      act_bind (lift_ub (mask_octets (cf_addr cf) (prepare_key64 key) (take n xs))) (\<lambda>(ys, _).
      let fh = fh\<lparr>fh_key := key, fh_len := of_nat n, fh_fin := (if fin then remain = 0 else False)\<rparr> in
      act_bind (set_wr_cont (\<not> fh_fin fh)) (\<lambda>_. write_header fh ys))))"

function write_masked_frag :: "'z ws_cfg \<Rightarrow> frame_header \<Rightarrow> bool \<Rightarrow> nat \<Rightarrow> bytes \<Rightarrow> ('z, 'b, unit) wsact" where
  "write_masked_frag cf fh fin sz xs st =
     (let n = min (length xs) sz; remain = length xs - n in
      case write_masked_frame cf fh fin sz xs st of
        (Ok _, st) \<Rightarrow>
          if remain = 0 then (Ok (), st)
          else if n = 0 then (Oob, st)
          else write_masked_frag cf (fh\<lparr>fh_op := Op_cont\<rparr>) fin sz (drop n xs) st
      | (Err e, st) \<Rightarrow> (Err e, st)
      | (Oob, st) \<Rightarrow> (Oob, st))"
  by pat_completeness auto
termination by (relation "measure (\<lambda>(cf, fh, fin, sz, xs, st). length xs)") auto

declare write_masked_frag.simps [simp del]

text \<open>
  The compressing loop: a round gives what is left of the input and whether the loop ends. A
  round that neither consumes input nor ends the loop may repeat for ever; it ends in \<open>Oob\<close>
  when the round left the input as it was and produced a full buffer of output all the same.
\<close>

definition do_deflate :: "'z ws_cfg \<Rightarrow> bytes \<Rightarrow> bool \<Rightarrow> ('z, 'b, bytes \<times> bytes \<times> bool) wsact" where
  "do_deflate cf xs fin = (\<lambda>(s, d).
     case ws_pmd s of
       None \<Rightarrow> (Oob, (s, d))
     | Some p \<Rightarrow>
         (case cd_deflate (cf_codec cf) (ws_wr_buf_size s) xs fin (pmd_zo p) of
            ((out, k, again, ec), z) \<Rightarrow>
              let s = s\<lparr>ws_pmd := Some (p\<lparr>pmd_zo := z\<rparr>)\<rparr> in
              (case ec of
                 Some e \<Rightarrow> (Err (Return e), (s\<lparr>ws_failed := True\<rparr>, d))
               | None \<Rightarrow> (Ok (out, drop k xs, again), (s\<lparr>ws_failed := False\<rparr>, d)))))"

definition deflate_round :: "'z ws_cfg \<Rightarrow> frame_header \<Rightarrow> bool \<Rightarrow> bytes \<Rightarrow>
    ('z, 'b, frame_header \<times> bytes \<times> bool) wsact" where
  "deflate_round cf fh fin xs =
     act_bind (do_deflate cf xs fin) (\<lambda>(out, rest, again).
     if out = [] then
       if fin \<or> rest \<noteq> [] then act_oob else act_ret (fh\<lparr>fh_fin := False\<rparr>, rest, False)
     else
       act_bind (if fh_mask fh then draw_key else act_ret (fh_key fh)) (\<lambda>key.
       act_bind (if fh_mask fh then lift_ub (mask_octets (cf_addr cf) (prepare_key64 key) out)
                 else act_ret (out, 0)) (\<lambda>(ys, _).
       let fh = fh\<lparr>fh_key := key, fh_fin := \<not> again, fh_len := of_nat (length out)\<rparr> in
       act_bind (set_wr_cont (\<not> fin)) (\<lambda>_.
       act_bind (write_header fh ys) (\<lambda>_.
       act_ret (if again then fh\<lparr>fh_op := Op_cont, fh_rsv1 := False\<rparr> else fh, rest, again))))))"

text \<open>
  The number of rounds depends on the encoder and has no bound in this code: the loop is a
  partial function, \<open>None\<close> when it does not end.
\<close>

partial_function (option) write_deflate :: "'z ws_cfg \<Rightarrow> frame_header \<Rightarrow> bool \<Rightarrow> bytes \<Rightarrow> 'z ws \<times> 'b \<Rightarrow>
    ((leave, frame_header) outcome \<times> 'z ws \<times> 'b) option" where
  "write_deflate cf fh fin xs st =
     (case deflate_round cf fh fin xs st of
        (Ok (fh, rest, again), st) \<Rightarrow>
          if again then write_deflate cf fh fin rest st else Some (Ok fh, st)
      | (Err e, st) \<Rightarrow> Some (Err e, st)
      | (Oob, st) \<Rightarrow> Some (Oob, st))"

definition deflate_done :: "'z ws_cfg \<Rightarrow> frame_header \<Rightarrow> 'z ws \<Rightarrow> 'z ws" where
  "deflate_done cf fh s =
     (if fh_fin fh \<and> (ws_role s = Client \<and> pd_client_no_context_takeover (ws_pmd_config s) \<or>
                      ws_role s = Server \<and> pd_server_no_context_takeover (ws_pmd_config s))
      then s\<lparr>ws_pmd := map_option (\<lambda>p. p\<lparr>pmd_zo := cd_zo_again (cf_codec cf) (pmd_zo p)\<rparr>) (ws_pmd s)\<rparr>
      else s)"

text \<open>\<open>write_frame\<close>: the header is set up from the state, then one of the five ways to send.\<close>

definition write_setup :: "'z ws \<Rightarrow> frame_header \<times> 'z ws" where
  "write_setup s =
     (let (rsv1, s) = (if \<not> ws_wr_cont s then let s = wr_begin s in (ws_wr_compress s, s) else (False, s))
      in (fh_uninit\<lparr>fh_rsv1 := rsv1, fh_rsv2 := False, fh_rsv3 := False,
            fh_op := (if ws_wr_cont s then Op_cont else ws_wr_opcode s),
            fh_mask := (ws_role s = Client)\<rparr>, s))"

definition write_uncompressed :: "'z ws_cfg \<Rightarrow> frame_header \<Rightarrow> bool \<Rightarrow> bytes \<Rightarrow> ('z, 'b, unit) wsact" where
  "write_uncompressed cf fh fin xs =
     act_bind (get_ws (\<lambda>s. (ws_wr_autofrag s, ws_wr_buf_size s))) (\<lambda>(autofrag, sz).
     if \<not> fh_mask fh then
       if \<not> autofrag then
         act_bind (set_wr_cont (\<not> fin)) (\<lambda>_.
         write_header (fh\<lparr>fh_fin := fin, fh_len := of_nat (length xs)\<rparr>) xs)
       else if sz = 0 then act_oob
       else write_plain fh fin sz xs
     else if \<not> autofrag then
       act_bind draw_key (\<lambda>key.
       let fh = fh\<lparr>fh_fin := fin, fh_len := of_nat (length xs), fh_key := key\<rparr>;
           n = min (length xs) sz
       in act_bind (lift_ub (mask_octets (cf_addr cf) (prepare_key64 key) (take n xs))) (\<lambda>(ys, key).
          act_bind (set_wr_cont (\<not> fin)) (\<lambda>_.
          act_bind (write_header fh ys) (\<lambda>_.
          write_masked_rest cf sz key (drop n xs)))))
     else if sz = 0 then act_oob
     else write_masked_frag cf fh fin sz xs)"

definition write_frame :: "'z ws_cfg \<Rightarrow> bool \<Rightarrow> bytes \<Rightarrow> 'z ws \<times> 'b \<Rightarrow>
    ((leave, unit) outcome \<times> 'z ws \<times> 'b) option" where
  "write_frame cf fin xs = (\<lambda>(s, d).
     let (fh, s) = write_setup s in
     if ws_wr_compress s then
       (case write_deflate cf fh fin xs (s, d) of
          None \<Rightarrow> None
        | Some (Ok fh, (s, d)) \<Rightarrow> Some (Ok (), (deflate_done cf fh s, d))
        | Some (Err e, st) \<Rightarrow> Some (Err e, st)
        | Some (Oob, st) \<Rightarrow> Some (Oob, st))
     else Some (write_uncompressed cf fh fin xs (s, d)))"

definition write_message :: "'z ws_cfg \<Rightarrow> bytes \<Rightarrow> 'z ws \<times> 'b \<Rightarrow> ((leave, unit) outcome \<times> 'z ws \<times> 'b) option" where
  "write_message cf xs = write_frame cf True xs"

section \<open>close, ping, pong\<close>

definition close_stream :: "'z ws_cfg \<Rightarrow> close_reason \<Rightarrow> ('z, 'b, unit) wsact" where
  "close_stream cf cr =
     act_bind (get_ws ws_wr_close) (\<lambda>wr_close.
     if wr_close then act_oob
     else act_bind (on_ws (\<lambda>s. s\<lparr>ws_wr_close := True\<rparr>)) (\<lambda>_. do_write_close cf cr))"

text \<open>These two leave \<open>failed_\<close> alone, also when the write fails.\<close>

definition keep_failed :: "('z, 'b, 'a) wsact \<Rightarrow> ('z, 'b, 'a) wsact" where
  "keep_failed m st = (case m st of (r, (s, d)) \<Rightarrow> (r, (s\<lparr>ws_failed := ws_failed (fst st)\<rparr>, d)))"

definition ping_stream :: "'z ws_cfg \<Rightarrow> bytes \<Rightarrow> ('z, 'b, unit) wsact" where
  "ping_stream cf payload = keep_failed (do_write_ping cf Op_ping payload)"

definition pong_stream :: "'z ws_cfg \<Rightarrow> bytes \<Rightarrow> ('z, 'b, unit) wsact" where
  "pong_stream cf payload = keep_failed (do_write_ping cf Op_pong payload)"

section \<open>Options\<close>

definition set_auto_fragment :: "bool \<Rightarrow> 'z ws \<Rightarrow> 'z ws" where
  "set_auto_fragment v s = s\<lparr>ws_wr_autofrag_opt := v\<rparr>"

definition set_message_type :: "opcode \<Rightarrow> 'z ws \<Rightarrow> (unit, 'z ws) outcome" where
  "set_message_type op s =
     (if op \<noteq> Op_binary \<and> op \<noteq> Op_text then Err () else Ok (s\<lparr>ws_wr_opcode := op\<rparr>))"

definition set_read_message_max :: "u64 \<Rightarrow> 'z ws \<Rightarrow> 'z ws" where
  "set_read_message_max n s = s\<lparr>ws_rd_msg_max := n\<rparr>"

text \<open>The option objects refuse sizes below eight and other opcodes when they are built:
  \<open>std::invalid_argument\<close>.\<close>

definition set_read_buffer_size :: "nat \<Rightarrow> 'z ws \<Rightarrow> (unit, 'z ws) outcome" where
  "set_read_buffer_size n s = (if n < 8 then Err () else Ok (s\<lparr>ws_rd_buf_size_opt := n\<rparr>))"

definition set_write_buffer_size :: "nat \<Rightarrow> 'z ws \<Rightarrow> (unit, 'z ws) outcome" where
  "set_write_buffer_size n s = (if n < 8 then Err () else Ok (s\<lparr>ws_wr_buf_size_opt := n\<rparr>))"

definition ws_reset :: "'z ws \<Rightarrow> 'z ws" where
  "ws_reset s = s\<lparr>ws_failed := False, ws_rd_cont := False, ws_wr_close := False, ws_wr_cont := False\<rparr>"

end
