(* ===== verification/Ws_Exchange.thy ===== *)
theory Ws_Exchange
  imports Ws_Stream
begin

text \<open>
  What one WebSocket endpoint writes the other reads: headers and payloads of data frames,
  masked or not, whole messages however they are fragmented and however the network cuts
  them, control frames in between.
\<close>

section \<open>Reading a header\<close>

lemma fb_read_Ok:
  assumes fb: "static_inv fb" "n \<le> static_room fb" and net: "nt_in (ws_net s) = xs @ r" "length xs = n"
  shows "\<exists>fb'. fb_read n fb (s, d) =
      (Ok fb', (s\<lparr>ws_net := ws_net s\<lparr>nt_in := r\<rparr>, ws_failed := False\<rparr>, d)) \<and>
    static_inv fb' \<and> db_contents static_db fb' = db_contents static_db fb @ xs \<and>
    static_room fb' = static_room fb - n"
proof -
  obtain fb' where a: "db_append static_db xs fb = Ok fb'" "static_inv fb'"
    "db_contents static_db fb' = db_contents static_db fb @ xs" "static_room fb' = static_room fb - length xs"
    by (rule static.append_ok [OF fb(1), of xs]) (use fb(2) net(2) in auto)
  from a(1) obtain fb1 where p: "static_prepare n fb = Ok fb1" "fb' = static_commit n (static_store xs fb1)"
    using net(2) by (auto simp: db_append_def ob_eq_Ok)
  have "fb_read n fb (s, d) = (Ok fb', (s\<lparr>ws_net := ws_net s\<lparr>nt_in := r\<rparr>, ws_failed := False\<rparr>, d))"
    using net p by (simp add: fb_read_def lift_throw_def net_read_def act_bind_def act_defs Let_def)
  with a net(2) show ?thesis by blast
qed

lemma static_room_frame [simp]: "static_inv frame_streambuf" "static_room frame_streambuf = 139"
    "db_contents static_db frame_streambuf = []"
  by (simp_all add: frame_streambuf_def del: static_contents)

lemma fh_check_role: "fh_check fh s = (ok, s') \<Longrightarrow> ws_role s' = ws_role s \<and> ws_net s' = ws_net s \<and>
    ws_rd_size s' = ws_rd_size s \<and> ws_failed s' = ws_failed s"
  by (auto simp: fh_check_def split: if_splits)

lemma fh_check_net:
  "fh_check fh s = (ok, s') \<Longrightarrow>
     fh_check fh (s\<lparr>ws_net := nt, ws_failed := f\<rparr>) = (ok, s'\<lparr>ws_net := nt, ws_failed := f\<rparr>)"
  by (auto simp: fh_check_def pmd_is_set_def split: if_splits)

text \<open>The object after a header was read.\<close>

definition after_header :: "frame_header \<Rightarrow> bytes \<Rightarrow> 'z ws \<Rightarrow> 'z ws" where
  "after_header fh r s =
     fh_accept fh (snd (fh_check fh (s\<lparr>ws_net := ws_net s\<lparr>nt_in := r\<rparr>, ws_failed := False\<rparr>)))"

lemma fh_accept_failed: "ws_failed s = False \<Longrightarrow> (fh_accept fh s)\<lparr>ws_failed := False\<rparr> = fh_accept fh s"
  by (cases s) (auto simp: fh_accept_def)

lemma read_header_ok:
  assumes net: "nt_in (ws_net s) = fh_encode fh @ r"
    and check: "fst (fh_check fh s)" and role: "fh_mask fh \<longleftrightarrow> ws_role s = Server"
    and key: "\<not> fh_mask fh \<longrightarrow> fh_key fh = 0"
    and size: "fh_op fh = Op_cont \<longrightarrow> ws_rd_size s \<le> - 1 - fh_len fh"
  shows "\<exists>fb. read_header (s, d) = (Ok (fh, fb), (after_header fh r s, d)) \<and>
    static_inv fb \<and> db_contents static_db fb = [] \<and> 139 - length (fh_encode fh) \<le> static_room fb"
proof -
  obtain s' where c: "fh_check fh s = (True, s')" using check by (cases "fh_check fh s") auto
  define s1 where "s1 = s\<lparr>ws_net := ws_net s\<lparr>nt_in := fh_rest fh @ r\<rparr>, ws_failed := False\<rparr>"
  define s2 where "s2 = s'\<lparr>ws_net := ws_net s\<lparr>nt_in := fh_rest fh @ r\<rparr>, ws_failed := False\<rparr>"
  define s3 where "s3 = s'\<lparr>ws_net := ws_net s\<lparr>nt_in := r\<rparr>, ws_failed := False\<rparr>"
  have "nt_in (ws_net s) = fh_first fh @ (fh_rest fh @ r)" using net by (simp add: fh_encode_split)
  from fb_read_Ok [OF static_room_frame(1) _ this length_fh_first, of d] obtain fb1 where
    fb1: "fb_read 2 frame_streambuf (s, d) = (Ok fb1, (s1, d))" "static_inv fb1"
    "db_contents static_db fb1 = fh_first fh" "static_room fb1 = 137"
    by (auto simp: s1_def simp del: static_contents)
  have c1: "fh_check fh s1 = (True, s2)"
    unfolding s1_def s2_def by (rule fh_check_net [OF c])
  have role1: "fh_mask fh \<longleftrightarrow> ws_role s1 = Server" using role by (simp add: s1_def)
  from fb1(3) have "db_contents static_db fb1 = fh_first fh @ []" by simp
  from static.read_fh1_first [OF fb1(2) this c1 role1, of fh_uninit] obtain fb2 where
    fb2: "read_fh1 static_db fh_uninit fb1 s1 = Ok ((cc_none, length (fh_rest fh)),
       fh\<lparr>fh_len := short_len (fh_len fh), fh_key := 0\<rparr>, fb2, s2)" "static_inv fb2"
    "db_contents static_db fb2 = []" "137 \<le> static_room fb2"
    using fb1(4) by (auto simp: fh_uninit_def simp del: static_contents)
  let ?h = "fh\<lparr>fh_len := short_len (fh_len fh), fh_key := 0\<rparr>"
  have lr: "length (fh_rest fh) \<le> 12" "length (fh_rest fh) = length (fh_encode fh) - 2"
    "2 \<le> length (fh_encode fh)"
    using fh_encode_bound [of fh] by (simp_all add: fh_encode_split)
  have "\<exists>fb3. (if length (fh_rest fh) > 0 then fb_read (length (fh_rest fh)) fb2 else act_ret fb2) (s2, d) =
      (Ok fb3, (s3, d)) \<and> static_inv fb3 \<and> db_contents static_db fb3 = fh_rest fh \<and>
      static_room fb2 - length (fh_rest fh) \<le> static_room fb3"
  proof (cases "fh_rest fh = []")
    case True
    then show ?thesis using fb2 by (simp add: s2_def s3_def del: static_contents)
  next
    case False
    have "nt_in (ws_net s2) = fh_rest fh @ r" by (simp add: s2_def)
    from fb_read_Ok [OF fb2(2) _ this refl, of d] fb2(3,4) lr False show ?thesis
      by (fastforce simp: s2_def s3_def simp del: static_contents)
  qed
  then obtain fb3 where fb3:
    "(if length (fh_rest fh) > 0 then fb_read (length (fh_rest fh)) fb2 else act_ret fb2) (s2, d) =
      (Ok fb3, (s3, d))" "static_inv fb3" "db_contents static_db fb3 = fh_rest fh"
      "static_room fb2 - length (fh_rest fh) \<le> static_room fb3" by blast
  have size3: "fh_op fh = Op_cont \<longrightarrow> ws_rd_size s3 \<le> - 1 - fh_len fh"
    using size fh_check_role [OF c] by (simp add: s3_def)
  from fb3(3) have "db_contents static_db fb3 = fh_rest fh @ []" by simp
  from static.read_fh2_rest [OF fb3(2) this key size3, of 0] obtain fb4 where
    fb4: "read_fh2 static_db ?h fb3 s3 = Ok (cc_none, fh, fb4, fh_accept fh s3)"
    "static_inv fb4" "db_contents static_db fb4 = []" "static_room fb3 \<le> static_room fb4" by blast
  have "read_header (s, d) = (Ok (fh, fb4), ((fh_accept fh s3)\<lparr>ws_failed := False\<rparr>, d))"
    using fb1(1) fb2(1) fb3(1) fb4(1)
    by (simp add: read_header_def do_fh1_def do_fh2_def on_ws_def act_defs)
  moreover have "(fh_accept fh s3)\<lparr>ws_failed := False\<rparr> = after_header fh r s"
  proof -
    have "fh_check fh (s\<lparr>ws_net := ws_net s\<lparr>nt_in := r\<rparr>, ws_failed := False\<rparr>) = (True, s3)"
      unfolding s3_def by (rule fh_check_net [OF c])
    then show ?thesis by (simp add: after_header_def fh_accept_failed s3_def)
  qed
  ultimately show ?thesis
    using fb4 fb3(4) fb2(4) lr by (intro exI [of _ fb4]) auto
qed

section \<open>Reading a payload\<close>

text \<open>
  The text received so far, with what is still to come of the message, is well-formed UTF-8; a
  binary message does not touch the checker.
\<close>

definition utf8_ready :: "'z ws \<Rightarrow> bytes \<Rightarrow> bool" where
  "utf8_ready s fut \<longleftrightarrow> utf8_inv (ws_rd_utf8 s) \<and>
     (if ws_rd_op s = Op_text then utf8_text (utf_have (ws_rd_utf8 s) @ fut) else utf_have (ws_rd_utf8 s) = [])"

lemma utf8_complete_need:
  assumes "utf8_inv c" "utf8_text (utf_have c)"
  shows "utf_need c = 0"
proof (rule ccontr)
  assume need: "utf_need c \<noteq> 0"
  with assms(1) have ne: "utf_have c \<noteq> []" "needed (hd (utf_have c)) = length (utf_have c) + utf_need c"
    by (auto simp: utf8_inv_def)
  from assms(2) ne(1) obtain q r where q: "utf_have c = q @ r" "utf8_seq q" "q \<noteq> []" by (rule text_front)
  with needed_seq [OF q(2)] ne(2) need show False by simp
qed

lemma payload_utf8_ok:
  assumes ready: "utf8_ready s (p @ fut)" and fin: "fin \<longrightarrow> fut = []"
  shows "\<exists>c. payload_utf8 cf fin p (s, d) = (Ok (), (s\<lparr>ws_rd_utf8 := c\<rparr>, d)) \<and>
    utf8_ready (s\<lparr>ws_rd_utf8 := c\<rparr>) fut \<and> (ws_rd_op s = Op_text \<longrightarrow> fin \<longrightarrow> c = utf8_init)"
proof (cases "ws_rd_op s = Op_text")
  case False
  with ready show ?thesis
    by (intro exI [of _ "ws_rd_utf8 s"]) (simp add: payload_utf8_def utf8_ready_def)
next
  case True
  with ready have "utf8_inv (ws_rd_utf8 s)" "utf8_text (utf_have (ws_rd_utf8 s) @ p @ fut)"
    by (simp_all add: utf8_ready_def)
  from utf8_write_complete [OF this] obtain c where
    c: "utf8_write (cf_aligned cf) p (ws_rd_utf8 s) = Ok (True, c)" "utf8_inv c" "utf8_text (utf_have c @ fut)"
    by blast
  show ?thesis
  proof (cases fin)
    case False
    with True c show ?thesis
      by (intro exI [of _ c]) (simp add: payload_utf8_def utf8_ready_def)
  next
    case fin': True
    with fin c(3) have "utf_need c = 0" by (intro utf8_complete_need [OF c(2)]) simp
    then have "utf8_finish c = (True, utf8_init)" by (simp add: utf8_finish_def utf8_init_def)
    moreover have "utf_have utf8_init = []" by (simp add: utf8_init_def)
    ultimately show ?thesis
      using True c(1) fin' fin
      by (intro exI [of _ utf8_init]) (simp add: payload_utf8_def utf8_ready_def sequences.none)
  qed
qed

text \<open>The payload as it is on the wire, and the key left after \<open>k\<close> octets.\<close>

definition wire_octets :: "bool \<Rightarrow> u64 \<Rightarrow> bytes \<Rightarrow> bytes" where
  "wire_octets msk key p = (if msk then xor_stream (key_stream 8 key) p else p)"

lemma length_wire_octets [simp]: "length (wire_octets msk key p) = length p"
  by (simp add: wire_octets_def)

lemma wire_octets_empty [simp]: "wire_octets msk key p = [] \<longleftrightarrow> p = []"
  using length_wire_octets [of msk key p] by (metis length_0_conv)

lemma wire_octets_nil [simp]: "wire_octets msk key [] = []"
  by simp

lemma unmask_wire:
  fixes cf :: "'z ws_cfg" and st :: "'z ws \<times> 'b"
  shows "\<exists>key'. unmask_octets cf msk key (wire_octets msk key p) st = (Ok (p, key'), st) \<and>
    (\<forall>q. wire_octets msk key (p @ q) = wire_octets msk key p @ wire_octets msk key' q)"
proof (cases msk)
  case True
  from mask64.mask_one [of "cf_addr cf" key "wire_octets msk key p"] obtain key' where
    k: "mask_inplace_fast64 (cf_addr cf) key (wire_octets msk key p) =
        Ok (xor_stream (key_stream 8 key) (wire_octets msk key p), key')"
    "key_stream 8 key' = (\<lambda>k. key_stream 8 key (length p + k))" by auto
  show ?thesis
    by (intro exI [of _ key'])
      (use k True in \<open>simp add: unmask_octets_def mask_octets_def lift_ub_def wire_octets_def xor_stream_append\<close>)
qed (simp add: unmask_octets_def act_defs wire_octets_def)

text \<open>The changes a payload makes to the object: the network, \<open>failed_\<close> and the UTF-8 state.\<close>

definition net_upto :: "net \<Rightarrow> bytes \<Rightarrow> net \<Rightarrow> bool" where
  "net_upto nt r nt' \<longleftrightarrow> (\<exists>ps. nt' = nt\<lparr>nt_in := r, nt_pieces := ps\<rparr>)"

lemma net_upto_in: "net_upto nt r nt' \<Longrightarrow> nt_in nt' = r"
  by (auto simp: net_upto_def)

lemma net_upto_trans: "net_upto nt r nt1 \<Longrightarrow> net_upto nt1 r' nt2 \<Longrightarrow> net_upto nt r' nt2"
  by (auto simp: net_upto_def)

lemma net_upto_refl: "net_upto nt (nt_in nt) nt"
  unfolding net_upto_def by (intro exI [of _ "nt_pieces nt"]) simp

lemma net_read_some_Ok:
  assumes "nt_in (ws_net s) = w @ r" "w \<noteq> []"
  shows "\<exists>k nt. 0 < k \<and> k \<le> length w \<and>
    net_read_some (length w) (s, d) = (Ok (take k w), (s\<lparr>ws_net := nt, ws_failed := False\<rparr>, d)) \<and>
    net_upto (ws_net s) (drop k w @ r) nt"
proof -
  define k where "k = min (length w) (case nt_pieces (ws_net s) of [] \<Rightarrow> length w | p # _ \<Rightarrow> max 1 p)"
  have k: "0 < k" "k \<le> length w" using assms(2) by (auto simp: k_def split: list.split)
  have "net_read_some (length w) (s, d) = (Ok (take k w),
      (s\<lparr>ws_net := ws_net s\<lparr>nt_in := drop k w @ r, nt_pieces := tl (nt_pieces (ws_net s))\<rparr>, ws_failed := False\<rparr>, d))"
    using assms k by (simp add: net_read_some_def Let_def flip: k_def)
  with k show ?thesis unfolding net_upto_def by blast
qed

context dynamic_buffer
begin

lemma read_payload_ok:
  assumes "inv d" "length p \<le> room d" "nt_in (ws_net s) = wire_octets (fh_mask fh) key p @ r"
    and "utf8_ready s (p @ fut)" "fh_fin fh \<and> p \<noteq> [] \<longrightarrow> fut = []"
  shows "\<exists>nt f c d'. read_payload cf db fh (length p) key (s, d) =
      (Ok (), (s\<lparr>ws_net := nt, ws_failed := f, ws_rd_utf8 := c\<rparr>, d')) \<and>
    net_upto (ws_net s) r nt \<and> inv d' \<and> db_contents db d' = db_contents db d @ p \<and>
    room d' = room d - length p \<and> utf8_ready (s\<lparr>ws_rd_utf8 := c\<rparr>) fut \<and>
    (p = [] \<longrightarrow> c = ws_rd_utf8 s \<and> f = ws_failed s) \<and>
    (p \<noteq> [] \<longrightarrow> fh_fin fh \<longrightarrow> ws_rd_op s = Op_text \<longrightarrow> c = utf8_init)"
  using assms
proof (induction "length p" arbitrary: p key s d rule: less_induct)
  case less
  show ?case
  proof (cases "p = []")
    case True
    have "read_payload cf db fh (length p) key (s, d) = (Ok (), (s, d))"
      using True by (subst read_payload.simps) simp
    moreover have "net_upto (ws_net s) r (ws_net s)"
      using less.prems(3) True net_upto_refl [of "ws_net s"] by simp
    moreover have "utf8_ready s fut" using less.prems(4) True by simp
    ultimately show ?thesis
      using less.prems(1) True
      by (intro exI [of _ "ws_net s"] exI [of _ "ws_failed s"] exI [of _ "ws_rd_utf8 s"] exI [of _ d]) simp
  next
    case False
    let ?w = "wire_octets (fh_mask fh) key p"
    from prepare_ok [OF less.prems(1,2)] obtain d1 where
      d1: "db_prepare db (length p) d = Ok d1" "inv d1" "db_contents db d1 = db_contents db d"
        "prepared d1 = length p" "room d1 = room d" by blast
    from net_read_some_Ok [of s ?w r d1] less.prems(3) False obtain k nt1 where
      k: "0 < k" "k \<le> length p" and
      n1: "net_read_some (length p) (s, d1) = (Ok (take k ?w), (s\<lparr>ws_net := nt1, ws_failed := False\<rparr>, d1))"
        "net_upto (ws_net s) (drop k ?w @ r) nt1" by auto
    obtain key' where u: "unmask_octets cf (fh_mask fh) key (wire_octets (fh_mask fh) key (take k p))
        (s\<lparr>ws_net := nt1, ws_failed := False\<rparr>, d1) = (Ok (take k p, key'), (s\<lparr>ws_net := nt1, ws_failed := False\<rparr>, d1))"
      "\<And>q. wire_octets (fh_mask fh) key (take k p @ q) =
        wire_octets (fh_mask fh) key (take k p) @ wire_octets (fh_mask fh) key' q"
      using unmask_wire [of cf "fh_mask fh" key "take k p"] by metis
    have w: "?w = wire_octets (fh_mask fh) key (take k p) @ wire_octets (fh_mask fh) key' (drop k p)"
      using u(2) [of "drop k p"] by simp
    then have tk: "take k ?w = wire_octets (fh_mask fh) key (take k p)"
      "drop k ?w = wire_octets (fh_mask fh) key' (drop k p)"
      using k(2) by simp_all
    let ?fin = "length p - k = 0 \<and> fh_fin fh"
    let ?s1 = "s\<lparr>ws_net := nt1, ws_failed := False\<rparr>"
    have "take k p @ (drop k p @ fut) = p @ fut" by simp
    then have "utf8_ready ?s1 (take k p @ (drop k p @ fut))" using less.prems(4)
      by (simp only: utf8_ready_def) simp
    moreover have "?fin \<longrightarrow> drop k p @ fut = []" using less.prems(5) False by simp
    ultimately obtain c1 where c1: "payload_utf8 cf ?fin (take k p) (?s1, d1) = (Ok (), (?s1\<lparr>ws_rd_utf8 := c1\<rparr>, d1))"
      "utf8_ready (?s1\<lparr>ws_rd_utf8 := c1\<rparr>) (drop k p @ fut)"
      "ws_rd_op s = Op_text \<longrightarrow> ?fin \<longrightarrow> c1 = utf8_init"
      using payload_utf8_ok [of ?s1 "take k p" "drop k p @ fut" ?fin cf d1] by auto
    let ?s2 = "?s1\<lparr>ws_rd_utf8 := c1\<rparr>"
    define d2 where "d2 = db_commit db (length (take k p)) (db_store db (take k p) d1)"
    have d2: "inv d2" "db_contents db d2 = db_contents db d @ take k p" "room d2 = room d - k"
      using store_commit [OF d1(2), of "take k p"] d1 k by (simp_all add: d2_def)
    have round: "payload_round cf db fh (length p) key (s, d) = (Ok (k, key'), (?s2, d2))"
      using d1(1) n1(1) u(1) c1(1) k False
      by (simp add: payload_round_def db_prepare_act_def tk db_commit_act_def act_defs d2_def act_oob_def)
    have "\<exists>nt f c d'. read_payload cf db fh (length (drop k p)) key' (?s2, d2) =
        (Ok (), (?s2\<lparr>ws_net := nt, ws_failed := f, ws_rd_utf8 := c\<rparr>, d')) \<and>
      net_upto (ws_net ?s2) r nt \<and> inv d' \<and> db_contents db d' = db_contents db d2 @ drop k p \<and>
      room d' = room d2 - length (drop k p) \<and> utf8_ready (?s2\<lparr>ws_rd_utf8 := c\<rparr>) fut \<and>
      (drop k p = [] \<longrightarrow> c = ws_rd_utf8 ?s2 \<and> f = ws_failed ?s2) \<and>
      (drop k p \<noteq> [] \<longrightarrow> fh_fin fh \<longrightarrow> ws_rd_op ?s2 = Op_text \<longrightarrow> c = utf8_init)"
      by (rule less.hyps)
        (use k d2 n1(2) tk c1(2) less.prems False in \<open>auto simp: net_upto_in\<close>)
    then obtain nt f c d' where rest: "read_payload cf db fh (length p - k) key' (?s2, d2) =
        (Ok (), (?s2\<lparr>ws_net := nt, ws_failed := f, ws_rd_utf8 := c\<rparr>, d'))"
      "net_upto nt1 r nt" "inv d'" "db_contents db d' = db_contents db d2 @ drop k p"
      "room d' = room d2 - (length p - k)" "utf8_ready (?s2\<lparr>ws_rd_utf8 := c\<rparr>) fut"
      "drop k p = [] \<longrightarrow> c = c1" "drop k p \<noteq> [] \<longrightarrow> fh_fin fh \<longrightarrow> ws_rd_op s = Op_text \<longrightarrow> c = utf8_init"
      by auto
    have "read_payload cf db fh (length p) key (s, d) =
        (Ok (), (s\<lparr>ws_net := nt, ws_failed := f, ws_rd_utf8 := c\<rparr>, d'))"
      using round rest(1) k False by (subst read_payload.simps) simp
    moreover have "net_upto (ws_net s) r nt" by (rule net_upto_trans [OF n1(2) rest(2)])
    moreover have "utf8_ready (s\<lparr>ws_rd_utf8 := c\<rparr>) fut"
      using rest(6) by (auto simp: utf8_ready_def split: if_splits)
    moreover have "fh_fin fh \<longrightarrow> ws_rd_op s = Op_text \<longrightarrow> c = utf8_init"
      using rest(7,8) c1(3) by (cases "drop k p = []") auto
    ultimately show ?thesis
      using rest(3,4,5) d2 k False by (intro exI [of _ nt] exI [of _ f] exI [of _ c] exI [of _ d']) auto
  qed
qed

end

end
