(* ===== verification/Ws_Message.thy ===== *)
theory Ws_Message
  imports Ws_Exchange Core_Flat_Buffer
begin

text \<open>
  Whole messages: the octets \<open>write_frame\<close> and \<open>write\<close> put on the wire, in any of the ways they
  have to send a payload, and what \<open>read_frame\<close> and \<open>read\<close> make of them at the peer.
\<close>

section \<open>Frames on the wire\<close>

text \<open>A data or control frame as RFC 6455 has it; a client masks with the key, a server does not.\<close>

definition plain_frame :: "role_type \<Rightarrow> opcode \<Rightarrow> bool \<Rightarrow> u32 \<Rightarrow> nat \<Rightarrow> frame_header" where
  "plain_frame role op fin key n =
     \<lparr>fh_op = op, fh_fin = fin, fh_mask = (role = Client), fh_rsv1 = False, fh_rsv2 = False,
      fh_rsv3 = False, fh_len = of_nat n, fh_key = (if role = Client then key else 0)\<rparr>"

definition frame_octets :: "role_type \<Rightarrow> opcode \<Rightarrow> bool \<Rightarrow> u32 \<Rightarrow> bytes \<Rightarrow> bytes" where
  "frame_octets role op fin key p =
     fh_encode (plain_frame role op fin key (length p)) @
     wire_octets (role = Client) (prepare_key64 (fh_key (plain_frame role op fin key (length p)))) p"

text \<open>
  The payloads \<open>ps\<close>, with their keys, in successive frames: the first has the opcode \<open>op\<close>, the
  others continue it; only the last may be final.
\<close>

fun frames_octets :: "role_type \<Rightarrow> opcode \<Rightarrow> bool \<Rightarrow> (u32 \<times> bytes) list \<Rightarrow> bytes" where
  "frames_octets role op fin [] = []"
| "frames_octets role op fin [(key, p)] = frame_octets role op fin key p"
| "frames_octets role op fin ((key, p) # q # ps) =
     frame_octets role op False key p @ frames_octets role Op_cont fin (q # ps)"

lemma frames_octets_Cons:
  "frames_octets role op fin ((key, p) # ps) =
     frame_octets role op (fin \<and> ps = []) key p @ frames_octets role Op_cont fin ps"
  by (cases ps) simp_all

definition payloads :: "(u32 \<times> bytes) list \<Rightarrow> bytes" where
  "payloads ps = concat (map snd ps)"

lemma payloads_simps [simp]: "payloads [] = []" "payloads ((key, p) # ps) = p @ payloads ps"
  by (simp_all add: payloads_def)

section \<open>The reader, a frame at a time\<close>

fun peer :: "role_type \<Rightarrow> role_type" where
  "peer Client = Server"
| "peer Server = Client"

text \<open>
  The reader is between the frames of a message with opcode \<open>op\<close> of which it has read \<open>n\<close>
  octets (\<open>frag\<close>), or has just read the last one; \<open>fut\<close> is what it still has to read.
\<close>

definition receiving :: "role_type \<Rightarrow> u64 \<Rightarrow> opcode \<Rightarrow> bool \<Rightarrow> nat \<Rightarrow> bytes \<Rightarrow> 'z ws \<Rightarrow> bool" where
  "receiving role mx op frag n fut s \<longleftrightarrow>
     ws_role s = role \<and> ws_rd_msg_max s = mx \<and> ws_rd_op s = op \<and> ws_rd_cont s = frag \<and>
     \<not> pmd_reading s \<and> unat (ws_rd_size s) = n \<and> utf8_ready s fut"

text \<open>The reader before a message: nothing is left of the one before.\<close>

definition ready :: "role_type \<Rightarrow> u64 \<Rightarrow> 'z ws \<Rightarrow> bool" where
  "ready role mx s \<longleftrightarrow> ws_role s = role \<and> ws_rd_msg_max s = mx \<and> \<not> ws_rd_cont s \<and>
     utf8_inv (ws_rd_utf8 s) \<and> utf_have (ws_rd_utf8 s) = []"

text \<open>What the next data frame may be.\<close>

definition may_follow :: "role_type \<Rightarrow> u64 \<Rightarrow> opcode \<Rightarrow> opcode \<Rightarrow> nat \<Rightarrow> bytes \<Rightarrow> 'z ws \<Rightarrow> bool" where
  "may_follow role mx op0 op n fut s \<longleftrightarrow>
     (if op = Op_cont then receiving role mx op0 True n fut s
      else (op = Op_text \<or> op = Op_binary) \<and> op = op0 \<and> n = 0 \<and> ready role mx s \<and>
        (op = Op_text \<longrightarrow> utf8_text fut))"

lemma plain_frame_simps [simp]:
  "fh_op (plain_frame role op fin key n) = op" "fh_fin (plain_frame role op fin key n) = fin"
  "fh_mask (plain_frame role op fin key n) \<longleftrightarrow> role = Client" "\<not> fh_rsv1 (plain_frame role op fin key n)"
  "\<not> fh_rsv2 (plain_frame role op fin key n)" "\<not> fh_rsv3 (plain_frame role op fin key n)"
  "fh_len (plain_frame role op fin key n) = of_nat n"
  by (simp_all add: plain_frame_def)

lemma plain_frame_key: "role \<noteq> Client \<Longrightarrow> fh_key (plain_frame role op fin key n) = 0"
  by (simp add: plain_frame_def)

lemma peer_simps [simp]: "peer role = Server \<longleftrightarrow> role = Client" "peer role = Client \<longleftrightarrow> role = Server"
    "peer (peer role) = role" "role \<noteq> Client \<longleftrightarrow> role = Server"
  by (cases role; simp)+

lemma control_ops [simp]: "\<not> is_control Op_cont" "\<not> is_control Op_text" "\<not> is_control Op_binary"
    "is_control Op_ping" "is_control Op_pong" "is_control Op_close"
  by (simp_all add: is_control_def less_eq_opcode_def)

lemma may_follow_ops: "may_follow role mx op0 op n fut s \<Longrightarrow>
    (op = Op_cont \<or> op = Op_text \<or> op = Op_binary) \<and> ws_role s = role \<and> ws_rd_msg_max s = mx"
  by (auto simp: may_follow_def receiving_def ready_def split: if_splits)

lemma after_plain:
  assumes "may_follow role mx op0 op n fut s" and fh: "fh = plain_frame (peer role) op fin key k"
  shows "fst (fh_check fh s)" "receiving role mx op0 (\<not> fin) n fut (after_header fh r s)"
    "nt_in (ws_net (after_header fh r s)) = r"
proof -
  have ops: "op = Op_cont \<or> op = Op_text \<or> op = Op_binary" using may_follow_ops [OF assms(1)] by simp
  then show "fst (fh_check fh s)" "receiving role mx op0 (\<not> fin) n fut (after_header fh r s)"
    "nt_in (ws_net (after_header fh r s)) = r"
    using assms(1)
    by (auto simp: fh fh_check_def may_follow_def receiving_def ready_def after_header_def fh_accept_def
        utf8_ready_def pmd_reading_def split: option.splits)
qed

lemma receiving_rd_begin [simp]: "receiving role mx op frag n fut (rd_begin s) = receiving role mx op frag n fut s"
    "ws_net (rd_begin s) = ws_net s"
  by (simp_all add: receiving_def rd_begin_def utf8_ready_def pmd_reading_def)

lemma act_bind_assoc: "act_bind (act_bind m f) g = act_bind m (\<lambda>a. act_bind (f a) g)"
  by (rule ext) (auto simp: act_bind_def split: prod.split outcome.split)

text \<open>Nothing is written and no callback is called.\<close>

definition quiet :: "'z ws \<Rightarrow> 'z ws \<Rightarrow> bool" where
  "quiet s s' \<longleftrightarrow> nt_out (ws_net s') = nt_out (ws_net s) \<and> nt_writes (ws_net s') = nt_writes (ws_net s) \<and>
     ws_maskgen s' = ws_maskgen s \<and> ws_ping_cb s' = ws_ping_cb s \<and> ws_pings s' = ws_pings s \<and>
     ws_wr_close s' = ws_wr_close s \<and> ws_cr s' = ws_cr s"

lemma quiet_trans: "quiet s s' \<Longrightarrow> quiet s' s'' \<Longrightarrow> quiet s s''"
  by (simp add: quiet_def)

lemma quiet_after_header: "quiet s (after_header fh r s)"
  by (simp add: quiet_def after_header_def fh_accept_def fh_check_def)

text \<open>The limit the size of the message must keep.\<close>

definition fits :: "u64 \<Rightarrow> nat \<Rightarrow> bool" where
  "fits mx n \<longleftrightarrow> n < 2 ^ 64 \<and> (mx \<noteq> 0 \<longrightarrow> n \<le> unat mx)"

lemma fits_mono: "fits mx n \<Longrightarrow> m \<le> n \<Longrightarrow> fits mx m"
  by (auto simp: fits_def)

lemma fits_limit:
  fixes size mx :: u64
  assumes "fits mx (unat size + n)"
  shows "\<not> (mx \<noteq> 0 \<and> of_nat n > mx - size)" "unat (size + of_nat n) = unat size + n"
    "size \<le> - 1 - of_nat n" "unat (of_nat n :: u64) = n"
proof -
  have n: "unat size + n < 2 ^ 64" and le: "mx \<noteq> 0 \<longrightarrow> unat size + n \<le> unat mx"
    using assms by (auto simp: fits_def)
  then show u: "unat (of_nat n :: u64) = n" by simp
  show "\<not> (mx \<noteq> 0 \<and> of_nat n > mx - size)"
  proof (cases "mx = 0")
    case False
    with le have "size \<le> mx" "unat size + n \<le> unat mx" by (simp_all add: word_le_nat_alt)
    then have "unat (mx - size) = unat mx - unat size" by (simp add: unat_sub)
    with \<open>unat size + n \<le> unat mx\<close> u have "\<not> mx - size < of_nat n"
      unfolding word_less_nat_alt by linarith
    then show ?thesis by blast
  qed simp
  have "unat size + unat (of_nat n :: u64) < 2 ^ LENGTH(64)" using n u by simp
  then have "unat (size + of_nat n) = unat size + unat (of_nat n :: u64)" by (rule unat_add_lem [THEN iffD1])
  with u show "unat (size + of_nat n) = unat size + n" by (simp only:)
  have m1: "unat (- 1 :: u64) = 2 ^ 64 - 1" by (simp add: unsigned_minus_1_eq_mask mask_eq_exp_minus_1)
  then have "of_nat n \<le> (- 1 :: u64)" using u n by (simp add: word_le_nat_alt)
  then have "unat (- 1 - of_nat n :: u64) = 2 ^ 64 - 1 - n" by (simp only: unat_sub m1 u)
  with n show "size \<le> - 1 - of_nat n" by (simp add: word_le_nat_alt)
qed

lemma read_round_header:
  assumes f: "may_follow role mx op0 op n fut s" and n: "n + length p < 2 ^ 64"
    and net: "nt_in (ws_net s) = frame_octets (peer role) op fin key p @ r"
  defines "fh \<equiv> plain_frame (peer role) op fin key (length p)"
  shows "read_frame_round cf db (s, d) = data_frame cf db fh
    (after_header fh (wire_octets (fh_mask fh) (prepare_key64 (fh_key fh)) p @ r) s, d)"
proof -
  define w where "w = wire_octets (fh_mask fh) (prepare_key64 (fh_key fh)) p"
  have "nt_in (ws_net s) = fh_encode fh @ (w @ r)"
    using net by (simp add: frame_octets_def fh_def w_def)
  moreover have "fh_mask fh \<longleftrightarrow> ws_role s = Server" "\<not> fh_mask fh \<longrightarrow> fh_key fh = 0"
    using may_follow_ops [OF f] by (auto simp: fh_def plain_frame_def)
  moreover have "fh_op fh = Op_cont \<longrightarrow> ws_rd_size s \<le> - 1 - fh_len fh"
  proof -
    have "fits 0 (n + length p)" using n by (simp add: fits_def)
    with f fits_limit(3) [of 0 "ws_rd_size s" "length p"] show ?thesis
      by (auto simp: fh_def may_follow_def receiving_def)
  qed
  moreover have "fst (fh_check fh s)" unfolding fh_def by (rule after_plain(1) [OF f refl])
  ultimately obtain fb where h: "read_header (s, d) = (Ok (fh, fb), (after_header fh (w @ r) s, d))"
    using read_header_ok [of s fh "w @ r" d] by blast
  have "\<not> is_control (fh_op fh)" using may_follow_ops [OF f] by (auto simp: fh_def)
  with h show ?thesis by (simp add: read_frame_round_def w_def)
qed

context dynamic_buffer
begin

lemma data_frame_ok:
  assumes d: "inv d" "length p \<le> room d" and s: "receiving role mx op0 (\<not> fin) n (p @ fut) s"
    and net: "nt_in (ws_net s) = wire_octets (fh_mask fh) (prepare_key64 (fh_key fh)) p @ r"
    and fh: "fh_len fh = of_nat (length p)" "fh_fin fh = fin"
    and fits: "fits mx (n + length p)" and fut: "fin \<and> p \<noteq> [] \<longrightarrow> fut = []"
  shows "\<exists>s' d'. data_frame cf db fh (s, d) =
      (Ok (if p = [] \<and> \<not> fin then None else Some (op0, fin)), (s', d')) \<and>
    receiving role mx op0 (\<not> fin) (n + length p) fut s' \<and> nt_in (ws_net s') = r \<and>
    quiet s s' \<and> inv d' \<and> db_contents db d' = db_contents db d @ p \<and> room d' = room d - length p"
proof -
  define s1 where "s1 = (if fh_op fh \<noteq> Op_cont then rd_begin s else s)"
  have s1: "receiving role mx op0 (\<not> fin) n (p @ fut) s1" "ws_net s1 = ws_net s" "quiet s s1"
    using s by (simp_all add: s1_def) (simp add: rd_begin_def quiet_def)
  have run: "data_frame cf db fh (s, d) =
     (if p = [] \<and> \<not> fin then act_ret None
     else
       act_bind (get_ws (\<lambda>s. (pmd_reading s, ws_rd_msg_max s, ws_rd_size s))) (\<lambda>(deflated, msg_max, size).
       act_bind
         (if \<not> deflated then
            if msg_max \<noteq> 0 \<and> fh_len fh > msg_max - size then act_err (Goto_close cc_too_big)
            else
              act_bind (on_ws (\<lambda>s. s\<lparr>ws_rd_size := ws_rd_size s + fh_len fh\<rparr>)) (\<lambda>_.
              read_payload cf db fh (unat (fh_len fh)) (prepare_key64 (fh_key fh)))
          else
            act_bind (read_inflate cf db fh (unat (fh_len fh)) (prepare_key64 (fh_key fh))) (\<lambda>_.
            on_ws (inflate_done cf fh))) (\<lambda>_.
       act_bind (get_ws ws_rd_op) (\<lambda>op. act_ret (Some (op, fh_fin fh)))))) (s1, d)"
  proof -
    have "unat (fh_len fh) = length p" using fits by (simp add: fh fits_def)
    then have "fh_len fh = 0 \<longleftrightarrow> p = []" by (metis length_0_conv unat_eq_zero)
    then show ?thesis by (simp add: data_frame_def on_ws_def s1_def fh)
  qed
  show ?thesis
  proof (cases "p = [] \<and> \<not> fin")
    case True
    with run s1 d net show ?thesis
      by (intro exI [of _ s1] exI [of _ d]) simp
  next
    case False
    define s2 where "s2 = s1\<lparr>ws_rd_size := ws_rd_size s1 + fh_len fh\<rparr>"
    from s1(1) have rc: "\<not> pmd_reading s1" "ws_rd_msg_max s1 = mx" "unat (ws_rd_size s1) = n" "ws_rd_op s1 = op0"
      by (simp_all add: receiving_def)
    note lim = fits_limit [of mx "ws_rd_size s1" "length p", unfolded rc(3), OF fits]
    have s2: "receiving role mx op0 (\<not> fin) (n + length p) (p @ fut) s2" "ws_net s2 = ws_net s1"
      using s1(1) lim(2) by (simp_all add: s2_def receiving_def utf8_ready_def pmd_reading_def fh(1))
    have "utf8_ready s2 (p @ fut)" using s2(1) by (simp add: receiving_def)
    from read_payload_ok [OF d _ this, of fh "prepare_key64 (fh_key fh)" r cf]
    obtain nt f c d' where rp: "read_payload cf db fh (length p) (prepare_key64 (fh_key fh)) (s2, d) =
        (Ok (), (s2\<lparr>ws_net := nt, ws_failed := f, ws_rd_utf8 := c\<rparr>, d'))" "net_upto (ws_net s2) r nt"
        "inv d'" "db_contents db d' = db_contents db d @ p" "room d' = room d - length p"
        "utf8_ready (s2\<lparr>ws_rd_utf8 := c\<rparr>) fut"
      using net fut s1(2) s2(2) fh(2) by auto
    let ?s = "s2\<lparr>ws_net := nt, ws_failed := f, ws_rd_utf8 := c\<rparr>"
    have "data_frame cf db fh (s, d) = (Ok (Some (op0, fin)), (?s, d'))"
      using False rp(1) rc lim(1,4)
      by (simp add: run get_ws_def on_ws_def act_bind_assoc fh(2))
        (simp add: s2_def fh(1))
    moreover have "receiving role mx op0 (\<not> fin) (n + length p) fut ?s"
      using s2(1) rp(6) by (auto simp: receiving_def utf8_ready_def pmd_reading_def split: if_splits)
    moreover have "nt_in nt = r" using rp(2) by (auto simp: net_upto_def)
    moreover have "quiet s1 ?s" using rp(2) by (auto simp: net_upto_def quiet_def s2_def)
    with s1(3) have "quiet s ?s" by (rule quiet_trans)
    ultimately show ?thesis
      using False rp(3-5) by (intro exI [of _ ?s] exI [of _ d']) (simp add: s2_def)
  qed
qed

lemma read_round_data:
  assumes d: "inv d" "length p \<le> room d" and f: "may_follow role mx op0 op n (p @ fut) s"
    and net: "nt_in (ws_net s) = frame_octets (peer role) op fin key p @ r"
    and fits: "fits mx (n + length p)" and fut: "fin \<and> p \<noteq> [] \<longrightarrow> fut = []"
  shows "\<exists>s' d'. read_frame_round cf db (s, d) =
      (Ok (if p = [] \<and> \<not> fin then None else Some (op0, fin)), (s', d')) \<and>
    receiving role mx op0 (\<not> fin) (n + length p) fut s' \<and> nt_in (ws_net s') = r \<and>
    quiet s s' \<and> inv d' \<and> db_contents db d' = db_contents db d @ p \<and> room d' = room d - length p"
proof -
  define fh where "fh = plain_frame (peer role) op fin key (length p)"
  let ?w = "wire_octets (fh_mask fh) (prepare_key64 (fh_key fh)) p"
  let ?s = "after_header fh (?w @ r) s"
  have "n + length p < 2 ^ 64" using fits by (simp add: fits_def)
  note run = read_round_header [OF f this net, of cf db d, folded fh_def]
  note a = after_plain(2,3) [OF f fh_def, where r = "?w @ r"]
  from data_frame_ok [OF d a(1) a(2) _ _ fits fut, of cf] quiet_trans [OF quiet_after_header]
  show ?thesis unfolding run by (fastforce simp: fh_def)
qed

end

section \<open>The writer\<close>

text \<open>A writer that can write: its next layer reports no error and it has a mask key generator.\<close>

definition writable :: "'z ws \<Rightarrow> bool" where
  "writable s \<longleftrightarrow> set (nt_writes (ws_net s)) \<subseteq> {None} \<and> maskgen_ok (ws_maskgen s)"

text \<open>\<open>xs\<close> went out, and nothing else happened to the object, mask keys apart.\<close>

definition sent :: "bytes \<Rightarrow> 'z ws \<Rightarrow> 'z ws \<Rightarrow> bool" where
  "sent xs s s' \<longleftrightarrow> writable s' \<and>
     (\<exists>nw g f. s' = s\<lparr>ws_net := (ws_net s)\<lparr>nt_out := nt_out (ws_net s) @ xs, nt_writes := nw\<rparr>,
        ws_maskgen := g, ws_failed := f\<rparr>)"

lemma sent_out:
  assumes "sent xs s s'"
  shows "writable s'" "nt_out (ws_net s') = nt_out (ws_net s) @ xs" "nt_in (ws_net s') = nt_in (ws_net s)"
    "ws_role s' = ws_role s" "ws_wr_buf_size s' = ws_wr_buf_size s" "ws_wr_cont s' = ws_wr_cont s"
    "ws_ping_cb s' = ws_ping_cb s" "ws_pings s' = ws_pings s" "ws_wr_close s' = ws_wr_close s"
    "ws_cr s' = ws_cr s" "receiving role mx op frag n fut s' = receiving role mx op frag n fut s"
    "ready role mx s' = ready role mx s"
  using assms by (auto simp: sent_def receiving_def ready_def utf8_ready_def pmd_reading_def)

lemma sentI: "writable s' \<Longrightarrow> s' = s\<lparr>ws_net := (ws_net s)\<lparr>nt_out := nt_out (ws_net s) @ xs, nt_writes := nw\<rparr>,
    ws_maskgen := g, ws_failed := f\<rparr> \<Longrightarrow> sent xs s s'"
  unfolding sent_def by blast

lemma sent_trans:
  assumes "sent xs s s'" "sent ys s' s''"
  shows "sent (xs @ ys) s s''"
proof -
  from assms obtain nw g f where s'': "writable s''"
    "s'' = s'\<lparr>ws_net := (ws_net s')\<lparr>nt_out := nt_out (ws_net s') @ ys, nt_writes := nw\<rparr>, ws_maskgen := g, ws_failed := f\<rparr>"
    by (auto simp: sent_def)
  show ?thesis
    by (rule sentI [OF s''(1), where nw = nw and g = g and f = f]) (use assms(1) s''(2) in \<open>auto simp: sent_def\<close>)
qed

lemma net_write_sent:
  assumes "writable s"
  shows "\<exists>s'. net_write xs (s, d) = (Ok (), (s', d)) \<and> sent xs s s'"
proof -
  have w: "nt_writes (ws_net s) = [] \<or> (\<exists>r. nt_writes (ws_net s) = None # r)" "set (nt_writes (ws_net s)) \<subseteq> {None}"
    using assms by (cases "nt_writes (ws_net s)"; auto simp: writable_def)+
  let ?s = "s\<lparr>ws_net := (ws_net s)\<lparr>nt_writes := tl (nt_writes (ws_net s)), nt_out := nt_out (ws_net s) @ xs\<rparr>,
    ws_failed := False\<rparr>"
  have "net_write xs (s, d) = (Ok (), (?s, d))" using w(1) by (auto simp: net_write_def Let_def)
  moreover have "writable ?s" using assms w by (auto simp: writable_def)
  then have "sent xs s ?s" by (rule sentI [where nw = "tl (nt_writes (ws_net s))" and g = "ws_maskgen s" and f = False]) simp
  ultimately show ?thesis by blast
qed

lemma next_key_sent:
  assumes "writable s"
  shows "\<exists>key s'. next_key s = Ok (key, s') \<and> sent [] s s'"
proof -
  have "maskgen_ok (ws_maskgen s)" using assms by (simp add: writable_def)
  note g = maskgen_call_Some [OF this] minstd_next_ok [OF this]
  let ?g = "minstd_next (ws_maskgen s)"
  have "sent [] s (s\<lparr>ws_maskgen := ?g\<rparr>)"
    by (rule sentI [where nw = "nt_writes (ws_net s)" and g = ?g and f = "ws_failed s"]) (use assms g in \<open>simp_all add: writable_def\<close>)
  with g(1) show ?thesis by (auto simp: next_key_def)
qed

lemma mask_wire:
  "\<exists>key'. mask_octets addr key p = Ok (wire_octets True key p, key') \<and>
    (\<forall>q. wire_octets True key (p @ q) = wire_octets True key p @ wire_octets True key' q)"
proof -
  from mask64.mask_one [of addr key p] obtain key' where
    "mask_inplace_fast64 addr key p = Ok (xor_stream (key_stream 8 key) p, key')"
    "key_stream 8 key' = (\<lambda>k. key_stream 8 key (length p + k))" by auto
  then show ?thesis
    by (intro exI [of _ key']) (simp add: mask_octets_def wire_octets_def xor_stream_append)
qed

lemma write_header_sent:
  assumes "writable s"
  shows "\<exists>s'. write_header fh xs (s, d) = (Ok (), (s', d)) \<and> sent (fh_encode fh @ xs) s s'"
proof -
  let ?b = "static_reset (replicate 14 0)"
  obtain b where b: "db_append static_db (fh_encode fh) ?b = Ok b" "db_contents static_db b = fh_encode fh"
    using static.append_ok [of ?b "fh_encode fh"] fh_encode_bound [of fh] static_contents_reset
    by (metis append_Nil length_replicate static_inv_reset static_room_reset)
  then have "write_fh static_db fh ?b = Ok b" "concat (static_data b) = fh_encode fh"
    by (simp_all add: write_fh_def static_data_def)
  with net_write_sent [OF assms, of "fh_encode fh @ xs" d] show ?thesis
    by (simp add: write_header_def)
qed

lemma sent_wr_cont: "sent xs s s' \<Longrightarrow> sent xs (s\<lparr>ws_wr_cont := b\<rparr>) (s'\<lparr>ws_wr_cont := b\<rparr>)"
proof -
  assume "sent xs s s'"
  then obtain nw g f where s': "writable s'" "s' = s\<lparr>ws_net := (ws_net s)\<lparr>nt_out := nt_out (ws_net s) @ xs,
    nt_writes := nw\<rparr>, ws_maskgen := g, ws_failed := f\<rparr>" by (auto simp: sent_def)
  show ?thesis
    by (rule sentI [where nw = nw and g = g and f = f]) (use s' in \<open>simp_all add: writable_def\<close>)
qed

lemma writable_wr_cont [simp]: "writable (s\<lparr>ws_wr_cont := b\<rparr>) = writable s"
  by (simp add: writable_def)

lemma plain_frame_update [simp]:
  "(plain_frame role op f key n)\<lparr>fh_len := of_nat m, fh_fin := g\<rparr> = plain_frame role op g key m"
  "(plain_frame role op f key n)\<lparr>fh_fin := g, fh_len := of_nat m\<rparr> = plain_frame role op g key m"
  "(plain_frame role op f key n)\<lparr>fh_op := op'\<rparr> = plain_frame role op' f key n"
  "(plain_frame Client op f key n)\<lparr>fh_key := k\<rparr> = plain_frame Client op f k n"
  by (simp_all add: plain_frame_def)

lemma frame_octets_server: "frame_octets Server op fin key p = fh_encode (plain_frame Server op fin key (length p)) @ p"
  by (simp add: frame_octets_def wire_octets_def)

lemma frame_octets_client: "frame_octets Client op fin key p =
    fh_encode (plain_frame Client op fin key (length p)) @ wire_octets True (prepare_key64 key) p"
  by (simp add: frame_octets_def plain_frame_def)

lemma set_wr_cont_run [simp]: "set_wr_cont b (s, d) = (Ok (), (s\<lparr>ws_wr_cont := b\<rparr>, d))"
  by (simp add: set_wr_cont_def on_ws_def)

lemma bind_wr_cont [simp]: "act_bind (set_wr_cont b) f (s, d) = f () (s\<lparr>ws_wr_cont := b\<rparr>, d)"
  by (rule act_bind_simps(1)) simp

lemma lift_ub_Ok [simp]: "lift_ub (Ok a) st = (Ok a, st)" "act_bind (lift_ub (Ok a)) f st = f a st"
  by (simp_all add: lift_ub_def act_bind_def)

lemma write_plain_sent:
  assumes "writable s" "0 < sz" "fh = plain_frame Server op f key m"
  shows "\<exists>s' ps. write_plain fh fin sz xs (s, d) = (Ok (), (s', d)) \<and> ps \<noteq> [] \<and> payloads ps = xs \<and>
    sent (frames_octets Server op fin ps) (s\<lparr>ws_wr_cont := \<not> fin\<rparr>) s'"
  using assms
proof (induction "length xs" arbitrary: xs s fh op f m rule: less_induct)
  case less
  define n where "n = min (length xs) sz"
  define fh' where "fh' = plain_frame Server op (fin \<and> length xs - n = 0) key n"
  let ?c = "s\<lparr>ws_wr_cont := \<not> fin\<rparr>"
  have n: "n \<le> length xs" by (simp add: n_def)
  from write_header_sent [of ?c fh' "take n xs" d] less.prems(1) obtain s1 where
    s1: "write_header fh' (take n xs) (?c, d) = (Ok (), (s1, d))" "sent (fh_encode fh' @ take n xs) ?c s1" by auto
  have oct: "fh_encode fh' @ take n xs = frame_octets Server op (fin \<and> length xs - n = 0) key (take n xs)"
    using n by (simp add: frame_octets_server fh'_def)
  have run: "write_plain fh fin sz xs (s, d) =
     (if length xs - n = 0 then (Ok (), (s1, d)) else if n = 0 then (Oob, (s1, d))
      else write_plain (fh'\<lparr>fh_op := Op_cont\<rparr>) fin sz (drop n xs) (s1, d))"
  proof -
    have "fh\<lparr>fh_len := of_nat n, fh_fin := (if fin then length xs - n = 0 else False)\<rparr> = fh'"
      using less.prems(3) by (simp add: fh'_def)
    with s1(1) show ?thesis
      by (subst write_plain.simps) (simp only: Let_def bind_wr_cont prod.case outcome.case flip: n_def)
  qed
  show ?case
  proof (cases "length xs - n = 0")
    case True
    with n have "take n xs = xs" by simp
    with True run s1(2) oct show ?thesis by (intro exI [of _ s1] exI [of _ "[(key, xs)]"]) simp
  next
    case False
    with less.prems(2) have lt: "0 < n" "length (drop n xs) < length xs" by (auto simp: n_def)
    have "fh'\<lparr>fh_op := Op_cont\<rparr> = plain_frame Server Op_cont (fin \<and> length xs - n = 0) key n" by (simp add: fh'_def)
    from less.hyps [OF lt(2) sent_out(1) [OF s1(2)] less.prems(2) this] obtain s' ps where
      s': "write_plain (fh'\<lparr>fh_op := Op_cont\<rparr>) fin sz (drop n xs) (s1, d) = (Ok (), (s', d))" "ps \<noteq> []"
      "payloads ps = drop n xs" "sent (frames_octets Server Op_cont fin ps) (s1\<lparr>ws_wr_cont := \<not> fin\<rparr>) s'" by blast
    from sent_trans [OF sent_wr_cont [OF s1(2), of "\<not> fin"] s'(4)] False s' oct run lt show ?thesis
      by (intro exI [of _ s'] exI [of _ "(key, take n xs) # ps"]) (simp add: frames_octets_Cons)
  qed
qed

lemma draw_key_sent:
  assumes "writable s"
  shows "\<exists>key s'. draw_key (s, d) = (Ok key, (s', d)) \<and> sent [] s s'"
proof -
  obtain key s' where "(next_key s :: (leave, _) outcome) = Ok (key, s')" "sent [] s s'"
    using next_key_sent [OF assms] by blast
  then show ?thesis by (simp add: draw_key_def)
qed

lemma write_masked_frame_sent:
  assumes "writable s" "fh = plain_frame Client op f k m" "n = min (length xs) sz"
  shows "\<exists>s' key. write_masked_frame cf fh fin sz xs (s, d) = (Ok (), (s', d)) \<and>
    sent (frame_octets Client op (fin \<and> length xs - n = 0) key (take n xs))
      (s\<lparr>ws_wr_cont := \<not> (fin \<and> length xs - n = 0)\<rparr>) s'"
proof -
  let ?fin = "fin \<and> length xs - n = 0"
  from draw_key_sent [OF assms(1), of d] obtain key s1 where
    s1: "draw_key (s, d) = (Ok key, (s1, d))" "sent [] s s1" by blast
  from mask_wire [of "cf_addr cf" "prepare_key64 key" "take n xs"] obtain key' where
    m: "(mask_octets (cf_addr cf) (prepare_key64 key) (take n xs) :: (unit, _) outcome) =
      Ok (wire_octets True (prepare_key64 key) (take n xs), key')" by blast
  let ?fh = "plain_frame Client op ?fin key n"
  from write_header_sent [of "s1\<lparr>ws_wr_cont := \<not> ?fin\<rparr>" ?fh "wire_octets True (prepare_key64 key) (take n xs)" d]
    sent_out(1) [OF s1(2)] obtain s2 where
    s2: "write_header ?fh (wire_octets True (prepare_key64 key) (take n xs)) (s1\<lparr>ws_wr_cont := \<not> ?fin\<rparr>, d) =
      (Ok (), (s2, d))" "sent (fh_encode ?fh @ wire_octets True (prepare_key64 key) (take n xs)) (s1\<lparr>ws_wr_cont := \<not> ?fin\<rparr>) s2"
    by auto
  have "fh\<lparr>fh_key := key, fh_len := of_nat n, fh_fin := (if fin then length xs - n = 0 else False)\<rparr> = ?fh"
    using assms(2) by simp
  then have "write_masked_frame cf fh fin sz xs (s, d) = (Ok (), (s2, d))"
    using s1(1) m s2(1) by (cases fin) (simp_all add: write_masked_frame_def Let_def not_le flip: assms(3))
  moreover have "length (take n xs) = n" using assms(3) by simp
  ultimately show ?thesis
    using sent_trans [OF sent_wr_cont [OF s1(2)] s2(2)]
    by (intro exI [of _ s2] exI [of _ key]) (simp add: frame_octets_client)
qed

lemma write_masked_frag_sent:
  assumes "writable s" "0 < sz" "fh = plain_frame Client op f k m"
  shows "\<exists>s' ps. write_masked_frag cf fh fin sz xs (s, d) = (Ok (), (s', d)) \<and> ps \<noteq> [] \<and> payloads ps = xs \<and>
    sent (frames_octets Client op fin ps) (s\<lparr>ws_wr_cont := \<not> fin\<rparr>) s'"
  using assms
proof (induction "length xs" arbitrary: xs s fh op f k m rule: less_induct)
  case less
  define n where "n = min (length xs) sz"
  have n: "n \<le> length xs" by (simp add: n_def)
  from write_masked_frame_sent [OF less.prems(1,3) n_def, of cf fin d] obtain s1 key where
    s1: "write_masked_frame cf fh fin sz xs (s, d) = (Ok (), (s1, d))"
    "sent (frame_octets Client op (fin \<and> length xs - n = 0) key (take n xs))
      (s\<lparr>ws_wr_cont := \<not> (fin \<and> length xs - n = 0)\<rparr>) s1" by blast
  from sent_wr_cont [OF s1(2), of "\<not> fin"] have s1': "sent (frame_octets Client op (fin \<and> length xs - n = 0)
    key (take n xs)) (s\<lparr>ws_wr_cont := \<not> fin\<rparr>) (s1\<lparr>ws_wr_cont := \<not> fin\<rparr>)" by simp
  have run: "write_masked_frag cf fh fin sz xs (s, d) =
     (if length xs - n = 0 then (Ok (), (s1, d)) else if n = 0 then (Oob, (s1, d))
      else write_masked_frag cf (fh\<lparr>fh_op := Op_cont\<rparr>) fin sz (drop n xs) (s1, d))"
    using s1(1) by (subst write_masked_frag.simps) (simp only: Let_def prod.case outcome.case flip: n_def)
  show ?case
  proof (cases "length xs - n = 0")
    case True
    with n have "take n xs = xs" by simp
    with True run s1(2) show ?thesis by (intro exI [of _ s1] exI [of _ "[(key, xs)]"]) simp
  next
    case False
    with less.prems(2) have lt: "0 < n" "length (drop n xs) < length xs" by (auto simp: n_def)
    have "fh\<lparr>fh_op := Op_cont\<rparr> = plain_frame Client Op_cont f k m" using less.prems(3) by simp
    from less.hyps [OF lt(2) sent_out(1) [OF s1(2)] less.prems(2) this] obtain s' ps where
      s': "write_masked_frag cf (fh\<lparr>fh_op := Op_cont\<rparr>) fin sz (drop n xs) (s1, d) = (Ok (), (s', d))" "ps \<noteq> []"
      "payloads ps = drop n xs" "sent (frames_octets Client Op_cont fin ps) (s1\<lparr>ws_wr_cont := \<not> fin\<rparr>) s'" by blast
    from sent_trans [OF s1' s'(4)] False s' run lt show ?thesis
      by (intro exI [of _ s'] exI [of _ "(key, take n xs) # ps"]) (simp add: frames_octets_Cons)
  qed
qed

lemma write_masked_rest_sent:
  assumes "writable s" "0 < sz"
  shows "\<exists>s'. write_masked_rest cf sz key xs (s, d) = (Ok (), (s', d)) \<and> sent (wire_octets True key xs) s s'"
  using assms
proof (induction "length xs" arbitrary: xs s key rule: less_induct)
  case less
  show ?case
  proof (cases "xs = []")
    case True
    moreover have "sent [] s s"
      by (rule sentI [where nw = "nt_writes (ws_net s)" and g = "ws_maskgen s" and f = "ws_failed s"])
        (use less.prems in simp_all)
    ultimately show ?thesis by (simp add: write_masked_rest.simps)
  next
    case False
    define n where "n = min (length xs) sz"
    have lt: "0 < n" "length (drop n xs) < length xs" using False less.prems(2) by (simp_all add: n_def)
    obtain key' where m: "(mask_octets (cf_addr cf) key (take n xs) :: (unit, _) outcome) =
        Ok (wire_octets True key (take n xs), key')"
      "\<And>q. wire_octets True key (take n xs @ q) = wire_octets True key (take n xs) @ wire_octets True key' q"
      using mask_wire [of "cf_addr cf" key "take n xs"] by metis
    from net_write_sent [OF less.prems(1), where d = d] obtain s1 where
      s1: "net_write (wire_octets True key (take n xs)) (s, d) = (Ok (), (s1, d))"
        "sent (wire_octets True key (take n xs)) s s1" by blast
    from less.hyps [OF lt(2) sent_out(1) [OF s1(2)] less.prems(2), where key = key'] obtain s' where
      s': "write_masked_rest cf sz key' (drop n xs) (s1, d) = (Ok (), (s', d))"
        "sent (wire_octets True key' (drop n xs)) s1 s'" by blast
    have "write_masked_rest cf sz key xs (s, d) = (Ok (), (s', d))"
      using False lt(1) m(1) s1(1) s'(1)
      by (subst write_masked_rest.simps) (simp add: Let_def flip: n_def)
    moreover have "wire_octets True key xs = wire_octets True key (take n xs) @ wire_octets True key' (drop n xs)"
      using m(2) [of "drop n xs"] by simp
    ultimately show ?thesis using sent_trans [OF s1(2) s'(2)] by simp
  qed
qed

lemma write_uncompressed_sent:
  assumes w: "writable s" and sz: "0 < ws_wr_buf_size s" and fh: "fh = plain_frame (ws_role s) op f 0 m"
  shows "\<exists>s' ps. write_uncompressed cf fh fin xs (s, d) = (Ok (), (s', d)) \<and> ps \<noteq> [] \<and> payloads ps = xs \<and>
    sent (frames_octets (ws_role s) op fin ps) (s\<lparr>ws_wr_cont := \<not> fin\<rparr>) s'"
proof (cases "ws_role s")
  case role: Server
  show ?thesis
  proof (cases "ws_wr_autofrag s")
    case True
    with write_plain_sent [OF w sz, of fh op f 0 m fin xs d] fh role sz show ?thesis
      by (simp add: write_uncompressed_def get_ws_def)
  next
    case False
    let ?fh = "plain_frame Server op fin 0 (length xs)"
    from write_header_sent [of "s\<lparr>ws_wr_cont := \<not> fin\<rparr>" ?fh xs d] w obtain s1 where
      s1: "write_header ?fh xs (s\<lparr>ws_wr_cont := \<not> fin\<rparr>, d) = (Ok (), (s1, d))"
      "sent (fh_encode ?fh @ xs) (s\<lparr>ws_wr_cont := \<not> fin\<rparr>) s1" by auto
    with False fh role show ?thesis
      by (intro exI [of _ s1] exI [of _ "[(0, xs)]"])
        (simp add: write_uncompressed_def get_ws_def frame_octets_server)
  qed
next
  case role: Client
  show ?thesis
  proof (cases "ws_wr_autofrag s")
    case True
    with write_masked_frag_sent [OF w sz, of fh op f 0 m cf fin xs d] fh role sz show ?thesis
      by (simp add: write_uncompressed_def get_ws_def)
  next
    case False
    define n where "n = min (length xs) (ws_wr_buf_size s)"
    from draw_key_sent [OF w, of d] obtain key s1 where
      s1: "draw_key (s, d) = (Ok key, (s1, d))" "sent [] s s1" by blast
    obtain key' where m: "(mask_octets (cf_addr cf) (prepare_key64 key) (take n xs) :: (unit, _) outcome) =
        Ok (wire_octets True (prepare_key64 key) (take n xs), key')"
      "\<And>q. wire_octets True (prepare_key64 key) (take n xs @ q) =
        wire_octets True (prepare_key64 key) (take n xs) @ wire_octets True key' q"
      using mask_wire [of "cf_addr cf" "prepare_key64 key" "take n xs"] by metis
    let ?fh = "plain_frame Client op fin key (length xs)"
    from write_header_sent [of "s1\<lparr>ws_wr_cont := \<not> fin\<rparr>" ?fh "wire_octets True (prepare_key64 key) (take n xs)" d]
      sent_out(1) [OF s1(2)] obtain s2 where
      s2: "write_header ?fh (wire_octets True (prepare_key64 key) (take n xs)) (s1\<lparr>ws_wr_cont := \<not> fin\<rparr>, d) =
        (Ok (), (s2, d))" "sent (fh_encode ?fh @ wire_octets True (prepare_key64 key) (take n xs)) (s1\<lparr>ws_wr_cont := \<not> fin\<rparr>) s2"
      by auto
    from write_masked_rest_sent [OF sent_out(1) [OF s2(2)] sz, where cf = cf and d = d] obtain s3 where
      s3: "write_masked_rest cf (ws_wr_buf_size s) key' (drop n xs) (s2, d) = (Ok (), (s3, d))"
        "sent (wire_octets True key' (drop n xs)) s2 s3" by blast
    have "fh\<lparr>fh_fin := fin, fh_len := of_nat (length xs), fh_key := key\<rparr> = ?fh" using fh role by simp
    then have "write_uncompressed cf fh fin xs (s, d) = (Ok (), (s3, d))"
      using False fh role s1(1) m(1) s2(1) s3(1)
      by (simp add: write_uncompressed_def get_ws_def Let_def flip: n_def)
    moreover have "sent (frame_octets Client op fin key xs) (s\<lparr>ws_wr_cont := \<not> fin\<rparr>) s3"
      using sent_trans [OF sent_trans [OF sent_wr_cont [OF s1(2)] s2(2)] s3(2)] m(2) [of "drop n xs"]
      by (simp add: frame_octets_client)
    ultimately show ?thesis
      using role by (intro exI [of _ s3] exI [of _ "[(key, xs)]"]) simp
  qed
qed

section \<open>write\_frame\<close>

text \<open>
  A writer that does not compress; \<open>frag\<close> tells that it is between the frames of a message,
  whose opcode and options it settled at the first.
\<close>

definition writer :: "role_type \<Rightarrow> opcode \<Rightarrow> bool \<Rightarrow> 'z ws \<Rightarrow> bool" where
  "writer role op frag s \<longleftrightarrow> writable s \<and> ws_role s = role \<and> ws_wr_opcode s = op \<and> ws_pmd s = None \<and>
     0 < ws_wr_buf_size_opt s \<and> ws_wr_cont s = frag \<and> (frag \<longrightarrow> \<not> ws_wr_compress s \<and> 0 < ws_wr_buf_size s)"

lemma frames_octets_append:
  "ps \<noteq> [] \<Longrightarrow> qs \<noteq> [] \<Longrightarrow>
     frames_octets role op fin (ps @ qs) = frames_octets role op False ps @ frames_octets role Op_cont fin qs"
proof (induction ps arbitrary: op)
  case (Cons a ps)
  then show ?case by (cases a; cases "ps = []") (auto simp: frames_octets_Cons)
qed simp

lemma payloads_append [simp]: "payloads (ps @ qs) = payloads ps @ payloads qs"
  by (simp add: payloads_def)

lemma wr_begin_writer:
  assumes "writer role op False s"
  shows "\<not> ws_wr_compress (wr_begin s)" "ws_wr_buf_size (wr_begin s) = ws_wr_buf_size_opt s"
    "writable (wr_begin s)" "ws_role (wr_begin s) = role" "ws_wr_opcode (wr_begin s) = op"
    "ws_net (wr_begin s) = ws_net s" "ws_pmd (wr_begin s) = None" "\<not> ws_wr_cont (wr_begin s)"
    "ws_wr_buf_size_opt (wr_begin s) = ws_wr_buf_size_opt s"
  using assms by (auto simp: writer_def wr_begin_def writable_def pmd_is_set_def Let_def)

lemma write_frame_sent:
  assumes s: "writer role op frag s"
  shows "\<exists>s' ps. write_frame cf fin xs (s, d) = Some (Ok (), (s', d)) \<and> ps \<noteq> [] \<and> payloads ps = xs \<and>
    writer role op (\<not> fin) s' \<and>
    nt_out (ws_net s') = nt_out (ws_net s) @ frames_octets role (if frag then Op_cont else op) fin ps"
proof -
  define s1 where "s1 = (if frag then s else wr_begin s)"
  define op' where "op' = (if frag then Op_cont else op)"
  have s1: "writable s1" "0 < ws_wr_buf_size s1" "ws_role s1 = role" "\<not> ws_wr_compress s1"
    "ws_net s1 = ws_net s" "ws_wr_opcode s1 = op" "ws_pmd s1 = None"
    "ws_wr_buf_size_opt s1 = ws_wr_buf_size_opt s" "0 < ws_wr_buf_size_opt s"
    using s wr_begin_writer [of role op s] by (auto simp: s1_def writer_def)
  have fh: "write_setup s = (plain_frame role op' False 0 0, s1)"
    using s wr_begin_writer [of role op s]
    by (cases frag) (auto simp: write_setup_def s1_def op'_def writer_def plain_frame_def fh_uninit_def)
  from write_uncompressed_sent [OF s1(1,2), of _ op' False 0 cf fin xs d] obtain s' ps where
    s': "write_uncompressed cf (plain_frame role op' False 0 0) fin xs (s1, d) = (Ok (), (s', d))" "ps \<noteq> []"
    "payloads ps = xs" "sent (frames_octets role op' fin ps) (s1\<lparr>ws_wr_cont := \<not> fin\<rparr>) s'"
    using s1(3) by blast
  have "write_frame cf fin xs (s, d) = Some (Ok (), (s', d))"
    using s1(4) s'(1) by (simp add: write_frame_def fh)
  moreover have "writer role op (\<not> fin) s'"
    using s'(4) s1 by (auto simp: sent_def writer_def)
  moreover have "nt_out (ws_net s') = nt_out (ws_net s) @ frames_octets role op' fin ps"
    using sent_out(2) [OF s'(4)] s1(5) by simp
  ultimately show ?thesis using s'(2,3) unfolding op'_def by blast
qed

text \<open>A message written in several frames: all but the last with \<open>fin\<close> false.\<close>

fun write_frames :: "'z ws_cfg \<Rightarrow> bytes list \<Rightarrow> 'z ws \<times> 'b \<Rightarrow> ((leave, unit) outcome \<times> 'z ws \<times> 'b) option" where
  "write_frames cf [] st = Some (Ok (), st)"
| "write_frames cf (xs # xss) st =
     (case write_frame cf (xss = []) xs st of
        Some (Ok _, st) \<Rightarrow> write_frames cf xss st
      | r \<Rightarrow> r)"

lemma write_frames_sent:
  assumes "writer role op frag s" "xss \<noteq> []"
  shows "\<exists>s' ps. write_frames cf xss (s, d) = Some (Ok (), (s', d)) \<and> ps \<noteq> [] \<and> payloads ps = concat xss \<and>
    writer role op False s' \<and>
    nt_out (ws_net s') = nt_out (ws_net s) @ frames_octets role (if frag then Op_cont else op) True ps"
  using assms
proof (induction xss arbitrary: s frag)
  case (Cons xs xss)
  from write_frame_sent [OF Cons.prems(1), of cf "xss = []" xs d] obtain s1 ps where
    s1: "write_frame cf (xss = []) xs (s, d) = Some (Ok (), (s1, d))" "ps \<noteq> []" "payloads ps = xs"
    "writer role op (xss \<noteq> []) s1"
    "nt_out (ws_net s1) = nt_out (ws_net s) @ frames_octets role (if frag then Op_cont else op) (xss = []) ps"
    by auto
  show ?case
  proof (cases "xss = []")
    case True
    with s1 show ?thesis by (intro exI [of _ s1] exI [of _ ps]) simp
  next
    case False
    with s1(4) have "writer role op True s1" by simp
    from Cons.IH [OF this False] obtain s2 qs where
      s2: "write_frames cf xss (s1, d) = Some (Ok (), (s2, d))" "qs \<noteq> []" "payloads qs = concat xss"
      "writer role op False s2" "nt_out (ws_net s2) = nt_out (ws_net s1) @ frames_octets role Op_cont True qs"
      by auto
    with s1 False show ?thesis
      by (intro exI [of _ s2] exI [of _ "ps @ qs"]) (simp add: frames_octets_append)
  qed
qed simp

section \<open>read\<close>

lemma read_message_round:
  assumes "read_frame_round cf db st = (r, st')"
  shows "r = Ok None \<Longrightarrow> read_message cf db st = read_message cf db st'"
    "r = Ok (Some (op, False)) \<Longrightarrow> read_message cf db st = read_message cf db st'"
    "r = Ok (Some (op, True)) \<Longrightarrow> read_message cf db st = (Ok op, st')"
proof -
  assume "r = Ok None"
  then have "read_frame cf db st = read_frame cf db st'"
    using assms by (simp add: read_frame_def read_frame_loop.simps [of cf db st])
  then show "read_message cf db st = read_message cf db st'"
    by (simp add: read_message.simps [of cf db st] read_message.simps [of cf db st'])
qed (use assms in \<open>simp_all add: read_message.simps [of cf db st] read_frame_def read_frame_loop.simps [of cf db st]\<close>)

lemma receiving_follow: "receiving role mx op0 True n fut s = may_follow role mx op0 Op_cont n fut s"
  by (simp add: may_follow_def)

lemma receiving_ready: "receiving role mx op False n [] s \<Longrightarrow> ready role mx s"
proof -
  assume r: "receiving role mx op False n [] s"
  then have c: "utf8_inv (ws_rd_utf8 s)" "utf8_text (utf_have (ws_rd_utf8 s)) \<or> utf_have (ws_rd_utf8 s) = []"
    by (auto simp: receiving_def utf8_ready_def split: if_splits)
  have "utf_have (ws_rd_utf8 s) = []" if "utf8_text (utf_have (ws_rd_utf8 s))"
    using c(1) unfolding utf8_inv_def utf8_complete_need [OF c(1) that] by simp
  with c(2) have "utf_have (ws_rd_utf8 s) = []" by blast
  with r c(1) show ?thesis by (simp add: receiving_def ready_def)
qed

section \<open>read\_frame: ping and pong\<close>

lemma static_empty:
  assumes "static_inv fb" "db_contents static_db fb = []"
  shows "sb_in fb = sb_out fb"
proof -
  have "length (slice (sb_mem fb) (sb_in fb) (sb_out fb)) = sb_out fb - sb_in fb"
    using assms(1) by (intro length_slice) (simp add: static_inv_def)
  with assms show ?thesis by (simp add: static_inv_def)
qed

text \<open>What \<open>control_payload\<close> leaves in \<open>fb\<close>, when the octets \<open>ys\<close> stand where \<open>xs\<close> were received.\<close>

lemma static_unmask:
  assumes fb: "static_inv fb" "db_contents static_db fb = []" and room: "length xs \<le> static_room fb"
    and ys: "length ys = length xs"
  defines "b \<equiv> static_commit (length xs) (static_store xs (fb\<lparr>sb_last := sb_out fb + length xs\<rparr>))"
  shows "static_prepare (length xs) fb = Ok (fb\<lparr>sb_last := sb_out fb + length xs\<rparr>)"
    "slice (sb_mem b) (sb_out fb) (sb_out fb + length xs) = xs"
    "concat (static_data (static_commit (length xs) (b\<lparr>sb_mem := poke (sb_mem b) (sb_out fb) ys\<rparr>))) = ys"
    "concat (static_data (static_commit (length xs) b)) = xs"
proof -
  have le: "sb_out fb + length xs \<le> length (sb_mem fb)" using fb(1) room unfolding static_inv_def static_room_def by linarith
  note e = static_empty [OF fb]
  have sl: "slice (poke mem k zs) k (k + length zs) = zs" if "k + length zs \<le> length mem" for mem k zs
    using slice_poke [of k k zs mem] that by simp
  from le ys show "static_prepare (length xs) fb = Ok (fb\<lparr>sb_last := sb_out fb + length xs\<rparr>)"
    "slice (sb_mem b) (sb_out fb) (sb_out fb + length xs) = xs"
    "concat (static_data (static_commit (length xs) (b\<lparr>sb_mem := poke (sb_mem b) (sb_out fb) ys\<rparr>))) = ys"
    "concat (static_data (static_commit (length xs) b)) = xs"
    using sl [of "sb_out fb" xs "sb_mem fb"] sl [of "sb_out fb" ys "sb_mem b"]
    by (simp_all add: b_def static_prepare_def static_commit_def static_store_def static_data_def e)
qed

lemma control_payload_ok:
  assumes fb: "static_inv fb" "db_contents static_db fb = []" and room: "length p \<le> static_room fb"
    and len: "length p \<le> 125" and fh: "fh_len fh = of_nat (length p)"
    and net: "nt_in (ws_net s) = wire_octets (fh_mask fh) (prepare_key64 (fh_key fh)) p @ r"
  shows "\<exists>fb' f. control_payload cf fh fb (s, d) =
      (Ok fb', (s\<lparr>ws_net := (ws_net s)\<lparr>nt_in := r\<rparr>, ws_failed := f\<rparr>, d)) \<and> concat (static_data fb') = p"
proof -
  let ?w = "wire_octets (fh_mask fh) (prepare_key64 (fh_key fh)) p"
  have unat: "unat (fh_len fh) = length p" using len fh by simp
  show ?thesis
  proof (cases "p = []")
    case True
    have "control_payload cf fh fb (s, d) = (Ok fb, (s, d))"
      using True fh by (simp add: control_payload_def)
    moreover have "s = s\<lparr>ws_net := (ws_net s)\<lparr>nt_in := r\<rparr>, ws_failed := ws_failed s\<rparr>"
      using net True by simp
    moreover have "concat (static_data fb) = p" using fb(2) True by (simp add: static_data_def)
    ultimately show ?thesis by metis
  next
    case False
    then have pos: "fh_len fh > 0" using unat by (simp add: word_less_nat_alt)
    obtain key' where m: "unmask_octets cf (fh_mask fh) (prepare_key64 (fh_key fh)) ?w
      (s\<lparr>ws_net := (ws_net s)\<lparr>nt_in := r\<rparr>, ws_failed := False\<rparr>, d) =
      (Ok (p, key'), (s\<lparr>ws_net := (ws_net s)\<lparr>nt_in := r\<rparr>, ws_failed := False\<rparr>, d))"
      using unmask_wire by blast
    have lw: "length ?w = length p" by simp
    note u = static_unmask [of fb ?w p, OF fb, unfolded lw, OF room refl]
    show ?thesis
    proof (cases "fh_mask fh")
      case msk: True
      then have "lift_ub (mask_octets (cf_addr cf) (prepare_key64 (fh_key fh)) ?w)
          (s\<lparr>ws_net := (ws_net s)\<lparr>nt_in := r\<rparr>, ws_failed := False\<rparr>, d) =
          (Ok (p, key'), (s\<lparr>ws_net := (ws_net s)\<lparr>nt_in := r\<rparr>, ws_failed := False\<rparr>, d))"
        using m by (simp add: unmask_octets_def)
      then show ?thesis
        using pos net u msk lw
        by (simp add: control_payload_def unat Let_def lift_throw_def net_read_def act_bind_def act_defs
            del: static_contents) blast
    next
      case False
      then have "?w = p" by (simp add: wire_octets_def)
      then show ?thesis
        using pos net u False lw
        by (simp add: control_payload_def unat Let_def lift_throw_def net_read_def act_bind_def act_defs
            del: static_contents) blast
    qed
  qed
qed

section \<open>Control frames written\<close>

lemma control_header_ok:
  assumes "writable s"
  shows "\<exists>key s'. sent [] s s' \<and> (control_header op n s :: (length_error, _) outcome) =
    Ok (plain_frame (ws_role s) op True key n, s')"
proof (cases "ws_role s")
  case Client
  obtain key s' where "(next_key s :: (length_error, _) outcome) = Ok (key, s')" "sent [] s s'"
    using next_key_sent [OF assms] by blast
  with Client show ?thesis by (simp add: control_header_def plain_frame_def)
next
  case Server
  have "sent [] s s"
    by (rule sentI [where nw = "nt_writes (ws_net s)" and g = "ws_maskgen s" and f = "ws_failed s"])
      (use assms in simp_all)
  with Server show ?thesis by (simp add: control_header_def plain_frame_def)
qed

context dynamic_buffer
begin

lemma write_masked_ok:
  assumes "inv b" "length xs \<le> room b"
  shows "\<exists>b' key'. write_masked db addr msk key xs b = Ok (b', key') \<and> inv b' \<and>
    db_contents db b' = db_contents db b @ wire_octets msk key xs \<and> room b' = room b - length xs \<and>
    (\<forall>q. wire_octets msk key (xs @ q) = wire_octets msk key xs @ wire_octets msk key' q)"
proof -
  from prepare_ok [OF assms] obtain b1 where
    b1: "db_prepare db (length xs) b = Ok b1" "inv b1" "db_contents db b1 = db_contents db b"
    "prepared b1 = length xs" "room b1 = room b" by blast
  obtain key' where k: "(if msk then mask_octets addr key xs else Ok (xs, key) :: (length_error, _) outcome) =
      Ok (wire_octets msk key xs, key')"
    "\<And>q. wire_octets msk key (xs @ q) = wire_octets msk key xs @ wire_octets msk key' q"
  proof (cases msk)
    case True
    with mask_wire [of addr key xs] that show ?thesis by auto
  next
    case False
    with that [of key] show ?thesis by (simp add: wire_octets_def)
  qed
  from store_commit [OF b1(2), of "wire_octets msk key xs"] b1 show ?thesis
    by (simp add: write_masked_def k)
qed

lemma write_ping_ok:
  assumes "inv b" "14 + length p \<le> room b" "writable s"
  shows "\<exists>b' s' key. write_ping db addr b op p s = Ok (b', s') \<and> sent [] s s' \<and>
    db_contents db b' = db_contents db b @ frame_octets (ws_role s) op True key p"
proof -
  obtain key s' where k: "sent [] s s'" "(control_header op (length p) s :: (length_error, _) outcome) =
      Ok (plain_frame (ws_role s) op True key (length p), s')"
    using control_header_ok [OF assms(3)] by blast
  let ?fh = "plain_frame (ws_role s) op True key (length p)"
  have fl: "length (fh_encode ?fh) \<le> room b" using assms(2) fh_encode_bound [of ?fh] by linarith
  from append_ok [OF assms(1) fl] obtain b1 where b1: "write_fh db ?fh b = Ok b1" "inv b1"
    "db_contents db b1 = db_contents db b @ fh_encode ?fh" "room b1 = room b - length (fh_encode ?fh)"
    unfolding write_fh_def by metis
  have "length p \<le> room b1" using b1(4) assms(2) fh_encode_bound [of ?fh] by linarith
  from write_masked_ok [OF b1(2) this, of addr "ws_role s = Client" "prepare_key64 (fh_key ?fh)"] obtain b2 key' where
    b2: "write_masked db addr (ws_role s = Client) (prepare_key64 (fh_key ?fh)) p b1 = Ok (b2, key')"
    "db_contents db b2 = db_contents db b1 @ wire_octets (ws_role s = Client) (prepare_key64 (fh_key ?fh)) p" by blast
  have "\<exists>b'. write_ping db addr b op p s = Ok (b', s') \<and> db_contents db b' = db_contents db b2"
    using k(2) b1(1) b2 by (cases "p = []") (simp_all add: write_ping_def)
  with k(1) b1(3) b2(2) show ?thesis by (auto simp: frame_octets_def)
qed

end

lemma static_concat: "db_contents static_db b = concat (static_data b)"
  by (simp add: static_data_def)

lemma do_write_ping_sent:
  assumes "writable s" "length p \<le> 125"
  shows "\<exists>s' key. do_write_ping cf op p (s, d) = (Ok (), (s', d)) \<and>
    sent (frame_octets (ws_role s) op True key p) s s'"
proof -
  have "14 + length p \<le> static_room frame_streambuf" using assms(2) by simp
  from static.write_ping_ok [OF static_room_frame(1) this assms(1), of "cf_addr cf" op] obtain b s1 key where
    b: "write_ping static_db (cf_addr cf) frame_streambuf op p s = Ok (b, s1)" "sent [] s s1"
    "concat (static_data b) = frame_octets (ws_role s) op True key p"
    by (auto simp only: static_room_frame(3) [unfolded static_concat] append_Nil static_concat)
  from net_write_sent [OF sent_out(1) [OF b(2)], of "concat (static_data b)" d] obtain s2 where
    "net_write (concat (static_data b)) (s1, d) = (Ok (), (s2, d))" "sent (concat (static_data b)) s1 s2" by blast
  with b sent_trans [OF b(2)] show ?thesis by (auto simp: do_write_ping_def)
qed

end
