(* ===== verification/Ws_Session.thy ===== *)
theory Ws_Session
  imports Ws_Message
begin

text \<open>
  What a session of two endpoints amounts to: control frames answered between the frames of a
  message, whole messages written and read, and the end of the session.
\<close>

section \<open>Control frames read\<close>

text \<open>
  After \<open>s\<close>, the object \<open>s'\<close> has answered \<open>out\<close> and reported \<open>pings\<close>; the reader and the
  message it is in are as they were.
\<close>

definition answered :: "bytes \<Rightarrow> (bool \<times> bytes) list \<Rightarrow> 'z ws \<Rightarrow> 'z ws \<Rightarrow> bool" where
  "answered out pings s s' \<longleftrightarrow> (writable s \<longrightarrow> writable s') \<and> ws_role s' = ws_role s \<and> ws_ping_cb s' = ws_ping_cb s \<and>
     nt_out (ws_net s') = nt_out (ws_net s) @ out \<and>
     ws_pings s' = ws_pings s @ (if ws_ping_cb s then pings else []) \<and>
     ws_wr_close s' = ws_wr_close s \<and> ws_cr s' = ws_cr s"

definition same_reader :: "'z ws \<Rightarrow> 'z ws \<Rightarrow> bool" where
  "same_reader s s' \<longleftrightarrow> ws_role s' = ws_role s \<and> ws_rd_msg_max s' = ws_rd_msg_max s \<and>
     ws_rd_op s' = ws_rd_op s \<and> ws_rd_cont s' = ws_rd_cont s \<and> ws_pmd s' = ws_pmd s \<and>
     ws_rd_size s' = ws_rd_size s \<and> ws_rd_utf8 s' = ws_rd_utf8 s"

lemma same_reader_trans: "same_reader s s' \<Longrightarrow> same_reader s' s'' \<Longrightarrow> same_reader s s''"
  by (simp add: same_reader_def)

lemma same_reader_follow: "same_reader s s' \<Longrightarrow>
    may_follow role mx op0 op n fut s' = may_follow role mx op0 op n fut s"
  by (simp add: same_reader_def may_follow_def receiving_def ready_def utf8_ready_def pmd_reading_def)

lemma same_reader_sent: "sent xs s s' \<Longrightarrow> same_reader s s'"
  by (auto simp: sent_def same_reader_def)

lemma control_ops_check: "op = Op_ping \<or> op = Op_pong \<or> op = Op_close \<Longrightarrow> length p \<le> 125 \<Longrightarrow>
    fh_check (plain_frame role op True key (length p)) s = (True, s)"
  by (auto simp: fh_check_def is_reserved_def less_eq_opcode_def word_less_nat_alt not_less)

lemma control_received:
  assumes op: "op = Op_ping \<or> op = Op_pong \<or> op = Op_close" and len: "length p \<le> 125"
    and net: "nt_in (ws_net s) = frame_octets (peer (ws_role s)) op True key p @ r"
  defines "fh \<equiv> plain_frame (peer (ws_role s)) op True key (length p)"
  shows "\<exists>fb fb' f. read_header (s, d) = (Ok (fh, fb),
      (s\<lparr>ws_net := (ws_net s)\<lparr>nt_in := wire_octets (fh_mask fh) (prepare_key64 (fh_key fh)) p @ r\<rparr>, ws_failed := False\<rparr>, d)) \<and>
    control_payload cf fh fb
      (s\<lparr>ws_net := (ws_net s)\<lparr>nt_in := wire_octets (fh_mask fh) (prepare_key64 (fh_key fh)) p @ r\<rparr>, ws_failed := False\<rparr>, d) =
      (Ok fb', (s\<lparr>ws_net := (ws_net s)\<lparr>nt_in := r\<rparr>, ws_failed := f\<rparr>, d)) \<and> concat (static_data fb') = p"
proof -
  define w where "w = wire_octets (fh_mask fh) (prepare_key64 (fh_key fh)) p"
  let ?s = "s\<lparr>ws_net := (ws_net s)\<lparr>nt_in := w @ r\<rparr>, ws_failed := False\<rparr>"
  have check: "fh_check fh s' = (True, s')" for s' :: "'a ws"
    unfolding fh_def using control_ops_check [OF op len] .
  have a: "after_header fh (w @ r) s = ?s"
  proof -
    have "is_control (fh_op fh)" using op by (auto simp: fh_def)
    then show ?thesis by (simp add: after_header_def check fh_accept_def)
  qed
  have "nt_in (ws_net s) = fh_encode fh @ (w @ r)"
    using net by (simp add: frame_octets_def fh_def w_def)
  moreover have "fh_mask fh \<longleftrightarrow> ws_role s = Server" "\<not> fh_mask fh \<longrightarrow> fh_key fh = 0"
    by (auto simp: fh_def plain_frame_def)
  moreover have "fh_op fh = Op_cont \<longrightarrow> ws_rd_size s \<le> - 1 - fh_len fh" using op by (auto simp: fh_def)
  ultimately obtain fb where h: "read_header (s, d) = (Ok (fh, fb), (?s, d))" "static_inv fb"
    "db_contents static_db fb = []" "139 - length (fh_encode fh) \<le> static_room fb"
    using read_header_ok [of s fh "w @ r" d] a check [of s] by auto
  have "length p \<le> static_room fb" using h(4) fh_encode_bound [of fh] len by linarith
  from control_payload_ok [OF h(2,3) this len, of fh ?s r cf d] obtain fb' f where
    "control_payload cf fh fb (?s, d) = (Ok fb', (?s\<lparr>ws_net := (ws_net ?s)\<lparr>nt_in := r\<rparr>, ws_failed := f\<rparr>, d))"
    "concat (static_data fb') = p" by (auto simp: w_def fh_def)
  with h(1) show ?thesis unfolding w_def [symmetric] by auto
qed

lemma call_ping_cb_run [simp]:
  "call_ping_cb b p (s, d) = (Ok (), (if ws_ping_cb s then s\<lparr>ws_pings := ws_pings s @ [(b, p)]\<rparr> else s, d))"
  by (simp add: call_ping_cb_def on_ws_def)

lemma read_ping_data_ok: "concat bs = p \<Longrightarrow> length p \<le> 125 \<Longrightarrow> read_ping_data bs = Ok p"
  by (simp add: read_ping_data_def)

text \<open>The answer to a control frame.\<close>

definition reply :: "role_type \<Rightarrow> opcode \<Rightarrow> u32 \<Rightarrow> bytes \<Rightarrow> bytes" where
  "reply role op key p = (if op = Op_ping then frame_octets role Op_pong True key p else [])"

lemma read_round_control:
  assumes op: "op = Op_ping \<or> op = Op_pong" and len: "length p \<le> 125" and w: "writable s"
    and net: "nt_in (ws_net s) = frame_octets (peer (ws_role s)) op True key p @ r"
  shows "\<exists>s' k. read_frame_round cf db (s, d) = (Ok None, (s', d)) \<and> nt_in (ws_net s') = r \<and>
    answered (reply (ws_role s) op k p) [(op = Op_pong, p)] s s' \<and> same_reader s s'"
proof -
  define fh where "fh = plain_frame (peer (ws_role s)) op True key (length p)"
  from op have "op = Op_ping \<or> op = Op_pong \<or> op = Op_close" by blast
  from control_received [OF this len net, of d cf] obtain fb fb' f s1 where
    h: "read_header (s, d) = (Ok (fh, fb), (s1, d))"
    "control_payload cf fh fb (s1, d) = (Ok fb', (s\<lparr>ws_net := (ws_net s)\<lparr>nt_in := r\<rparr>, ws_failed := f\<rparr>, d))"
    "concat (static_data fb') = p" unfolding fh_def by blast
  let ?s = "s\<lparr>ws_net := (ws_net s)\<lparr>nt_in := r\<rparr>, ws_failed := f\<rparr>"
  have run: "read_frame_round cf db (s, d) =
      act_bind (if op = Op_ping then
        act_bind (call_ping_cb False p) (\<lambda>_. do_write_ping cf Op_pong p) else call_ping_cb True p) (\<lambda>_. act_ret None) (?s, d)"
    using h op read_ping_data_ok [OF h(3) len]
    by (auto simp: read_frame_round_def control_frame_def fh_def act_bind_assoc)
  define s2 where "s2 = (if ws_ping_cb ?s then ?s\<lparr>ws_pings := ws_pings ?s @ [(op = Op_pong, p)]\<rparr> else ?s)"
  have s2: "writable s2" "ws_role s2 = ws_role s" "nt_out (ws_net s2) = nt_out (ws_net s)" "nt_in (ws_net s2) = r"
    "ws_pings s2 = ws_pings s @ (if ws_ping_cb s then [(op = Op_pong, p)] else [])" "same_reader s s2"
    "ws_wr_close s2 = ws_wr_close s" "ws_cr s2 = ws_cr s" "ws_ping_cb s2 = ws_ping_cb s"
    using w by (simp_all add: s2_def writable_def same_reader_def)
  have call: "call_ping_cb (op = Op_pong) p (?s, d) = (Ok (), (s2, d))"
    by (simp add: s2_def)
  show ?thesis
  proof (cases "op = Op_ping")
    case True
    from do_write_ping_sent [OF s2(1) len, of cf Op_pong d] obtain s3 k where
      s3: "do_write_ping cf Op_pong p (s2, d) = (Ok (), (s3, d))"
      "sent (frame_octets (ws_role s) Op_pong True k p) s2 s3" unfolding s2(2) by blast
    have "call_ping_cb False p (?s, d) = (Ok (), (s2, d))" using call True by simp
    then have "read_frame_round cf db (s, d) = (Ok None, (s3, d))"
      unfolding run using True s3(1) by (simp del: call_ping_cb_run)
    moreover have "answered (reply (ws_role s) op k p) [(op = Op_pong, p)] s s3"
      using sent_out [OF s3(2)] s2 True by (simp add: answered_def reply_def)
    ultimately show ?thesis
      using sent_out [OF s3(2)] s2 same_reader_trans [OF s2(6) same_reader_sent [OF s3(2)]] by blast
  next
    case False
    with op have "call_ping_cb True p (?s, d) = (Ok (), (s2, d))" using call by simp
    then have "read_frame_round cf db (s, d) = (Ok None, (s2, d))"
      unfolding run using False by (simp del: call_ping_cb_run)
    moreover have "answered (reply (ws_role s) op k p) [(op = Op_pong, p)] s s2" for k
      using s2 False by (simp add: answered_def reply_def)
    ultimately show ?thesis using s2(4,6) by blast
  qed
qed

section \<open>A message and the control frames within\<close>

text \<open>
  \<open>controls\<close> are pings and pongs; \<open>items\<close> is a message with, before each of its frames, the
  control frames that come there.
\<close>

type_synonym controls = "(opcode \<times> u32 \<times> bytes) list"

definition controls_ok :: "controls \<Rightarrow> bool" where
  "controls_ok cs \<longleftrightarrow> (\<forall>(op, key, p) \<in> set cs. (op = Op_ping \<or> op = Op_pong) \<and> length p \<le> 125)"

definition controls_octets :: "role_type \<Rightarrow> controls \<Rightarrow> bytes" where
  "controls_octets role cs = concat (map (\<lambda>(op, key, p). frame_octets role op True key p) cs)"

fun items_octets :: "role_type \<Rightarrow> opcode \<Rightarrow> (controls \<times> u32 \<times> bytes) list \<Rightarrow> bytes" where
  "items_octets role op [] = []"
| "items_octets role op ((cs, key, p) # is) =
     controls_octets role cs @ frame_octets role op (is = []) key p @ items_octets role Op_cont is"

text \<open>The pongs that answer the pings, each masked with some key.\<close>

inductive pongs :: "role_type \<Rightarrow> controls \<Rightarrow> bytes \<Rightarrow> bool" for role where
  none: "pongs role [] []"
| more: "pongs role cs out \<Longrightarrow> pongs role ((op, key, p) # cs) (reply role op k p @ out)"

inductive_cases pongs_Cons: "pongs role ((op, key, p) # cs) out"

lemma pongs_append: "pongs role cs out \<Longrightarrow> pongs role cs' out' \<Longrightarrow> pongs role (cs @ cs') (out @ out')"
proof (induction rule: pongs.induct)
  case (more cs out op key p k)
  then show ?case by (simp add: pongs.more)
qed simp

definition reported :: "controls \<Rightarrow> (bool \<times> bytes) list" where
  "reported cs = map (\<lambda>(op, key, p). (op = Op_pong, p)) cs"

lemma answered_trans: "answered out ps s s' \<Longrightarrow> answered out' ps' s' s'' \<Longrightarrow> answered (out @ out') (ps @ ps') s s''"
  by (simp add: answered_def)

lemma read_controls:
  "controls_ok cs \<Longrightarrow> cs = [] \<or> writable s \<Longrightarrow> ws_role s = role \<Longrightarrow>
   nt_in (ws_net s) = controls_octets (peer role) cs @ r \<Longrightarrow>
     \<exists>s' out. read_message cf db (s, d) = read_message cf db (s', d) \<and> nt_in (ws_net s') = r \<and>
       pongs role cs out \<and> answered out (reported cs) s s' \<and> same_reader s s'"
proof (induction cs arbitrary: s)
  case Nil
  moreover have "answered [] [] s s" using Nil.prems by (simp add: answered_def)
  ultimately show ?case
    by (intro exI [of _ s] exI [of _ "[]"]) (simp add: controls_octets_def reported_def pongs.none same_reader_def)
next
  case (Cons c cs)
  obtain op key p where c: "c = (op, key, p)" by (cases c)
  have op: "op = Op_ping \<or> op = Op_pong" "length p \<le> 125" and cs: "controls_ok cs"
    using Cons.prems(1) by (auto simp: controls_ok_def c)
  have w: "writable s" using Cons.prems(2) by simp
  have "nt_in (ws_net s) = frame_octets (peer (ws_role s)) op True key p @ (controls_octets (peer role) cs @ r)"
    using Cons.prems(3,4) by (simp add: controls_octets_def c)
  from read_round_control [OF op w this, of cf db d] Cons.prems(3) obtain s1 k where
    s1: "read_frame_round cf db (s, d) = (Ok None, (s1, d))" "nt_in (ws_net s1) = controls_octets (peer role) cs @ r"
    "answered (reply role op k p) [(op = Op_pong, p)] s s1" "same_reader s s1" by blast
  have "cs = [] \<or> writable s1" "ws_role s1 = role" using s1(3) w Cons.prems(3) by (simp_all add: answered_def)
  from Cons.IH [OF cs this s1(2)] obtain s2 out where
    s2: "read_message cf db (s1, d) = read_message cf db (s2, d)" "nt_in (ws_net s2) = r"
    "pongs role cs out" "answered out (reported cs) s1 s2" "same_reader s1 s2" by blast
  have "read_message cf db (s, d) = read_message cf db (s2, d)"
    using read_message_round(1) [OF s1(1) refl] s2(1) by simp
  moreover have "pongs role (c # cs) (reply role op k p @ out)" unfolding c by (rule pongs.more [OF s2(3)])
  moreover have "answered (reply role op k p @ out) (reported (c # cs)) s s2"
    using answered_trans [OF s1(3) s2(4)] by (simp add: reported_def c)
  ultimately show ?case using s2(2) same_reader_trans [OF s1(4) s2(5)] by blast
qed

lemma quiet_answered: "quiet s s' \<Longrightarrow> ws_role s' = ws_role s \<Longrightarrow> answered [] [] s s'"
  by (simp add: quiet_def answered_def writable_def)

context dynamic_buffer
begin

lemma read_items:
  assumes "is \<noteq> []" "\<forall>(cs, x) \<in> set is. controls_ok cs" "concat (map fst is) = [] \<or> writable s"
    and "may_follow role mx op0 op n (payloads (map snd is)) s" "fits mx (n + length (payloads (map snd is)))"
    and "inv d" "length (payloads (map snd is)) \<le> room d"
    and "nt_in (ws_net s) = items_octets (peer role) op is @ r"
  shows "\<exists>s' d' out. read_message cf db (s, d) = (Ok op0, (s', d')) \<and> ready role mx s' \<and> nt_in (ws_net s') = r \<and>
    pongs role (concat (map fst is)) out \<and> answered out (reported (concat (map fst is))) s s' \<and>
    inv d' \<and> db_contents db d' = db_contents db d @ payloads (map snd is) \<and>
    room d' = room d - length (payloads (map snd is))"
  using assms
proof (induction "is" arbitrary: op n s d)
  case (Cons i "is")
  obtain cs key p where i: "i = (cs, key, p)" by (cases i)
  have cs: "controls_ok cs" "cs = [] \<or> writable s" and is_ok: "\<forall>(cs, x) \<in> set is. controls_ok cs"
    using Cons.prems(2,3) by (auto simp: i)
  have role: "ws_role s = role" using may_follow_ops [OF Cons.prems(4)] by simp
  have net: "nt_in (ws_net s) = controls_octets (peer role) cs @
      (frame_octets (peer role) op (is = []) key p @ items_octets (peer role) Op_cont is @ r)"
    using Cons.prems(8) by (simp add: i)
  from read_controls [OF cs role net, of cf db d] obtain s1 out where
    s1: "read_message cf db (s, d) = read_message cf db (s1, d)"
    "nt_in (ws_net s1) = frame_octets (peer role) op (is = []) key p @ items_octets (peer role) Op_cont is @ r"
    "pongs role cs out" "answered out (reported cs) s s1" "same_reader s s1" by blast
  have f: "may_follow role mx op0 op n (p @ payloads (map snd is)) s1"
    using Cons.prems(4) same_reader_follow [OF s1(5)] by (simp add: i)
  have "length p \<le> room d" "fits mx (n + length p)" "is = [] \<and> p \<noteq> [] \<longrightarrow> payloads (map snd is) = []"
    using Cons.prems(5,7) fits_mono [of mx _ "n + length p"] by (simp_all add: i)
  from read_round_data [OF Cons.prems(6) this(1) f s1(2) this(2,3), of cf] obtain s2 d2 where
    s2: "read_frame_round cf db (s1, d) = (Ok (if p = [] \<and> is \<noteq> [] then None else Some (op0, is = [])), (s2, d2))"
    "receiving role mx op0 (is \<noteq> []) (n + length p) (payloads (map snd is)) s2"
    "nt_in (ws_net s2) = items_octets (peer role) Op_cont is @ r" "quiet s1 s2" "inv d2"
    "db_contents db d2 = db_contents db d @ p" "room d2 = room d - length p" by auto
  have "ws_role s2 = ws_role s1" using s2(2) role s1(4) by (simp add: receiving_def answered_def)
  with s1(4) quiet_answered [OF s2(4)] have ans: "answered out (reported cs) s s2"
    using answered_trans [of out "reported cs" s s1 "[]" "[]" s2] by simp
  show ?case
  proof (cases "is = []")
    case True
    have "read_message cf db (s, d) = (Ok op0, (s2, d2))"
      using s1(1) read_message_round(3) [OF s2(1)] True by simp
    moreover have "ready role mx s2" using receiving_ready s2(2) True by auto
    ultimately show ?thesis
      using s1(3) s2 True ans by (intro exI [of _ s2] exI [of _ d2] exI [of _ out]) (simp add: i)
  next
    case False
    have step: "read_message cf db (s, d) = read_message cf db (s2, d2)"
      using s1(1) read_message_round(1,2) [OF s2(1)] False by (cases "p = []") simp_all
    have a: "may_follow role mx op0 Op_cont (n + length p) (payloads (map snd is)) s2"
      using s2(2) False by (simp add: receiving_follow)
    have b: "concat (map fst is) = [] \<or> writable s2"
      using Cons.prems(3) ans by (auto simp: i answered_def)
    have c: "fits mx (n + length p + length (payloads (map snd is)))"
      using Cons.prems(5) by (simp add: i add.assoc)
    have e: "length (payloads (map snd is)) \<le> room d2" using Cons.prems(7) s2(7) by (simp add: i)
    from Cons.IH [OF False is_ok b a c s2(5) e s2(3)] obtain s' d' out' where
      IH: "read_message cf db (s2, d2) = (Ok op0, (s', d'))" "ready role mx s'" "nt_in (ws_net s') = r"
      "pongs role (concat (map fst is)) out'" "answered out' (reported (concat (map fst is))) s2 s'" "inv d'"
      "db_contents db d' = db_contents db d2 @ payloads (map snd is)"
      "room d' = room d2 - length (payloads (map snd is))" by blast
    have "answered (out @ out') (reported (cs @ concat (map fst is))) s s'"
      using answered_trans [OF ans IH(5)] by (simp add: reported_def)
    with pongs_append [OF s1(3) IH(4)] step IH s2(6,7) show ?thesis
      by (intro exI [of _ s'] exI [of _ d'] exI [of _ "out @ out'"]) (simp add: i)
  qed
qed simp

end

lemma items_plain: "items_octets role op (map (Pair []) ps) = frames_octets role op True ps"
proof (induction ps arbitrary: op)
  case (Cons x ps)
  then show ?case by (cases x) (simp add: frames_octets_Cons controls_octets_def)
qed simp

lemma payloads_plain: "concat (map fst (map (Pair []) ps)) = []" "map snd (map (Pair []) ps) = ps"
  by (induction ps) simp_all

context dynamic_buffer
begin

lemma read_frames:
  assumes "ps \<noteq> []" "may_follow role mx op0 op n (payloads ps) s" "fits mx (n + length (payloads ps))"
    and "inv d" "length (payloads ps) \<le> room d" "nt_in (ws_net s) = frames_octets (peer role) op True ps @ r"
  shows "\<exists>s' d'. read_message cf db (s, d) = (Ok op0, (s', d')) \<and> ready role mx s' \<and> nt_in (ws_net s') = r \<and>
    nt_out (ws_net s') = nt_out (ws_net s) \<and> inv d' \<and> db_contents db d' = db_contents db d @ payloads ps"
proof -
  have ok: "\<forall>(cs, x) \<in> set (map (Pair []) ps). controls_ok cs" by (auto simp: controls_ok_def)
  note r = read_items [of "map (Pair []) ps", unfolded payloads_plain items_plain, OF _ ok _ assms(2-6)]
  from r [of cf] assms(1) obtain s' d' out where
    "read_message cf db (s, d) = (Ok op0, (s', d'))" "ready role mx s'" "nt_in (ws_net s') = r" "pongs role [] out"
    "answered out (reported []) s s'" "inv d'" "db_contents db d' = db_contents db d @ payloads ps" by auto
  moreover from this(4) have "out = []" by cases
  ultimately show ?thesis by (auto simp: answered_def)
qed

end

section \<open>A message from one endpoint to the other\<close>

text \<open>The object with \<open>xs\<close> still to come from its next layer.\<close>

definition fed :: "bytes \<Rightarrow> 'z ws \<Rightarrow> 'z ws" where
  "fed xs s = s\<lparr>ws_net := (ws_net s)\<lparr>nt_in := xs\<rparr>\<rparr>"

lemma fed_simps [simp]: "nt_in (ws_net (fed xs s)) = xs" "ready role mx (fed xs s) = ready role mx s"
    "writable (fed xs s) = writable s" "nt_out (ws_net (fed xs s)) = nt_out (ws_net s)"
    "ws_pings (fed xs s) = ws_pings s" "ws_ping_cb (fed xs s) = ws_ping_cb s" "ws_role (fed xs s) = ws_role s"
  by (simp_all add: fed_def ready_def writable_def)

lemma flat_bytes_contents: "flat_bytes b = db_contents (flat_db junk) b"
  by simp

lemma ready_follow: "ready role mx s \<Longrightarrow> op = Op_text \<or> op = Op_binary \<Longrightarrow> op = Op_text \<longrightarrow> utf8_text fut \<Longrightarrow>
    may_follow role mx op op 0 fut s"
  by (auto simp: may_follow_def)

text \<open>C1: The WebSocket round trip. What one endpoint writes as a message - in any number of
  \<open>write_frame\<close> calls, each fragmented automatically or not, each frame masked with a fresh key when
  the writer is the client - the peer's \<open>read\<close> delivers as one message with the same opcode and the
  same octets, appended to its dynamic buffer, however the octets arrive from the network; it takes
  exactly the octets written and is ready for the next message.\<close>

theorem message_exchange:
  assumes "writer role op False s" "op = Op_text \<or> op = Op_binary" "xss \<noteq> []"
    and "op = Op_text \<longrightarrow> utf8_text (concat xss)"
    and "ready (peer role) mx r" "fits mx (length (concat xss))"
    and "flat_inv b" "length (concat xss) \<le> flat_room b"
  shows "\<exists>s' w r' b'. write_frames cf xss (s, d) = Some (Ok (), (s', d)) \<and> writer role op False s' \<and>
    nt_out (ws_net s') = nt_out (ws_net s) @ w \<and>
    read_message cf' (flat_db junk) (fed (w @ rest) r, b) = (Ok op, (r', b')) \<and>
    ready (peer role) mx r' \<and> nt_in (ws_net r') = rest \<and> nt_out (ws_net r') = nt_out (ws_net r) \<and>
    flat_inv b' \<and> flat_bytes b' = flat_bytes b @ concat xss"
proof -
  from write_frames_sent [OF assms(1,3), of cf d] obtain s' ps where
    s': "write_frames cf xss (s, d) = Some (Ok (), (s', d))" "ps \<noteq> []" "payloads ps = concat xss"
    "writer role op False s'" "nt_out (ws_net s') = nt_out (ws_net s) @ frames_octets role op True ps" by auto
  let ?r = "fed (frames_octets role op True ps @ rest) r"
  have f: "may_follow (peer role) mx op op 0 (payloads ps) ?r"
    by (rule ready_follow) (use assms(2,4,5) s'(3) in simp_all)
  have "fits mx (0 + length (payloads ps))" "length (payloads ps) \<le> flat_room b"
    using assms(6,8) s'(3) by simp_all
  from flat.read_frames [OF s'(2) f this(1) assms(7) this(2), of rest cf' junk] s' show ?thesis
    by (fastforce simp: flat_bytes_contents [of _ junk] simp del: flat_contents)
qed

text \<open>A configuration and two open endpoints to try the theorems on.\<close>

definition stored_codec :: "unit codec" where
  "stored_codec = \<lparr>cd_fresh = (), cd_zi_reset = (\<lambda>_ _. ()), cd_zo_reset = (\<lambda>_ _ _ _. ()), cd_zi_again = (\<lambda>_. ()),
     cd_zo_again = (\<lambda>_. ()), cd_inflate = (\<lambda>xs _. ((xs, None), ())),
     cd_deflate = (\<lambda>_ xs _ _. ((xs, length xs, False, None), ()))\<rparr>"

definition cfg_example :: "unit ws_cfg" where
  "cfg_example = \<lparr>cf_addr = 0, cf_aligned = (\<lambda>_. True), cf_codec = stored_codec\<rparr>"

definition endpoint :: "role_type \<Rightarrow> unit ws" where
  "endpoint role = ws_open stored_codec role ws_example"

lemma ws_example_fields: "ws_role ws_example = Client" "ws_rd_msg_max ws_example = 16 * 1024 * 1024"
    "\<not> ws_rd_cont ws_example" "ws_rd_utf8 ws_example = utf8_init" "maskgen_ok (ws_maskgen ws_example)"
    "nt_writes (ws_net ws_example) = []" "nt_out (ws_net ws_example) = []" "nt_teardown (ws_net ws_example) = None"
    "ws_wr_opcode ws_example = Op_text" "ws_pmd ws_example = None" "ws_wr_buf_size_opt ws_example = 4096"
    "\<not> ws_wr_cont ws_example" "\<not> ws_wr_close ws_example" "\<not> ws_ping_cb ws_example"
    "ws_pings ws_example = []" "ws_wr_buf_size ws_example = 0" "\<not> ws_failed ws_example"
    "\<not> pd_accept (ws_pmd_config ws_example)"
  by (simp_all add: ws_example_def ws_init_def maskgen_ok_rekey pmd_none_def)

lemma endpoint_eq: "endpoint role = ws_example\<lparr>ws_role := role\<rparr>"
proof -
  have "ws_example\<lparr>ws_role := role, ws_failed := False, ws_rd_cont := False, ws_wr_close := False,
      ws_wr_cont := False, ws_wr_buf_size := 0\<rparr> = ws_example\<lparr>ws_role := role\<rparr>"
    by (simp add: ws_example_def ws_init_def)
  then show ?thesis by (simp only: endpoint_def ws_open_def) (simp add: Let_def ws_example_fields)
qed

lemma endpoint_ready: "ready role 16777216 (endpoint role)" "writer role Op_text False (endpoint role)"
    "writable (endpoint role)" "ws_role (endpoint role) = role" "nt_out (ws_net (endpoint role)) = []"
    "\<not> ws_wr_close (endpoint role)" "\<not> ws_ping_cb (endpoint role)" "\<not> ws_rd_cont (endpoint role)"
    "ws_pmd (endpoint role) = None" "nt_teardown (ws_net (endpoint role)) = None" "ws_pings (endpoint role) = []"
  by (simp_all add: endpoint_eq ws_example_fields ready_def writer_def writable_def utf8_init_def utf8_inv_def)

lemma flat_room_init [simp]: "flat_room (flat_init n) = n"
  by (simp add: flat_room_def flat_init_def flat_size_def)

lemma utf8_ascii: "list_all (\<lambda>b. b < 0x80) p \<Longrightarrow> utf8_text p"
proof (induction p)
  case (Cons a p)
  then show ?case using sequences.more [of utf8_seq "[a]" p] by simp
qed (simp add: sequences.none)

theorem message_exchange_witness:
  "\<exists>s' w r' b'. write_frames cfg_example [[72, 105], [33]] (endpoint Client, ()) = Some (Ok (), (s', ())) \<and>
    writer Client Op_text False s' \<and> nt_out (ws_net s') = w \<and>
    read_message cfg_example (flat_db (\<lambda>_. 0)) (fed (w @ [7]) (endpoint Server), flat_init 10) = (Ok Op_text, (r', b')) \<and>
    nt_in (ws_net r') = [7] \<and> flat_bytes b' = [72, 105, 33]"
proof -
  have "utf8_text [72, 105, 33]" by (rule utf8_ascii) simp
  then have "\<exists>s' w r' b'. write_frames cfg_example [[72, 105], [33]] (endpoint Client, ()) = Some (Ok (), (s', ())) \<and>
    writer Client Op_text False s' \<and> nt_out (ws_net s') = nt_out (ws_net (endpoint Client)) @ w \<and>
    read_message cfg_example (flat_db (\<lambda>_. 0)) (fed (w @ [7]) (endpoint Server), flat_init 10) = (Ok Op_text, (r', b')) \<and>
    ready (peer Client) (16 * 1024 * 1024) r' \<and> nt_in (ws_net r') = [7] \<and>
    nt_out (ws_net r') = nt_out (ws_net (endpoint Server)) \<and>
    flat_inv b' \<and> flat_bytes b' = flat_bytes (flat_init 10) @ concat [[72, 105], [33]]"
    by (intro message_exchange) (simp_all add: endpoint_ready fits_def)
  then show ?thesis by (auto simp: endpoint_ready)
qed

text \<open>C6: Control frames between the frames of a message do not disturb it. A message whose frames
  come with pings and pongs before them is delivered as it is without them; every ping is answered,
  in order, by a pong with the same payload, a pong by nothing, and both are reported to the
  callback, if there is one.\<close>

theorem message_with_controls:
  assumes "items \<noteq> []" "\<forall>(cs, key, p) \<in> set items. controls_ok cs"
    and "op = Op_text \<or> op = Op_binary" "op = Op_text \<longrightarrow> utf8_text (payloads (map snd items))"
    and "ready role mx s" "writable s" "fits mx (length (payloads (map snd items)))"
    and "flat_inv b" "length (payloads (map snd items)) \<le> flat_room b"
  shows "\<exists>s' b' out. read_message cf (flat_db junk) (fed (items_octets (peer role) op items @ rest) s, b) =
      (Ok op, (s', b')) \<and>
    ready role mx s' \<and> nt_in (ws_net s') = rest \<and> flat_inv b' \<and>
    flat_bytes b' = flat_bytes b @ payloads (map snd items) \<and>
    nt_out (ws_net s') = nt_out (ws_net s) @ out \<and> pongs role (concat (map fst items)) out \<and>
    ws_pings s' = ws_pings s @ (if ws_ping_cb s then reported (concat (map fst items)) else [])"
proof -
  let ?s = "fed (items_octets (peer role) op items @ rest) s"
  have f: "may_follow role mx op op 0 (payloads (map snd items)) ?s"
    by (rule ready_follow) (use assms(3-5) in simp_all)
  have "fits mx (0 + length (payloads (map snd items)))" "\<forall>(cs, x) \<in> set items. controls_ok cs"
    "concat (map fst items) = [] \<or> writable ?s"
    using assms(2,6,7) by auto
  from flat.read_items [OF assms(1) this(2,3) f this(1) assms(8,9), of rest cf junk] show ?thesis
    by (fastforce simp: answered_def flat_bytes_contents [of _ junk] simp del: flat_contents)
qed

definition items_example :: "(controls \<times> u32 \<times> bytes) list" where
  "items_example = [([], 5, [1, 2]), ([(Op_ping, 6, [9])], 7, [3])]"

theorem message_with_controls_witness:
  "\<exists>s' b' out. read_message cfg_example (flat_db (\<lambda>_. 0))
      (fed (items_octets Client Op_binary items_example) (endpoint Server), flat_init 10) =
      (Ok Op_binary, (s', b')) \<and> flat_bytes b' = [1, 2, 3] \<and>
    nt_out (ws_net s') = out \<and> pongs Server [(Op_ping, 6, [9])] out"
proof -
  have "\<exists>s' b' out. read_message cfg_example (flat_db (\<lambda>_. 0))
      (fed (items_octets (peer Server) Op_binary items_example @ []) (endpoint Server), flat_init 10) =
      (Ok Op_binary, (s', b')) \<and>
    ready Server (16 * 1024 * 1024) s' \<and> nt_in (ws_net s') = [] \<and> flat_inv b' \<and>
    flat_bytes b' = flat_bytes (flat_init 10) @ payloads (map snd items_example) \<and>
    nt_out (ws_net s') = nt_out (ws_net (endpoint Server)) @ out \<and>
    pongs Server (concat (map fst items_example)) out \<and>
    ws_pings s' = ws_pings (endpoint Server) @ (if ws_ping_cb (endpoint Server)
      then reported (concat (map fst items_example)) else [])"
    by (rule message_with_controls)
      (simp_all add: items_example_def endpoint_ready controls_ok_def fits_def)
  then show ?thesis by (auto simp: endpoint_ready items_example_def)
qed

end
