(* ===== verification/Ws_Closing.thy ===== *)
theory Ws_Closing
  imports Ws_Session
begin

text \<open>
  The end of a session: the close frame \<open>close\<close> writes, the peer's answer to it, and the frames
  that make \<open>read\<close> fail the connection.
\<close>

section \<open>Close frames written\<close>

definition close_payload :: "close_reason \<Rightarrow> bytes" where
  "close_payload cr = (if cr_code cr = cc_none then [] else big_uint16_buf (cr_code cr) @ cr_reason cr)"

context dynamic_buffer
begin

lemma write_close_ok:
  assumes "inv b" "14 + length (close_payload cr) \<le> room b" "writable s"
  shows "\<exists>b' s' key. write_close db addr b cr s = Ok (b', s') \<and> sent [] s s' \<and>
    db_contents db b' = db_contents db b @ frame_octets (ws_role s) Op_close True key (close_payload cr)"
proof -
  let ?p = "close_payload cr"
  obtain key s' where k: "sent [] s s'" "(control_header Op_close (length ?p) s :: (length_error, _) outcome) =
      Ok (plain_frame (ws_role s) Op_close True key (length ?p), s')"
    using control_header_ok [OF assms(3)] by blast
  let ?fh = "plain_frame (ws_role s) Op_close True key (length ?p)"
  let ?m = "ws_role s = Client" and ?k = "prepare_key64 (fh_key ?fh)"
  have len: "(if cr_code cr = cc_none then 0 else 2 + length (cr_reason cr)) = length ?p"
    by (simp add: close_payload_def)
  have fl: "length (fh_encode ?fh) \<le> room b" using assms(2) fh_encode_bound [of ?fh] by linarith
  from append_ok [OF assms(1) fl] obtain b1 where b1: "write_fh db ?fh b = Ok b1" "inv b1"
    "db_contents db b1 = db_contents db b @ fh_encode ?fh" "room b1 = room b - length (fh_encode ?fh)"
    unfolding write_fh_def by metis
  have room: "length ?p \<le> room b1" using b1(4) assms(2) fh_encode_bound [of ?fh] by linarith
  have "\<exists>b'. write_close db addr b cr s = Ok (b', s') \<and>
    db_contents db b' = db_contents db b1 @ wire_octets ?m ?k ?p"
  proof (cases "cr_code cr = cc_none")
    case True
    then show ?thesis using k(2) b1(1) by (simp add: write_close_def close_payload_def)
  next
    case False
    then have p: "?p = big_uint16_buf (cr_code cr) @ cr_reason cr" by (simp add: close_payload_def)
    have "length (big_uint16_buf (cr_code cr)) \<le> room b1" using room p by simp
    from write_masked_ok [OF b1(2) this, of addr ?m ?k] obtain b2 k2 where
      b2: "write_masked db addr ?m ?k (big_uint16_buf (cr_code cr)) b1 = Ok (b2, k2)" "inv b2"
      "db_contents db b2 = db_contents db b1 @ wire_octets ?m ?k (big_uint16_buf (cr_code cr))"
      "room b2 = room b1 - 2"
      "\<And>q. wire_octets ?m ?k (big_uint16_buf (cr_code cr) @ q) =
        wire_octets ?m ?k (big_uint16_buf (cr_code cr)) @ wire_octets ?m k2 q" by auto
    have "length (cr_reason cr) \<le> room b2" using room p b2(4) by simp
    from write_masked_ok [OF b2(2) this, of addr ?m k2] obtain b3 k3 where
      b3: "write_masked db addr ?m k2 (cr_reason cr) b2 = Ok (b3, k3)"
      "db_contents db b3 = db_contents db b2 @ wire_octets ?m k2 (cr_reason cr)" by blast
    show ?thesis
      using False k(2) len b1(1) b2 b3 unfolding p
      by (cases "cr_reason cr = []") (simp_all add: write_close_def)
  qed
  with k(1) b1(3) show ?thesis by (auto simp: frame_octets_def)
qed

end

lemma do_write_close_sent:
  assumes "writable s" "length (close_payload cr) \<le> 125"
  shows "\<exists>s' key. do_write_close cf cr (s, d) = (Ok (), (s', d)) \<and>
    sent (frame_octets (ws_role s) Op_close True key (close_payload cr)) s s'"
proof -
  have "14 + length (close_payload cr) \<le> static_room frame_streambuf" using assms(2) by simp
  from static.write_close_ok [OF static_room_frame(1) this assms(1), of "cf_addr cf"] obtain b s1 key where
    b: "write_close static_db (cf_addr cf) frame_streambuf cr s = Ok (b, s1)" "sent [] s s1"
    "concat (static_data b) = frame_octets (ws_role s) Op_close True key (close_payload cr)"
    by (auto simp only: static_room_frame(3) [unfolded static_concat] append_Nil static_concat)
  from net_write_sent [OF sent_out(1) [OF b(2)], of "concat (static_data b)" d] obtain s2 where
    "net_write (concat (static_data b)) (s1, d) = (Ok (), (s2, d))" "sent (concat (static_data b)) s1 s2" by blast
  with b sent_trans [OF b(2)] show ?thesis by (auto simp: do_write_close_def)
qed

section \<open>Close frames read\<close>

text \<open>A close reason as it may travel: none, or a valid code with a text of at most 123 octets.\<close>

definition reason_ok :: "close_reason \<Rightarrow> bool" where
  "reason_ok cr \<longleftrightarrow> (if cr_code cr = cc_none then cr_reason cr = []
     else is_valid_close_code (cr_code cr) \<and> length (cr_reason cr) \<le> 123 \<and> utf8_text (cr_reason cr))"

lemma check_utf8_text: "utf8_text p \<Longrightarrow> check_utf8 al p = Ok True"
proof -
  assume "utf8_text p"
  then have "utf8_text (utf_have utf8_init @ p @ [])" by (simp add: utf8_init_def)
  from utf8_write_complete [OF utf8_inv_init(2) this, of al] obtain c where
    c: "utf8_write al p utf8_init = Ok (True, c)" "utf8_inv c" "utf8_text (utf_have c @ [])" by blast
  then have "utf_need c = 0" using utf8_complete_need by simp
  with c(1) show ?thesis by (simp add: check_utf8_def utf8_finish_def)
qed

lemma length_close_payload: "reason_ok cr \<Longrightarrow> length (close_payload cr) \<le> 125"
  by (auto simp: reason_ok_def close_payload_def split: if_splits)

lemma read_close_payload:
  assumes "reason_ok cr" "concat bs = close_payload cr"
  shows "read_close_reason al bs cr0 = Ok (cc_none, cr)"
proof (cases "cr_code cr = cc_none")
  case True
  then have "close_payload cr = []" by (simp add: close_payload_def)
  moreover have "cr = cr_default" using True assms(1) by (cases cr) (simp add: reason_ok_def cr_default_def)
  ultimately show ?thesis
    unfolding read_close_reason_def Let_def assms(2) by simp
next
  case False
  with assms have p: "concat bs = big_uint16_buf (cr_code cr) @ cr_reason cr" "length (concat bs) \<le> 125"
    "is_valid_close_code (cr_code cr)" "utf8_text (cr_reason cr)"
    using length_close_payload [OF assms(1)] by (simp_all add: close_payload_def reason_ok_def)
  have n: "length (concat bs) = 2 + length (cr_reason cr)" by (simp add: p(1))
  have "take 2 (concat bs) = big_uint16_buf (cr_code cr)" "drop 2 (concat bs) = cr_reason cr"
    by (simp_all add: p(1))
  then show ?thesis
    using p(2,3) check_utf8_text [OF p(4), of al] n
    by (cases cr; cases cr0) (simp add: read_close_reason_def Let_def big_uint16_roundtrip)
qed

text \<open>The reply: the same code, normal when there was none, and no text.\<close>

definition reply_reason :: "close_reason \<Rightarrow> close_reason" where
  "reply_reason cr = \<lparr>cr_code = (if cr_code cr = cc_none then cc_normal else cr_code cr), cr_reason = []\<rparr>"

lemma length_reply [simp]: "length (close_payload (reply_reason cr)) = 2"
  by (simp add: close_payload_def reply_reason_def cc_defs)

lemma valid_normal: "is_valid_close_code cc_normal" "cc_normal \<noteq> cc_none"
  by (simp_all add: is_valid_close_code_def) (simp add: cc_defs)

lemma reason_ok_reply: "reason_ok cr \<Longrightarrow> reason_ok (reply_reason cr)"
  by (cases "cr_code cr = cc_none") (simp_all add: reason_ok_def reply_reason_def valid_normal sequences.none)

lemma read_round_close:
  assumes cr: "reason_ok cr" and w: "writable s"
    and net: "nt_in (ws_net s) = frame_octets (peer (ws_role s)) Op_close True key (close_payload cr) @ r"
  shows "\<exists>s' k. read_frame_round cf db (s, d) = (Err (Goto_close cc_none), (s', d)) \<and> nt_in (ws_net s') = r \<and>
    ws_cr s' = cr \<and> ws_wr_close s' \<and> nt_teardown (ws_net s') = nt_teardown (ws_net s) \<and>
    nt_out (ws_net s') = nt_out (ws_net s) @ (if ws_wr_close s then []
      else frame_octets (ws_role s) Op_close True k (close_payload (reply_reason cr)))"
proof -
  let ?p = "close_payload cr"
  define fh where "fh = plain_frame (peer (ws_role s)) Op_close True key (length ?p)"
  from control_received [OF _ length_close_payload [OF cr] net, of d cf] obtain fb fb' f s1 where
    h: "read_header (s, d) = (Ok (fh, fb), (s1, d))"
    "control_payload cf fh fb (s1, d) = (Ok fb', (s\<lparr>ws_net := (ws_net s)\<lparr>nt_in := r\<rparr>, ws_failed := f\<rparr>, d))"
    "concat (static_data fb') = ?p" unfolding fh_def by blast
  let ?s = "s\<lparr>ws_net := (ws_net s)\<lparr>nt_in := r\<rparr>, ws_failed := f\<rparr>"
  let ?s1 = "?s\<lparr>ws_cr := cr\<rparr>"
  have rc: "do_read_close cf fb' (?s, d) = (Ok cc_none, (?s1, d))"
    by (simp add: do_read_close_def read_close_payload [OF cr h(3)])
  show ?thesis
  proof (cases "ws_wr_close s")
    case True
    then have "read_frame_round cf db (s, d) = (Err (Goto_close cc_none), (?s1, d))"
      using h rc by (simp add: read_frame_round_def control_frame_def fh_def get_ws_def)
    with True show ?thesis by (intro exI [of _ ?s1]) simp
  next
    case False
    let ?s2 = "?s1\<lparr>ws_wr_close := True\<rparr>"
    have "writable ?s2" using w by (simp add: writable_def)
    from do_write_close_sent [OF this, of "reply_reason cr" cf d] obtain s3 k where
      s3: "do_write_close cf (reply_reason cr) (?s2, d) = (Ok (), (s3, d))"
      "sent (frame_octets (ws_role ?s2) Op_close True k (close_payload (reply_reason cr))) ?s2 s3" by auto
    have rr: "cr_code cr = cc_none \<Longrightarrow> cr\<lparr>cr_code := cc_normal, cr_reason := []\<rparr> = reply_reason cr"
      "cr_code cr \<noteq> cc_none \<Longrightarrow> cr\<lparr>cr_reason := []\<rparr> = reply_reason cr"
      by (cases cr; simp add: reply_reason_def)+
    have "read_frame_round cf db (s, d) = (Err (Goto_close cc_none), (s3, d))"
      using h rc False s3(1)
      by (cases "cr_code cr = cc_none")
        (simp_all add: read_frame_round_def control_frame_def fh_def get_ws_def on_ws_def Let_def rr act_bind_assoc)
    moreover have "nt_teardown (ws_net s3) = nt_teardown (ws_net s)" using s3(2) by (auto simp: sent_def)
    ultimately show ?thesis
      using sent_out [OF s3(2)] False by (intro exI [of _ s3] exI [of _ k]) simp
  qed
qed

lemma read_message_close:
  assumes "read_frame_round cf db st = (Err (Goto_close code), st1)"
    and "do_close cf code st1 = (Err e :: (leave, opcode \<times> bool) outcome, st')"
  shows "read_message cf db st = (Err e, st')"
  using assms
  by (simp add: read_message.simps [of cf db st] read_frame_def read_frame_loop.simps [of cf db st])

text \<open>The next layer tears down without an error, an end of file apart.\<close>

definition clean_teardown :: "'z ws \<Rightarrow> bool" where
  "clean_teardown s \<longleftrightarrow> nt_teardown (ws_net s) \<in> {None, Some Ec_eof}"

lemma do_close_closed:
  "clean_teardown s \<Longrightarrow> do_close cf cc_none (s, d) = (Err (Return Ec_closed), (s\<lparr>ws_failed := True\<rparr>, d))"
  by (auto simp: do_close_def get_ws_def on_ws_def call_teardown_def clean_teardown_def)

section \<open>The closing handshake\<close>

lemma close_stream_sent:
  assumes "writable s" "\<not> ws_wr_close s" "length (close_payload cr) \<le> 125"
  shows "\<exists>s' key. close_stream cf cr (s, d) = (Ok (), (s', d)) \<and>
    sent (frame_octets (ws_role s) Op_close True key (close_payload cr)) (s\<lparr>ws_wr_close := True\<rparr>) s'"
  using do_write_close_sent [of "s\<lparr>ws_wr_close := True\<rparr>" cr cf d] assms
  by (simp add: close_stream_def get_ws_def on_ws_def writable_def)

lemma read_close:
  assumes "reason_ok cr" "writable s" "clean_teardown s"
    and "nt_in (ws_net s) = frame_octets (peer (ws_role s)) Op_close True key (close_payload cr) @ r"
  shows "\<exists>s' k. read_message cf db (s, d) = (Err (Return Ec_closed), (s', d)) \<and> ws_failed s' \<and> ws_cr s' = cr \<and>
    ws_wr_close s' \<and> nt_in (ws_net s') = r \<and> nt_out (ws_net s') = nt_out (ws_net s) @ (if ws_wr_close s then []
      else frame_octets (ws_role s) Op_close True k (close_payload (reply_reason cr)))"
proof -
  from read_round_close [OF assms(1,2,4), of cf db d] obtain s1 k where
    s1: "read_frame_round cf db (s, d) = (Err (Goto_close cc_none), (s1, d))" "nt_in (ws_net s1) = r"
    "ws_cr s1 = cr" "ws_wr_close s1" "nt_teardown (ws_net s1) = nt_teardown (ws_net s)"
    "nt_out (ws_net s1) = nt_out (ws_net s) @ (if ws_wr_close s then []
      else frame_octets (ws_role s) Op_close True k (close_payload (reply_reason cr)))" by blast
  have "clean_teardown s1" using assms(3) s1(5) by (simp add: clean_teardown_def)
  from read_message_close [OF s1(1) do_close_closed [OF this]] s1 show ?thesis
    by (intro exI [of _ "s1\<lparr>ws_failed := True\<rparr>"] exI [of _ k]) simp
qed

lemma fed_close [simp]: "clean_teardown (fed xs s) = clean_teardown s" "ws_wr_close (fed xs s) = ws_wr_close s"
  by (simp_all add: fed_def clean_teardown_def)

text \<open>C7: The closing handshake. \<open>close\<close> writes one close frame; the peer's \<open>read\<close> answers it
  with one close frame that has the same code (1000 when there was none) and no text, stores the
  reason it received and ends in \<open>error::closed\<close>; the reader of the endpoint that began takes that
  answer, writes nothing more and ends in \<open>error::closed\<close> too.\<close>

theorem close_handshake:
  assumes "reason_ok cr" "writable s" "\<not> ws_wr_close s" "clean_teardown s"
    and "writable r" "\<not> ws_wr_close r" "clean_teardown r" "ws_role r = peer (ws_role s)"
  shows "\<exists>s' w r' w' s''.
    close_stream cf cr (s, d) = (Ok (), (s', d)) \<and> nt_out (ws_net s') = nt_out (ws_net s) @ w \<and>
    read_message cf' db (fed (w @ rest) r, b) = (Err (Return Ec_closed), (r', b)) \<and>
    ws_cr r' = cr \<and> ws_failed r' \<and> nt_in (ws_net r') = rest \<and> nt_out (ws_net r') = nt_out (ws_net r) @ w' \<and>
    read_message cf'' db' (fed (w' @ rest') s', b') = (Err (Return Ec_closed), (s'', b')) \<and>
    ws_cr s'' = reply_reason cr \<and> ws_failed s'' \<and> nt_in (ws_net s'') = rest' \<and>
    nt_out (ws_net s'') = nt_out (ws_net s')"
proof -
  from close_stream_sent [OF assms(2,3) length_close_payload [OF assms(1)], of cf d] obtain s' key where
    s': "close_stream cf cr (s, d) = (Ok (), (s', d))"
    "sent (frame_octets (ws_role s) Op_close True key (close_payload cr)) (s\<lparr>ws_wr_close := True\<rparr>) s'" by blast
  let ?w = "frame_octets (ws_role s) Op_close True key (close_payload cr)"
  from read_close [OF assms(1), of "fed (?w @ rest) r" key rest cf' db b] assms(5-8) obtain r' k where
    r': "read_message cf' db (fed (?w @ rest) r, b) = (Err (Return Ec_closed), (r', b))" "ws_failed r'" "ws_cr r' = cr"
    "nt_in (ws_net r') = rest" "nt_out (ws_net r') = nt_out (ws_net r) @
      frame_octets (peer (ws_role s)) Op_close True k (close_payload (reply_reason cr))" by auto
  let ?w' = "frame_octets (peer (ws_role s)) Op_close True k (close_payload (reply_reason cr))"
  have "writable s'" "ws_role s' = ws_role s" "ws_wr_close s'" "clean_teardown s'"
    using s'(2) assms(4) by (auto simp: sent_def clean_teardown_def)
  then obtain s'' where "read_message cf'' db' (fed (?w' @ rest') s', b') = (Err (Return Ec_closed), (s'', b'))"
    "ws_cr s'' = reply_reason cr" "ws_failed s''" "nt_in (ws_net s'') = rest'" "nt_out (ws_net s'') = nt_out (ws_net s')"
    using read_close [OF reason_ok_reply [OF assms(1)], of "fed (?w' @ rest') s'" k rest' cf'' db' b'] by auto
  with s' r' sent_out(2) [OF s'(2)] show ?thesis
    by (intro exI [of _ s'] exI [of _ ?w] exI [of _ r'] exI [of _ ?w'] exI [of _ s'']) simp
qed

theorem close_handshake_witness:
  "\<exists>s' w r' w' s''.
    close_stream cfg_example \<lparr>cr_code = 1001, cr_reason = [98, 121, 101]\<rparr> (endpoint Client, ()) = (Ok (), (s', ())) \<and>
    nt_out (ws_net s') = w \<and>
    read_message cfg_example static_db (fed w (endpoint Server), frame_streambuf) =
      (Err (Return Ec_closed), (r', frame_streambuf)) \<and>
    ws_cr r' = \<lparr>cr_code = 1001, cr_reason = [98, 121, 101]\<rparr> \<and> nt_out (ws_net r') = w' \<and>
    read_message cfg_example static_db (fed w' s', frame_streambuf) = (Err (Return Ec_closed), (s'', frame_streambuf)) \<and>
    ws_cr s'' = \<lparr>cr_code = 1001, cr_reason = []\<rparr>"
proof -
  let ?cr = "\<lparr>cr_code = 1001, cr_reason = [98, 121, 101]\<rparr>"
  have "is_valid_close_code 1001" "(1001 :: u16) \<noteq> cc_none" by (simp_all add: is_valid_close_code_def) (simp_all add: cc_defs)
  then have cr: "reason_ok ?cr" "reply_reason ?cr = \<lparr>cr_code = 1001, cr_reason = []\<rparr>"
    using utf8_ascii [of "[98, 121, 101]"] by (simp_all add: reason_ok_def reply_reason_def)
  show ?thesis
    using close_handshake [OF cr(1), of "endpoint Client" "endpoint Server" cfg_example "()" cfg_example static_db "[]"
        frame_streambuf cfg_example static_db "[]" frame_streambuf]
      endpoint_ready [of Client] endpoint_ready [of Server]
    unfolding cr(2) by (simp add: clean_teardown_def) blast
qed

section \<open>Failing the connection\<close>

text \<open>What failing with \<open>code\<close> does: one close frame with it, unless one was sent before.\<close>

definition failed_with :: "close_code \<Rightarrow> 'z ws \<Rightarrow> 'z ws \<Rightarrow> bool" where
  "failed_with code s s' \<longleftrightarrow> ws_failed s' \<and> ws_wr_close s' \<and>
     (\<exists>key. nt_out (ws_net s') = nt_out (ws_net s) @
        (if ws_wr_close s then [] else frame_octets (ws_role s) Op_close True key (big_uint16_buf code)))"

lemma do_close_fails:
  assumes "code \<noteq> cc_none" "writable s" "clean_teardown s"
  shows "\<exists>s'. do_close cf code (s, d) = (Err (Return Ec_failed), (s', d)) \<and> failed_with code s s' \<and>
    nt_in (ws_net s') = nt_in (ws_net s)"
proof -
  have td: "call_teardown s' = None" if "clean_teardown s'" for s' :: "'a ws"
    using that by (auto simp: call_teardown_def clean_teardown_def)
  show ?thesis
  proof (cases "ws_wr_close s")
    case True
    with assms td [of s] show ?thesis
      by (intro exI [of _ "s\<lparr>ws_failed := True\<rparr>"]) (simp add: do_close_def get_ws_def on_ws_def failed_with_def)
  next
    case False
    have p: "close_payload (cr_of_code code) = big_uint16_buf code"
      using assms(1) by (simp add: close_payload_def cr_of_code_def)
    have "writable (s\<lparr>ws_wr_close := True\<rparr>)" using assms(2) by (simp add: writable_def)
    from do_write_close_sent [OF this, of "cr_of_code code" cf d] p obtain s1 k where
      s1: "do_write_close cf (cr_of_code code) (s\<lparr>ws_wr_close := True\<rparr>, d) = (Ok (), (s1, d))"
      "sent (frame_octets (ws_role s) Op_close True k (big_uint16_buf code)) (s\<lparr>ws_wr_close := True\<rparr>) s1" by auto
    have "clean_teardown s1" using s1(2) assms(3) by (auto simp: sent_def clean_teardown_def)
    then have "do_close cf code (s, d) = (Err (Return Ec_failed), (s1\<lparr>ws_failed := True\<rparr>, d))"
      using False assms(1) s1(1) td by (simp add: do_close_def get_ws_def on_ws_def act_bind_assoc)
    with sent_out [OF s1(2)] False show ?thesis
      by (intro exI [of _ "s1\<lparr>ws_failed := True\<rparr>"]) (auto simp: failed_with_def)
  qed
qed

lemma read_message_fails:
  assumes "read_frame_round cf db (s, d) = (Err (Goto_close code), (s1, d1))" "code \<noteq> cc_none"
    and "writable s1" "clean_teardown s1"
    and "ws_wr_close s1 = ws_wr_close s" "ws_role s1 = ws_role s" "nt_out (ws_net s1) = nt_out (ws_net s)"
  shows "\<exists>s'. read_message cf db (s, d) = (Err (Return Ec_failed), (s', d1)) \<and> failed_with code s s' \<and>
    nt_in (ws_net s') = nt_in (ws_net s1)"
proof -
  have "\<exists>s'. do_close cf code (s1, d1) = (Err (Return Ec_failed) :: (leave, opcode \<times> bool) outcome, (s', d1)) \<and>
      failed_with code s1 s' \<and> nt_in (ws_net s') = nt_in (ws_net s1)"
    by (rule do_close_fails [OF assms(2-4)])
  then obtain s' where c: "do_close cf code (s1, d1) = (Err (Return Ec_failed) :: (leave, opcode \<times> bool) outcome, (s', d1))"
    "failed_with code s1 s'" "nt_in (ws_net s') = nt_in (ws_net s1)" by blast
  have "read_message cf db (s, d) = (Err (Return Ec_failed), (s', d1))"
    by (rule read_message_close [OF assms(1) c(1)])
  moreover have "failed_with code s s'" using c(2) assms(5-7) by (simp only: failed_with_def)
  ultimately show ?thesis using c(3) by blast
qed

lemma endpoint_clean [simp]: "clean_teardown (endpoint role)"
  by (simp add: clean_teardown_def endpoint_ready)





section \<open>An empty final frame\<close>

lemma utf8_seq_cont: "utf8_seq (x @ y) \<Longrightarrow> x \<noteq> [] \<Longrightarrow> y \<noteq> [] \<Longrightarrow> cont (hd y)"
  by (induction "x @ y" arbitrary: x y rule: utf8_seq.induct) (auto simp: Cons_eq_append_conv)

lemma cont_needed: "cont b \<Longrightarrow> needed b = 0"
  by (auto simp: cont_def needed_def word_le_nat_alt word_less_nat_alt)

lemma utf8_text_prefix: "utf8_text (p @ q) \<Longrightarrow> utf8_text q \<Longrightarrow> utf8_text p"
proof (induction "length p" arbitrary: p rule: less_induct)
  case less
  show ?case
  proof (cases "p = []")
    case False
    with less.prems(1) obtain x y where xy: "p @ q = x @ y" "utf8_seq x" "utf8_text y" "x \<noteq> []"
      by (auto elim: text_front)
    from xy(1) consider z where "p = x @ z" "y = z @ q" | z where "x = p @ z" "q = z @ y" "z \<noteq> []"
      unfolding append_eq_append_conv2 by (metis append_Nil append_Nil2)
    then show ?thesis
    proof cases
      case 1
      with less.hyps [of z] less.prems(2) xy show ?thesis by (auto intro: sequences.more)
    next
      case 2
      from utf8_seq_cont [of p z] 2 xy(2) False have "needed (hd z) = 0" by (simp add: cont_needed)
      moreover have "hd q = hd z" "q \<noteq> []" using 2 by simp_all
      moreover from less.prems(2) this(2) obtain x' y' where "q = x' @ y'" "utf8_seq x'" "x' \<noteq> []"
        by (rule text_front)
      moreover from this needed_seq [of x'] have "needed (hd q) \<noteq> 0" by simp
      ultimately show ?thesis by simp
    qed
  qed (simp add: sequences.none)
qed

text \<open>C23: The check that a text message is whole is skipped when its last frame is empty. A text
  that stops in the middle of a character is not UTF-8 (here \<open>q\<close> is what is missing), and sent in
  one final frame it is refused; but in a frame that is not final, followed by an empty final frame,
  \<open>read\<close> delivers it as a complete text message, and the checker is left waiting for \<open>q\<close>, which the
  next text message then has to begin with.\<close>

theorem empty_final_frame_skips_utf8:
  assumes "utf8_text (p @ q)" "\<not> utf8_text p"
    and "ready role mx s" "fits mx (length p)" "flat_inv b" "length p \<le> flat_room b"
  shows "\<exists>s' b'. read_message cf (flat_db junk)
      (fed (frames_octets (peer role) Op_text True [(k, p), (k', [])] @ rest) s, b) = (Ok Op_text, (s', b')) \<and>
    flat_bytes b' = flat_bytes b @ p \<and> nt_in (ws_net s') = rest \<and>
    utf_have (ws_rd_utf8 s') \<noteq> [] \<and> \<not> ready role mx s' \<and> utf8_text (utf_have (ws_rd_utf8 s') @ q)"
proof -
  let ?s = "fed (frames_octets (peer role) Op_text True [(k, p), (k', [])] @ rest) s"
  have f: "may_follow role mx Op_text Op_text 0 (p @ q) ?s"
    by (rule ready_follow) (use assms(1,3) in simp_all)
  have "nt_in (ws_net ?s) = frame_octets (peer role) Op_text False k p @ (frame_octets (peer role) Op_cont True k' [] @ rest)"
    by simp
  from flat.read_round_data [OF assms(5,6) f this, of cf junk] assms(4) obtain s1 b1 where
    s1: "read_frame_round cf (flat_db junk) (?s, b) = (Ok (if p = [] then None else Some (Op_text, False)), (s1, b1))"
    "receiving role mx Op_text True (length p) q s1"
    "nt_in (ws_net s1) = frame_octets (peer role) Op_cont True k' [] @ rest"
    "flat_inv b1" "db_contents (flat_db junk) b1 = db_contents (flat_db junk) b @ p" by auto
  have f1: "may_follow role mx Op_text Op_cont (length p) ([] @ q) s1" using s1(2) by (simp add: may_follow_def)
  from flat.read_round_data [OF s1(4) _ f1 s1(3), of cf junk] assms(4) obtain s2 b2 where
    s2: "read_frame_round cf (flat_db junk) (s1, b1) = (Ok (Some (Op_text, True)), (s2, b2))"
    "receiving role mx Op_text False (length p) q s2" "nt_in (ws_net s2) = rest" "quiet s1 s2"
    "db_contents (flat_db junk) b2 = db_contents (flat_db junk) b1" by auto
  have "read_message cf (flat_db junk) (?s, b) = read_message cf (flat_db junk) (s1, b1)"
    using read_message_round(1,2) [OF s1(1)] by (cases "p = []") simp_all
  then have run: "read_message cf (flat_db junk) (?s, b) = (Ok Op_text, (s2, b2))"
    using read_message_round(3) [OF s2(1) refl] by simp
  have q: "utf8_text (utf_have (ws_rd_utf8 s2) @ q)" using s2(2) by (simp add: receiving_def utf8_ready_def)
  then have "utf_have (ws_rd_utf8 s2) \<noteq> []" using utf8_text_prefix [OF assms(1)] assms(2) by auto
  with run s1(5) s2(3,5) q show ?thesis
    by (auto simp: flat_bytes_contents [of _ junk] ready_def simp del: flat_contents)
qed

theorem empty_final_frame_skips_utf8_witness:
  "\<exists>s' b'. read_message cfg_example (flat_db (\<lambda>_. 0))
      (fed (frames_octets Client Op_text True [(3, [0xE2, 0x82]), (4, [])]) (endpoint Server), flat_init 10) =
      (Ok Op_text, (s', b')) \<and> flat_bytes b' = [0xE2, 0x82] \<and> \<not> utf8_text [0xE2, 0x82]"
proof -
  have 1: "utf8_text ([0xE2, 0x82] @ [0xAC])"
    using sequences.more [of utf8_seq "[0xE2, 0x82, 0xAC]" "[]"] by (simp add: cont_def sequences.none)
  have 2: "\<not> utf8_text [0xE2, 0x82]"
  proof
    assume "utf8_text [0xE2, 0x82]"
    then obtain q r where q: "[0xE2, 0x82] = q @ r" "utf8_seq q" "q \<noteq> []" by (auto elim: text_front)
    then have "length q \<le> 2" "needed (hd q) = 3"
      by (auto simp: Cons_eq_append_conv needed_def)
    with needed_seq [OF q(2)] show False by simp
  qed
  have "\<exists>s' b'. read_message cfg_example (flat_db (\<lambda>_. 0))
      (fed (frames_octets (peer Server) Op_text True [(3, [0xE2, 0x82]), (4, [])] @ []) (endpoint Server), flat_init 10) =
      (Ok Op_text, (s', b')) \<and>
    flat_bytes b' = flat_bytes (flat_init 10) @ [0xE2, 0x82] \<and> nt_in (ws_net s') = [] \<and>
    utf_have (ws_rd_utf8 s') \<noteq> [] \<and> \<not> ready Server 16777216 s' \<and> utf8_text (utf_have (ws_rd_utf8 s') @ [0xAC])"
    by (rule empty_final_frame_skips_utf8 [OF 1 2]) (simp_all add: endpoint_ready fits_def)
  with 2 show ?thesis by auto
qed

end
