(* ===== verification/Act_Triples.thy ===== *)
theory Act_Triples
  imports Prelude
begin

text \<open>
  Total-correctness triples for member functions: from every state of \<open>P\<close>, \<open>m\<close> has defined
  behaviour; a normal return satisfies \<open>Q\<close>, an early exit with an error satisfies \<open>E\<close>. The
  rules follow the structure of a computation; \<open>triples\<close> collects them with the triples of
  the operations.
\<close>

definition holds :: "('s \<Rightarrow> bool) \<Rightarrow> ('s, 'e, 'a) act \<Rightarrow> ('a \<Rightarrow> 's \<Rightarrow> bool) \<Rightarrow> ('e \<Rightarrow> 's \<Rightarrow> bool) \<Rightarrow> bool" where
  "holds P m Q E \<longleftrightarrow>
     (\<forall>s. P s \<longrightarrow> (case m s of (Ok a, s') \<Rightarrow> Q a s' | (Err e, s') \<Rightarrow> E e s' | (Oob, s') \<Rightarrow> False))"

named_theorems triples \<open>rules and triples of operations\<close>

lemma holdsI:
  "(\<And>s. P s \<Longrightarrow> case m s of (Ok a, s') \<Rightarrow> Q a s' | (Err e, s') \<Rightarrow> E e s' | (Oob, s') \<Rightarrow> False) \<Longrightarrow> holds P m Q E"
  by (simp add: holds_def)

lemma holdsD:
  assumes "holds P m Q E" "P s"
  shows "m s = (Ok a, s') \<Longrightarrow> Q a s'" "m s = (Err e, s') \<Longrightarrow> E e s'" "m s \<noteq> (Oob, s')"
  using assms by (fastforce simp: holds_def)+

lemma holds_case:
  "holds P m Q E \<Longrightarrow> P s \<Longrightarrow> case m s of (Ok a, s') \<Rightarrow> Q a s' | (Err e, s') \<Rightarrow> E e s' | (Oob, s') \<Rightarrow> False"
  by (simp add: holds_def)

lemma holds_run:
  assumes "holds P m Q E" "P s"
  obtains (Ok) a s' where "m s = (Ok a, s')" "Q a s'"
    | (Err) e s' where "m s = (Err e, s')" "E e s'"
proof (cases "m s")
  case (Pair r s')
  then show thesis using holdsD [OF assms] that by (cases r) auto
qed

lemma holds_conseq:
  assumes "holds P m Q E" "\<And>s. P' s \<Longrightarrow> P s" "\<And>a s. Q a s \<Longrightarrow> Q' a s" "\<And>e s. E e s \<Longrightarrow> E' e s"
  shows "holds P' m Q' E'"
proof (rule holdsI)
  fix s
  assume "P' s"
  with assms(2) have "P s" by blast
  from holds_run [OF assms(1) this] show
    "case m s of (Ok a, s') \<Rightarrow> Q' a s' | (Err e, s') \<Rightarrow> E' e s' | (Oob, s') \<Rightarrow> False"
    by (cases) (auto simp: assms(3,4))
qed

lemma holds_bind [triples]:
  assumes "holds P m R E" "\<And>a. holds (R a) (f a) Q E"
  shows "holds P (act_bind m f) Q E"
proof (rule holdsI)
  fix s
  assume P: "P s"
  show "case act_bind m f s of (Ok a, s') \<Rightarrow> Q a s' | (Err e, s') \<Rightarrow> E e s' | (Oob, s') \<Rightarrow> False"
  proof (rule holds_run [OF assms(1) P])
    fix a s' assume a: "m s = (Ok a, s')" "R a s'"
    from holds_run [OF assms(2) a(2)] a(1) show ?thesis by (cases) auto
  qed auto
qed

lemma holds_if [triples]:
  "(b \<Longrightarrow> holds P m Q E) \<Longrightarrow> (\<not> b \<Longrightarrow> holds P n Q E) \<Longrightarrow> holds P (if b then m else n) Q E"
  by simp

lemma holds_prod [triples]:
  "(\<And>x y. p = (x, y) \<Longrightarrow> holds P (f x y) Q E) \<Longrightarrow> holds P (case p of (x, y) \<Rightarrow> f x y) Q E"
  by (cases p) simp

lemma holds_option [triples]:
  "(x = None \<Longrightarrow> holds P m Q E) \<Longrightarrow> (\<And>a. x = Some a \<Longrightarrow> holds P (f a) Q E) \<Longrightarrow>
     holds P (case x of None \<Rightarrow> m | Some a \<Rightarrow> f a) Q E"
  by (cases x) simp_all

lemma holds_ret: "(\<And>s. P s \<Longrightarrow> Q a s) \<Longrightarrow> holds P (act_ret a) Q E"
  by (simp add: holds_def)

lemma holds_err: "(\<And>s. P s \<Longrightarrow> E e s) \<Longrightarrow> holds P (act_err e) Q E"
  by (simp add: holds_def)

lemma holds_get: "(\<And>s. P s \<Longrightarrow> Q (g s) s) \<Longrightarrow> holds P (act_get g) Q E"
  by (simp add: holds_def)

lemma holds_put: "(\<And>s. P s \<Longrightarrow> Q () (u s)) \<Longrightarrow> holds P (act_put u) Q E"
  by (simp add: holds_def)

text \<open>A fact that does not depend on the state moves out of the precondition.\<close>

lemma holds_pre: "(\<And>s. P s \<Longrightarrow> A) \<Longrightarrow> (A \<Longrightarrow> holds P m Q E) \<Longrightarrow> holds P m Q E"
  by (auto simp: holds_def)

lemma holds_conj: "(A \<Longrightarrow> holds P m Q E) \<Longrightarrow> holds (\<lambda>s. A \<and> P s) m Q E"
  by (auto simp: holds_def)

end
