(* ===== verification/Ws_Safety.thy ===== *)
theory Ws_Safety
  imports Ws_Closing Act_Triples
begin

text \<open>
  The invariant of an open WebSocket stream and its preservation by every public operation: no
  operation dereferences outside a buffer, fails an assertion or meets a null object, whatever
  the peer sends, however the network cuts it, and whichever reads and writes fail.
\<close>

section \<open>The invariant\<close>

text \<open>
  \<open>ws_base\<close> holds of the object whatever happened to the connection: the key generator is
  seeded, buffers that are in use have a usable size, the compression objects exist where the
  flags say so. \<open>ws_between\<close> is what holds between two frames in addition.
\<close>

definition ws_base :: "'z ws \<Rightarrow> bool" where
  "ws_base s \<longleftrightarrow> maskgen_ok (ws_maskgen s) \<and> 8 \<le> ws_rd_buf_size_opt s \<and> 8 \<le> ws_wr_buf_size_opt s \<and>
     (ws_rd_buf s \<longrightarrow> 8 \<le> ws_rd_buf_size s) \<and>
     (ws_rd_cont s \<longrightarrow> ws_rd_op s = Op_text \<or> ws_rd_op s = Op_binary) \<and>
     (ws_wr_cont s \<longrightarrow> 8 \<le> ws_wr_buf_size s \<and> (ws_wr_compress s \<longrightarrow> pmd_is_set s))"

definition ws_between :: "'z ws \<Rightarrow> bool" where
  "ws_between s \<longleftrightarrow> (ws_rd_cont s \<and> pmd_is_set s \<longrightarrow> ws_rd_buf s)"

definition ws_inv :: "'z ws \<Rightarrow> bool" where
  "ws_inv s \<longleftrightarrow> ws_base s \<and> ws_between s \<and> utf8_inv (ws_rd_utf8 s)"

lemmas ws_inv_defs = ws_inv_def ws_base_def ws_between_def

text \<open>A stream that has just been opened has the invariant if its UTF-8 checker is clean.\<close>

lemma ws_open_inv:
  assumes "maskgen_ok (ws_maskgen s)" "8 \<le> ws_rd_buf_size_opt s" "8 \<le> ws_wr_buf_size_opt s"
    "ws_rd_buf s \<longrightarrow> 8 \<le> ws_rd_buf_size s" "utf8_inv (ws_rd_utf8 s)"
  shows "ws_inv (ws_open cd role s)"
  using assms by (cases role) (auto simp: ws_open_def ws_inv_defs Let_def)

lemma ws_init_inv: "ws_inv (ws_open cd role (ws_init rng nt))"
  by (rule ws_open_inv) (simp_all add: ws_init_def maskgen_ok_rekey)

text \<open>
  How an operation leaves: with the connection failed, on the way to the label \<open>do_close\<close>, or by
  the exception of a full dynamic buffer, which keeps the whole invariant.
\<close>

definition left :: "('b \<Rightarrow> bool) \<Rightarrow> leave \<Rightarrow> 'z ws \<times> 'b \<Rightarrow> bool" where
  "left I e = (\<lambda>(s, d). ws_base s \<and> ws_between s \<and> I d \<and>
     (case e of Return _ \<Rightarrow> ws_failed s | Goto_close _ \<Rightarrow> True | Throw \<Rightarrow> utf8_inv (ws_rd_utf8 s)))"

text \<open>A way out of a public operation is not a jump.\<close>

definition exits :: "('b \<Rightarrow> bool) \<Rightarrow> leave \<Rightarrow> 'z ws \<times> 'b \<Rightarrow> bool" where
  "exits I e st \<longleftrightarrow> left I e st \<and> (\<forall>code. e \<noteq> Goto_close code)"

definition sound :: "('b \<Rightarrow> bool) \<Rightarrow> 'z ws \<times> 'b \<Rightarrow> bool" where
  "sound I = (\<lambda>(s, d). ws_inv s \<and> I d)"


text \<open>What does not depend on the next layer survives its calls.\<close>

definition calm :: "('b \<Rightarrow> bool) \<Rightarrow> 'z ws \<times> 'b \<Rightarrow> bool" where
  "calm I = (\<lambda>(s, d). ws_base s \<and> ws_between s \<and> I d)"

definition net_free :: "('z ws \<times> 'b \<Rightarrow> bool) \<Rightarrow> bool" where
  "net_free J \<longleftrightarrow> (\<forall>s d nt f. J (s, d) \<longrightarrow> J (s\<lparr>ws_net := nt, ws_failed := f\<rparr>, d))"

lemma net_freeD: "net_free J \<Longrightarrow> J (s, d) \<Longrightarrow> J (s\<lparr>ws_net := nt, ws_failed := f\<rparr>, d)"
  by (simp add: net_free_def)

lemma net_free_failed: "net_free J \<Longrightarrow> J (s, d) \<Longrightarrow> J (s\<lparr>ws_failed := f\<rparr>, d)"
  using net_freeD [of J s d f "ws_net s"] by simp

lemma net_free_sound [simp]: "net_free (sound I)"
  by (simp add: net_free_def sound_def ws_inv_defs pmd_is_set_def)

lemma sound_calm: "sound I st \<Longrightarrow> calm I st"
  by (auto simp: sound_def calm_def ws_inv_def split: prod.splits)

lemma calm_left: "calm I (s, d) \<Longrightarrow> ws_failed s \<Longrightarrow> left I (Return e) (s, d)"
    "calm I st \<Longrightarrow> left I (Goto_close c) st"
  by (auto simp: calm_def left_def split: prod.splits)

lemma sound_left: "sound I st \<Longrightarrow> left I Throw st" "sound I st \<Longrightarrow> left I (Goto_close c) st"
  by (auto simp: sound_def left_def ws_inv_def split: prod.splits)

lemma net_triples:
  assumes J: "net_free J" "\<And>st. J st \<Longrightarrow> calm I st"
  shows "holds J (net_read n) (\<lambda>xs st. length xs = n \<and> J st) (left I)"
    and "holds J (net_read_some m) (\<lambda>xs st. length xs \<le> m \<and> (xs = [] \<longrightarrow> m = 0) \<and> J st) (left I)"
    and "holds J (net_write ys) (\<lambda>_. J) (\<lambda>e st. exits I e st \<and> J st)"
proof -
  have l: "J (s, d) \<Longrightarrow> left I (Return e) (s\<lparr>ws_net := nt, ws_failed := True\<rparr>, d)" for s d nt e
    by (rule calm_left(1)) (auto intro: J(2) net_freeD [OF J(1)])
  have l': "J (s, d) \<Longrightarrow> left I (Return e) (s\<lparr>ws_failed := True\<rparr>, d)" for s d e
    using l [of s d e "ws_net s"] by simp
  show "holds J (net_read n) (\<lambda>xs st. length xs = n \<and> J st) (left I)"
    by (auto simp: holds_def net_read_def Let_def intro: l net_freeD [OF J(1)])
  show "holds J (net_read_some m) (\<lambda>xs st. length xs \<le> m \<and> (xs = [] \<longrightarrow> m = 0) \<and> J st) (left I)"
    by (auto simp: holds_def net_read_some_def Let_def min_def split: list.split
        intro: l' net_freeD [OF J(1)] net_free_failed [OF J(1)])
  show "holds J (net_write ys) (\<lambda>_. J) (\<lambda>e st. exits I e st \<and> J st)"
    by (auto simp: exits_def holds_def net_write_def Let_def split: list.split option.split
        intro: l net_freeD [OF J(1)])
qed

section \<open>Reading a header\<close>

text \<open>\<open>frame_streambuf\<close> holds \<open>n\<close> octets and has room for \<open>m\<close> more.\<close>

definition fb_holds :: "nat \<Rightarrow> nat \<Rightarrow> static_buffer \<Rightarrow> bool" where
  "fb_holds n m fb \<longleftrightarrow> static_inv fb \<and> length (db_contents static_db fb) = n \<and> m \<le> static_room fb"

lemma fb_read_holds:
  assumes fb: "fb_holds k m fb" "n \<le> m"
    and J: "net_free J" "\<And>st. J st \<Longrightarrow> calm I st"
  shows "holds J (fb_read n fb) (\<lambda>fb st. fb_holds (k + n) (m - n) fb \<and> J st) (left I)"
proof (rule holdsI)
  fix st
  assume st: "J st"
  have append: "\<exists>fb1. static_prepare n fb = Ok fb1 \<and> (\<forall>xs. length xs = n \<longrightarrow>
      fb_holds (k + n) (m - n) (static_commit n (static_store xs fb1)))"
  proof -
    from static.prepare_ok [of fb n] fb obtain fb1 where
      1: "static_prepare n fb = Ok fb1" "static_inv fb1"
        "db_contents static_db fb1 = db_contents static_db fb" "static_prepared fb1 = n"
        "static_room fb1 = static_room fb"
      by (auto simp: fb_holds_def simp del: static_contents)
    have "fb_holds (k + n) (m - n) (static_commit n (static_store xs fb1))" if "length xs = n" for xs
      using static.store_commit [OF 1(2), of xs] 1(3,4,5) fb that
      by (simp add: fb_holds_def del: static_contents) linarith
    with 1(1) show ?thesis by blast
  qed
  then obtain fb1 where 1: "static_prepare n fb = Ok fb1"
    "\<And>xs. length xs = n \<Longrightarrow> fb_holds (k + n) (m - n) (static_commit n (static_store xs fb1))" by blast
  from holds_run [OF net_triples(1) [OF J, where n = n] st] show
    "case fb_read n fb st of (Ok fb, st') \<Rightarrow> fb_holds (k + n) (m - n) fb \<and> J st'
      | (Err e, st') \<Rightarrow> left I e st' | (Oob, st') \<Rightarrow> False"
    by cases (simp_all add: fb_read_def lift_throw_def act_bind_def act_defs 1 split: outcome.split)
qed


text \<open>What \<open>read_fh1\<close> has established of a header it accepts, and what of the object then.\<close>

definition checked :: "frame_header \<Rightarrow> 'z ws \<Rightarrow> bool" where
  "checked fh s \<longleftrightarrow>
     (if is_control (fh_op fh) then fh_op fh \<in> {Op_close, Op_ping, Op_pong} \<and> fh_len fh \<le> 125
      else if fh_op fh = Op_cont then ws_rd_cont s else fh_op fh \<in> {Op_text, Op_binary})"

lemma op_classes:
  "is_control op \<and> \<not> is_reserved op \<longleftrightarrow> op \<in> {Op_close, Op_ping, Op_pong}"
  "\<not> is_control op \<and> \<not> is_reserved op \<longleftrightarrow> op \<in> {Op_cont, Op_text, Op_binary}"
  by (cases op; simp add: is_control_def is_reserved_def less_eq_opcode_def)+

lemma fh_check_checked:
  assumes "fh_check fh s = (ok, s')"
  shows "ok \<Longrightarrow> checked fh s'" "ws_inv s \<Longrightarrow> ws_inv s'" "ws_role s' = ws_role s"
proof -
  show "checked fh s'" if ok
    using assms that op_classes [of "fh_op fh"]
    by (auto simp: fh_check_def checked_def split: if_splits)
  show "ws_inv s'" if "ws_inv s"
    using assms that by (auto simp: fh_check_def ws_inv_defs pmd_is_set_def split: if_splits)
  show "ws_role s' = ws_role s"
    using assms by (auto simp: fh_check_def split: if_splits)
qed

lemma read_fh1_checked:
  assumes fb: "fb_holds 2 m fb" and s: "ws_inv s"
  shows "\<exists>code n fh fb' s'. read_fh1 static_db fh0 fb s = Ok ((code, n), fh, fb', s') \<and>
    fb_holds 0 m fb' \<and> ws_inv s' \<and>
    (code = cc_none \<longrightarrow> n = fh_need (fh_len fh) (fh_mask fh) \<and> checked fh s')"
proof -
  let ?bs = "db_contents static_db fb" and ?fb = "static_consume 2 fb"
  have fb': "static_inv fb" "length ?bs = 2" "m \<le> static_room fb" using fb by (auto simp: fb_holds_def)
  from static.take_octets_ok [OF fb'(1), of ?bs "[]" 2] fb' have
    t: "(take_octets static_db 2 fb :: (unit, _) outcome) = Ok (?bs, ?fb)" "fb_holds 0 m ?fb"
    by (auto simp: fb_holds_def simp del: static_contents)
  let ?fh = "fh_parse (?bs ! 0) (?bs ! 1) fh0"
  obtain ok s' where c: "fh_check ?fh s = (ok, s')" by (cases "fh_check ?fh s")
  note f = fh_check_checked [OF c]
  let ?err = "Ok ((cc_protocol_error, 0), ?fh, ?fb, s')"
    and ?good = "Ok ((cc_none, fh_need (fh_len ?fh) (fh_mask ?fh)), ?fh, ?fb, s')"
  have "read_fh1 static_db fh0 fb s \<in> {?err, ?good}" "\<not> ok \<Longrightarrow> read_fh1 static_db fh0 fb s = ?err"
    by (simp_all add: read_fh1_def t(1) c Let_def del: static_contents One_nat_def)
  moreover have "cc_protocol_error \<noteq> cc_none" by (simp add: cc_defs)
  ultimately show ?thesis
    using t(2) f(1) f(2) [OF s] by (cases ok) (auto simp del: static_contents)
qed

text \<open>What is known of an accepted frame: \<open>ws_between\<close> may wait for \<open>rd_begin\<close>.\<close>

definition accepted :: "('b \<Rightarrow> bool) \<Rightarrow> frame_header \<Rightarrow> 'z ws \<times> 'b \<Rightarrow> bool" where
  "accepted I fh = (\<lambda>(s, d). ws_base s \<and> utf8_inv (ws_rd_utf8 s) \<and> I d \<and>
     (if is_control (fh_op fh) then ws_between s \<and> fh_op fh \<in> {Op_close, Op_ping, Op_pong} \<and> fh_len fh \<le> 125
      else (ws_rd_op s = Op_text \<or> ws_rd_op s = Op_binary) \<and>
        (fh_op fh = Op_cont \<and> pmd_is_set s \<longrightarrow> ws_rd_buf s)))"

lemma read_len_ok:
  assumes "fb_holds n m fb" "fh_need len False \<le> n"
  shows "\<exists>r fb'. read_len static_db len fb = Ok (r, fb') \<and> fb_holds (n - fh_need len False) m fb' \<and>
    (len \<le> 125 \<longrightarrow> r = Some len)"
proof -
  have take: "\<exists>bs fb'. (take_octets static_db k fb :: (unit, _) outcome) = Ok (bs, fb') \<and> length bs = k \<and>
      fb_holds (n - k) m fb'" if "k \<le> n" for k
  proof -
    have "static_inv fb" "length (db_contents static_db fb) = n" "m \<le> static_room fb"
      using assms(1) by (auto simp: fb_holds_def)
    with static.take_octets_ok [of fb "take k (db_contents static_db fb)" "drop k (db_contents static_db fb)" k]
      that show ?thesis
      by (intro exI [of _ "take k (db_contents static_db fb)"] exI [of _ "static_consume k fb"])
        (auto simp: fb_holds_def min_absorb2 simp del: static_contents)
  qed
  consider "len = 126" | "len = 127" | "len \<noteq> 126" "len \<noteq> 127" by blast
  then show ?thesis
  proof cases
    case 1
    with take [of 2] assms(2) show ?thesis by (auto simp: read_len_def fh_need_def big_uint16_load)
  next
    case 2
    with take [of 8] assms(2) show ?thesis by (auto simp: read_len_def fh_need_def big_uint64_load)
  next
    case 3
    with assms(1) show ?thesis by (simp add: read_len_def fh_need_def)
  qed
qed


lemma read_fh2_accepted:
  assumes fb: "fb_holds (fh_need (fh_len fh) (fh_mask fh)) m fb" and s: "ws_inv s" "checked fh s" "I d"
  shows "\<exists>code fh' fb' s'. read_fh2 static_db fh fb s = Ok (code, fh', fb', s') \<and>
    (code \<noteq> cc_none \<longrightarrow> ws_inv s') \<and> (code = cc_none \<longrightarrow> fb_holds 0 m fb' \<and> accepted I fh' (s', d))"
proof -
  let ?len = "fh_len fh" and ?n = "if fh_mask fh then 4 else 0 :: nat"
  have n: "fh_need ?len (fh_mask fh) = fh_need ?len False + ?n" by (simp add: fh_need_def)
  have "fb_holds (fh_need ?len False + ?n) m fb" using fb n by simp
  from read_len_ok [OF this, of ?len] obtain r fb1 where
    1: "read_len static_db ?len fb = Ok (r, fb1)" "fb_holds ?n m fb1" "?len \<le> 125 \<longrightarrow> r = Some ?len" by auto
  have ec: "cc_protocol_error \<noteq> cc_none" "cc_too_big \<noteq> cc_none" by (simp_all add: cc_defs)
  show ?thesis
  proof (cases r)
    case None
    with 1(1) s ec show ?thesis by (simp add: read_fh2_def)
  next
    case (Some len)
    have "\<exists>key fb2. read_key static_db (fh_mask fh) fb1 = Ok (key, fb2) \<and> fb_holds 0 m fb2"
    proof -
      have b: "static_inv fb1" "length (db_contents static_db fb1) = ?n" "m \<le> static_room fb1"
        using 1(2) by (auto simp: fb_holds_def)
      with static.take_octets_ok [of fb1 "db_contents static_db fb1" "[]" ?n] 1(2) show ?thesis
        by (auto simp: read_key_def fb_holds_def little_uint32_load simp del: static_contents)
    qed
    then obtain key fb2 where 2: "read_key static_db (fh_mask fh) fb1 = Ok (key, fb2)" "fb_holds 0 m fb2" by blast
    let ?fh = "fh\<lparr>fh_len := len, fh_key := key\<rparr>"
    show ?thesis
    proof (cases "is_control (fh_op fh)")
      case True
      with s 1(3) Some have "accepted I ?fh (s, d)"
        by (auto simp: accepted_def checked_def ws_inv_def)
      with True 1(1) 2 Some s show ?thesis by (simp add: read_fh2_def Let_def)
    next
      case False
      have "accepted I ?fh (if fh_op fh = Op_cont then s\<lparr>ws_rd_cont := \<not> fh_fin fh\<rparr>
          else s\<lparr>ws_rd_size := 0, ws_rd_op := fh_op fh, ws_rd_cont := \<not> fh_fin fh\<rparr>, d)"
        using s False by (auto simp: accepted_def checked_def ws_inv_defs pmd_is_set_def)
      with False 1(1) 2 Some s ec show ?thesis
        by (auto simp: read_fh2_def Let_def)
    qed
  qed
qed

lemma accepted_failed: "accepted I fh (s, d) \<Longrightarrow> accepted I fh (s\<lparr>ws_failed := f\<rparr>, d)"
  by (auto simp: accepted_def ws_inv_defs pmd_is_set_def)

lemma read_header_holds:
  "holds (sound I) read_header (\<lambda>(fh, fb) st. fb_holds 0 125 fb \<and> accepted I fh st) (left I)"
proof -
  have start: "fb_holds 0 139 frame_streambuf" by (simp add: fb_holds_def del: static_contents)
  let ?mid = "\<lambda>((code, n), fh, fb) st. sound I st \<and>
      (code = cc_none \<longrightarrow> n = fh_need (fh_len fh) (fh_mask fh) \<and> fb_holds 0 137 fb \<and> checked fh (fst st))"
  have two: "holds (sound I) (fb_read 2 frame_streambuf) (\<lambda>fb st. fb_holds 2 137 fb \<and> sound I st) (left I)"
    using fb_read_holds [OF start _ net_free_sound sound_calm, of 2] by (simp add: numeral_2_eq_2)
  have fh1: "holds (\<lambda>st. fb_holds 2 137 fb \<and> sound I st) (do_fh1 fb) ?mid (left I)" for fb
  proof (rule holdsI, elim conjE)
    fix st
    assume fb: "fb_holds 2 137 fb" and st: "sound I st"
    obtain s d where sd: "st = (s, d)" by fastforce
    have "ws_inv s" "I d" using st sd by (simp_all add: sound_def)
    with read_fh1_checked [OF fb, of s fh_uninit] sd show "case do_fh1 fb st of (Ok a, st') \<Rightarrow> ?mid a st'
        | (Err e, st') \<Rightarrow> left I e st' | (Oob, st') \<Rightarrow> False"
      by (auto simp: do_fh1_def sound_def)
  qed
  let ?ready = "\<lambda>fh fb st. sound I st \<and> checked fh (fst st) \<and> fb_holds (fh_need (fh_len fh) (fh_mask fh)) 125 fb"
  have more: "holds (\<lambda>st. sound I st \<and> checked fh (fst st))
      (if fh_need (fh_len fh) (fh_mask fh) > 0 then fb_read (fh_need (fh_len fh) (fh_mask fh)) fb else act_ret fb)
      (?ready fh) (left I)" if fb: "fb_holds 0 137 fb" for fh fb
  proof (rule holds_if)
    let ?J = "\<lambda>st. sound I st \<and> checked fh (fst st)"
    have n: "fh_need (fh_len fh) (fh_mask fh) \<le> 12" by (simp add: fh_need_def)
    have J: "net_free ?J"
      using net_free_sound [of I] by (auto simp: net_free_def checked_def)
    have "holds ?J (fb_read (fh_need (fh_len fh) (fh_mask fh)) fb)
        (\<lambda>fb' st. fb_holds (0 + fh_need (fh_len fh) (fh_mask fh)) (137 - fh_need (fh_len fh) (fh_mask fh)) fb' \<and> ?J st)
        (left I)"
      by (rule fb_read_holds [OF fb _ J]) (use n in \<open>auto simp: sound_calm\<close>)
    then show "holds ?J (fb_read (fh_need (fh_len fh) (fh_mask fh)) fb) (?ready fh) (left I)"
      by (rule holds_conseq) (use n in \<open>auto simp: fb_holds_def\<close>)
    show "holds ?J (act_ret fb) (?ready fh) (left I)" if "\<not> fh_need (fh_len fh) (fh_mask fh) > 0"
      using fb that by (intro holds_ret) (auto simp: fb_holds_def)
  qed
  let ?post = "\<lambda>(code, fh, fb) st. (code \<noteq> cc_none \<longrightarrow> sound I st) \<and>
      (code = cc_none \<longrightarrow> fb_holds 0 125 fb \<and> accepted I fh st)"
  have fh2: "holds (?ready fh fb) (do_fh2 fh fb) ?post (left I)" for fh fb
  proof (rule holdsI, elim conjE)
    fix st
    assume st: "sound I st" "checked fh (fst st)" and fb: "fb_holds (fh_need (fh_len fh) (fh_mask fh)) 125 fb"
    obtain s d where sd: "st = (s, d)" by fastforce
    have "ws_inv s" "checked fh s" "I d" using st sd by (simp_all add: sound_def)
    from read_fh2_accepted [where I = I, OF fb this] sd \<open>I d\<close> show "case do_fh2 fh fb st of (Ok a, st') \<Rightarrow> ?post a st'
        | (Err e, st') \<Rightarrow> left I e st' | (Oob, st') \<Rightarrow> False"
      by (auto simp: do_fh2_def sound_def)
  qed
  let ?Q = "\<lambda>(fh, fb) st. fb_holds 0 125 fb \<and> accepted I fh st"
  have finish: "holds (?post (code, fh, fb)) (act_bind (on_ws (\<lambda>s. s\<lparr>ws_failed := False\<rparr>)) (\<lambda>_.
      if code \<noteq> cc_none then act_err (Goto_close code) else act_ret (fh, fb))) ?Q (left I)" for code fh fb
    by (auto simp: holds_def on_ws_def act_put_def sound_left(2) net_free_failed [OF net_free_sound] accepted_failed)
  have rest: "holds (?mid ((code, n), fh, fb)) (if code \<noteq> cc_none then act_err (Goto_close code)
      else act_bind (if n > 0 then fb_read n fb else act_ret fb) (\<lambda>fb.
        act_bind (do_fh2 fh fb) (\<lambda>(code, fh, fb).
        act_bind (on_ws (\<lambda>s. s\<lparr>ws_failed := False\<rparr>)) (\<lambda>_.
        if code \<noteq> cc_none then act_err (Goto_close code) else act_ret (fh, fb))))) ?Q (left I)" for code n fh fb
  proof (rule holds_if)
    assume "\<not> code \<noteq> cc_none"
    then have mid: "?mid ((code, n), fh, fb) = (\<lambda>st. (n = fh_need (fh_len fh) (fh_mask fh) \<and> fb_holds 0 137 fb) \<and>
        (sound I st \<and> checked fh (fst st)))" by auto
    show "holds (?mid ((code, n), fh, fb)) (act_bind (if n > 0 then fb_read n fb else act_ret fb) (\<lambda>fb.
        act_bind (do_fh2 fh fb) (\<lambda>(code, fh, fb).
        act_bind (on_ws (\<lambda>s. s\<lparr>ws_failed := False\<rparr>)) (\<lambda>_.
        if code \<noteq> cc_none then act_err (Goto_close code) else act_ret (fh, fb))))) ?Q (left I)"
      unfolding mid
    proof (rule holds_conj, elim conjE, hypsubst)
      assume fb: "fb_holds 0 137 fb"
      show "holds (\<lambda>st. sound I st \<and> checked fh (fst st))
          (act_bind (if fh_need (fh_len fh) (fh_mask fh) > 0 then fb_read (fh_need (fh_len fh) (fh_mask fh)) fb
            else act_ret fb) (\<lambda>fb. act_bind (do_fh2 fh fb) (\<lambda>(code, fh, fb).
          act_bind (on_ws (\<lambda>s. s\<lparr>ws_failed := False\<rparr>)) (\<lambda>_.
          if code \<noteq> cc_none then act_err (Goto_close code) else act_ret (fh, fb))))) ?Q (left I)"
        by (intro holds_bind [OF more [OF fb]] holds_bind [OF fh2]) (simp only: split_paired_all prod.case, rule finish [unfolded prod.case])
    qed
  qed (rule holds_err, auto simp: sound_left(2))
  show ?thesis
    unfolding read_header_def
    by (intro holds_bind [OF two] holds_bind [OF fh1]) (simp only: split_paired_all prod.case, rule rest [unfolded prod.case])
qed

section \<open>The UTF-8 checker has no error result\<close>

lemma valid_not_Err: "valid xs \<noteq> Err e"
  by (auto simp: valid_eq ob_eq_Err rd_not_Err)

lemma fast_loop_not_Err: "fast_loop al xs \<noteq> Err e"
proof (induction al xs rule: fast_loop.induct)
  case (1 al xs)
  then show ?case
    by (subst fast_loop.simps)
      (auto simp: ob_eq_Err ascii8_def valid_not_Err split: outcome.split option.split if_splits)
qed

lemma slow_loop_not_Err: "slow_loop xs \<noteq> Err e"
proof (induction xs rule: slow_loop.induct)
  case (1 xs)
  then show ?case
    by (subst slow_loop.simps) (auto simp: valid_not_Err split: outcome.split option.split)
qed

lemma tail_loop_not_Err: "tail_loop h xs \<noteq> Err e"
proof (induction h xs rule: tail_loop.induct)
  case (1 h xs)
  then show ?case
    by (subst tail_loop.simps)
      (auto simp: ob_eq_Err rd_not_Err valid_not_Err Let_def split: outcome.split option.split)
qed

lemma utf8_write_not_Err: "utf8_write al xs c \<noteq> Err e"
  by (auto simp: utf8_write_def write_rest_def ob_eq_Err valid_not_Err fast_loop_not_Err slow_loop_not_Err
      tail_loop_not_Err Let_def split: option.splits)

lemma utf8_write_ok:
  assumes "utf8_inv c"
  obtains ok c' where "utf8_write al xs c = Ok (ok, c')" "ok \<longrightarrow> utf8_inv c'"
  using utf8_write_not_Oob [OF assms, of al xs] utf8_write_not_Err [of al xs c] utf8_write_sound [OF assms, of al xs]
  by (cases "utf8_write al xs c") auto

section \<open>Control frames\<close>

text \<open>What an operation that draws a mask key does to the object.\<close>

definition keyed :: "'z ws \<Rightarrow> 'z ws \<Rightarrow> bool" where
  "keyed s s' \<longleftrightarrow> (\<exists>g. maskgen_ok g \<and> s' = s\<lparr>ws_maskgen := g\<rparr>)"

lemma keyed_inv: "keyed s s' \<Longrightarrow> ws_inv s \<Longrightarrow> ws_inv s'"
  by (auto simp: keyed_def ws_inv_defs pmd_is_set_def)

lemma keyed_sound: "keyed s s' \<Longrightarrow> sound I (s, d) \<Longrightarrow> sound I (s', d)"
  by (auto simp: sound_def keyed_inv)

lemma keyed_role: "keyed s s' \<Longrightarrow> ws_role s' = ws_role s"
  by (auto simp: keyed_def)

lemma ws_inv_maskgen: "ws_inv s \<Longrightarrow> maskgen_ok (ws_maskgen s)"
  by (simp add: ws_inv_def ws_base_def)

lemma next_key_ok: "maskgen_ok (ws_maskgen s) \<Longrightarrow> \<exists>key s'. next_key s = Ok (key, s') \<and> keyed s s'"
  by (auto simp: next_key_def maskgen_call_Some(1) keyed_def intro: minstd_next_ok)

lemma control_header_keyed:
  assumes "maskgen_ok (ws_maskgen s)"
  shows "\<exists>fh s'. (control_header op n s :: ('e, _) outcome) = Ok (fh, s') \<and> keyed s s'"
proof (cases "ws_role s")
  case Client
  obtain key s' where "(next_key s :: ('e, _) outcome) = Ok (key, s')" "keyed s s'"
    using next_key_ok [OF assms] by blast
  with Client show ?thesis by (simp add: control_header_def)
next
  case Server
  have "keyed s s" using assms by (auto simp: keyed_def intro!: exI [of _ "ws_maskgen s"])
  with Server show ?thesis by (simp add: control_header_def)
qed

context dynamic_buffer
begin

lemma write_fh_ok:
  assumes "inv b" "14 + n \<le> room b"
  shows "\<exists>b'. write_fh db fh b = Ok b' \<and> inv b' \<and> n \<le> room b'"
proof -
  have n: "length (fh_encode fh) + n \<le> room b" using assms(2) fh_encode_bound [of fh] by linarith
  then have "length (fh_encode fh) \<le> room b" by simp
  then obtain b' where "db_append db (fh_encode fh) b = Ok b'" "inv b'" "room b' = room b - length (fh_encode fh)"
    by (rule append_ok [OF assms(1)])
  with n show ?thesis by (auto simp: write_fh_def)
qed

lemma write_control_ok:
  assumes "inv b" "maskgen_ok (ws_maskgen s)"
  shows "14 + length p \<le> room b \<Longrightarrow> \<exists>b' s'. write_ping db addr b op p s = Ok (b', s') \<and> keyed s s'"
    and "14 + length (close_payload cr) \<le> room b \<Longrightarrow>
      \<exists>b' s'. write_close db addr b cr s = Ok (b', s') \<and> keyed s s'"
proof -
  show "\<exists>b' s'. write_ping db addr b op p s = Ok (b', s') \<and> keyed s s'" if room: "14 + length p \<le> room b"
  proof -
    from control_header_keyed [OF assms(2)] obtain fh s' where
      h: "(control_header op (length p) s :: (length_error, _) outcome) = Ok (fh, s')" "keyed s s'" by blast
    from write_fh_ok [OF assms(1) room] obtain b1 where
      b1: "write_fh db fh b = Ok b1" "inv b1" "length p \<le> room b1" by blast
    from write_masked_ok [OF b1(2,3), of addr "fh_mask fh" "prepare_key64 (fh_key fh)"] h b1(1) show ?thesis
      by (auto simp: write_ping_def)
  qed
  show "\<exists>b' s'. write_close db addr b cr s = Ok (b', s') \<and> keyed s s'"
    if room: "14 + length (close_payload cr) \<le> room b"
  proof -
    from control_header_keyed [OF assms(2)] obtain fh s' where
      h: "(control_header Op_close (if cr_code cr = cc_none then 0 else 2 + length (cr_reason cr)) s
        :: (length_error, _) outcome) = Ok (fh, s')" "keyed s s'" by blast
    from write_fh_ok [OF assms(1) room] obtain b1 where
      b1: "write_fh db fh b = Ok b1" "inv b1" "length (close_payload cr) \<le> room b1" by blast
    show ?thesis
    proof (cases "cr_code cr = cc_none")
      case True
      with h b1 show ?thesis by (simp add: write_close_def)
    next
      case False
      let ?k = "prepare_key64 (fh_key fh)" and ?c = "big_uint16_buf (cr_code cr)"
      have "length ?c \<le> room b1" using b1(3) False by (simp add: close_payload_def)
      from write_masked_ok [OF b1(2) this, of addr "fh_mask fh" ?k] obtain b2 k2 where
        b2: "write_masked db addr (fh_mask fh) ?k ?c b1 = Ok (b2, k2)" "inv b2" "room b2 = room b1 - 2" by auto
      then have "length (cr_reason cr) \<le> room b2" using b1(3) False by (simp add: close_payload_def)
      from write_masked_ok [OF b2(2) this, of addr "fh_mask fh" k2] h b1(1) b2(1) False show ?thesis
        by (auto simp: write_close_def Let_def)
    qed
  qed
qed

end

lemma write_control_J:
  assumes J: "net_free J" "\<And>st. J st \<Longrightarrow> calm I st" "\<And>s s' d. keyed s s' \<Longrightarrow> J (s, d) \<Longrightarrow> J (s', d)"
  shows "length p \<le> 125 \<Longrightarrow> holds J (do_write_ping cf op p) (\<lambda>_. J) (\<lambda>e st. exits I e st \<and> J st)"
    and "length (close_payload cr) \<le> 125 \<Longrightarrow> holds J (do_write_close cf cr) (\<lambda>_. J) (\<lambda>e st. exits I e st \<and> J st)"
proof -
  have mg: "J (s, d) \<Longrightarrow> maskgen_ok (ws_maskgen s)" for s d
    using J(2) [of "(s, d)"] by (simp add: calm_def ws_base_def)
  note w = static.write_control_ok [OF static_room_frame(1) mg, of _ _ _ "cf_addr cf"]
  note net = net_triples(3) [OF J(1,2)]
  show "holds J (do_write_ping cf op p) (\<lambda>_. J) (\<lambda>e st. exits I e st \<and> J st)" if "length p \<le> 125"
  proof (rule holdsI)
    fix st :: "'a ws \<times> 'b"
    assume st: "J st"
    obtain s d where sd: "st = (s, d)" by fastforce
    from w(1) [of s d p op] that st sd obtain b s' where
      b: "write_ping static_db (cf_addr cf) frame_streambuf op p s = Ok (b, s')" "keyed s s'" by auto
    from holds_run [OF net, of "(s', d)" "concat (static_data b)"] J(3) [OF b(2)] st sd b(1) show
      "case do_write_ping cf op p st of (Ok a, st') \<Rightarrow> J st' | (Err e, st') \<Rightarrow> exits I e st' \<and> J st' | (Oob, st') \<Rightarrow> False"
      by (fastforce simp: do_write_ping_def)
  qed
  show "holds J (do_write_close cf cr) (\<lambda>_. J) (\<lambda>e st. exits I e st \<and> J st)" if "length (close_payload cr) \<le> 125"
  proof (rule holdsI)
    fix st :: "'a ws \<times> 'b"
    assume st: "J st"
    obtain s d where sd: "st = (s, d)" by fastforce
    from w(2) [of s d cr] that st sd obtain b s' where
      b: "write_close static_db (cf_addr cf) frame_streambuf cr s = Ok (b, s')" "keyed s s'" by auto
    from holds_run [OF net, of "(s', d)" "concat (static_data b)"] J(3) [OF b(2)] st sd b(1) show
      "case do_write_close cf cr st of (Ok a, st') \<Rightarrow> J st' | (Err e, st') \<Rightarrow> exits I e st' \<and> J st' | (Oob, st') \<Rightarrow> False"
      by (fastforce simp: do_write_close_def)
  qed
qed

lemma calm_net [simp]: "net_free (calm I)"
  by (simp add: net_free_def calm_def ws_base_def ws_between_def pmd_is_set_def)

lemma keyed_calm: "keyed s s' \<Longrightarrow> calm I (s, d) \<Longrightarrow> calm I (s', d)"
  by (auto simp: keyed_def calm_def ws_base_def ws_between_def pmd_is_set_def)

lemma exits_left: "holds P m Q (exits I) \<Longrightarrow> holds P m Q (left I)"
  by (erule holds_conseq) (auto simp: exits_def)

lemma holds_error: "holds P m Q (\<lambda>e st. E e st \<and> J st) \<Longrightarrow> holds P m Q E"
  by (erule holds_conseq) auto

lemma write_control_calm:
  "length (close_payload cr) \<le> 125 \<Longrightarrow> holds (calm I) (do_write_close cf cr) (\<lambda>_. calm I) (exits I)"
  by (rule holds_error, rule write_control_J(2)) (auto intro: keyed_calm)

lemma write_control_sound:
  "length p \<le> 125 \<Longrightarrow> holds (sound I) (do_write_ping cf op p) (\<lambda>_. sound I) (\<lambda>e st. exits I e st \<and> sound I st)"
  "length (close_payload cr) \<le> 125 \<Longrightarrow>
     holds (sound I) (do_write_close cf cr) (\<lambda>_. sound I) (\<lambda>e st. exits I e st \<and> sound I st)"
  by (rule write_control_J; auto intro: keyed_sound sound_calm)+

lemmas write_control_holds = write_control_sound [THEN holds_error, THEN exits_left]

lemma mask_octets_ok: "\<exists>key'. mask_octets addr key p = Ok (wire_octets True key p, key')"
  using mask_wire by blast

lemma control_payload_holds:
  assumes fb: "fb_holds 0 125 fb" and fh: "fh_len fh \<le> 125"
  shows "holds (sound I) (control_payload cf fh fb)
    (\<lambda>fb st. length (concat (static_data fb)) \<le> 125 \<and> sound I st) (left I)"
proof (rule holdsI)
  fix st :: "'a ws \<times> 'b"
  assume st: "sound I st"
  have b: "static_inv fb" "db_contents static_db fb = []" "125 \<le> static_room fb"
    using fb by (auto simp: fb_holds_def simp del: static_contents)
  have n: "unat (fh_len fh) \<le> 125" using fh by (simp add: word_le_nat_alt)
  let ?goal = "\<lambda>r. case r of (Ok fb, st') \<Rightarrow> length (concat (static_data fb)) \<le> 125 \<and> sound I st'
      | (Err e, st') \<Rightarrow> left I e st' | (Oob, st') \<Rightarrow> False"
  show "?goal (control_payload cf fh fb st)"
  proof (cases "fh_len fh > 0")
    case False
    have "length (concat (static_data fb)) = 0" using b(2) by (simp only: static_concat [symmetric] list.size)
    with False st show ?thesis unfolding control_payload_def by (simp del: length_concat length_0_conv)
  next
    case True
    have prep: "static_prepare (unat (fh_len fh)) fb = Ok (fb\<lparr>sb_last := sb_out fb + unat (fh_len fh)\<rparr>)"
      using static_unmask(1) [OF b(1,2), of "replicate (unat (fh_len fh)) (0 :: u8)" "replicate (unat (fh_len fh)) 0"] n b(3)
      by simp
    consider (Ok) xs st' where "net_read (unat (fh_len fh)) st = (Ok xs, st')" "length xs = unat (fh_len fh) \<and> sound I st'"
      | (Err) e st' where "net_read (unat (fh_len fh)) st = (Err e, st')" "left I e st'"
      using holds_run [OF net_triples(1) [OF net_free_sound sound_calm, where n = "unat (fh_len fh)"] st] by blast
    then show ?thesis
    proof cases
      case (Ok xs st')
      let ?ys = "wire_octets True (prepare_key64 (fh_key fh)) xs"
      obtain key' where k: "(mask_octets (cf_addr cf) (prepare_key64 (fh_key fh)) xs :: (unit, _) outcome) = Ok (?ys, key')"
        using mask_octets_ok by blast
      have len: "length xs \<le> static_room fb" "length ?ys = length xs" "unat (fh_len fh) = length xs"
        using Ok(2) n b(3) by simp_all
      note u = static_unmask [OF b(1,2) len(1,2), folded len(3)]
      show ?thesis
      proof (cases "fh_mask fh")
        case msk: True
        then show ?thesis
          using True Ok prep u(2,3) k n
          by (simp add: control_payload_def lift_throw_def lift_ub_def act_bind_def act_defs Let_def)
      next
        case msk: False
        then show ?thesis
          using True Ok prep u(4) n
          by (simp add: control_payload_def lift_throw_def act_bind_def act_defs Let_def)
      qed
    next
      case (Err e st')
      with True prep show ?thesis
        by (simp add: control_payload_def lift_throw_def act_bind_def act_defs Let_def)
    qed
  qed
qed

lemma lift_ub_holds:
  "(\<And>st. P st \<Longrightarrow> \<exists>a. m = Ok a \<and> Q a st) \<Longrightarrow> holds P (lift_ub m) Q E"
  by (fastforce simp: holds_def lift_ub_def)

lemma on_ws_holds: "(\<And>s d. P (s, d) \<Longrightarrow> Q () (f s, d)) \<Longrightarrow> holds P (on_ws f) Q E"
  by (auto simp: holds_def on_ws_def act_defs)

lemma get_ws_holds: "(\<And>s d. P (s, d) \<Longrightarrow> Q (g s) (s, d)) \<Longrightarrow> holds P (get_ws g) Q E"
  by (auto simp: holds_def get_ws_def act_defs)

lemma act_oob_holds: "(\<And>st. \<not> P st) \<Longrightarrow> holds P act_oob Q E"
  by (simp add: holds_def)

lemma read_close_ok:
  assumes "length (concat bs) \<le> 125"
  shows "\<exists>code cr'. read_close_reason al bs cr = Ok (code, cr')"
proof -
  have ck: "\<exists>ok. check_utf8 al xs = Ok ok" for xs
    by (rule utf8_write_ok [OF utf8_inv_init(2), of al xs]) (auto simp: check_utf8_def split: prod.split)
  show ?thesis
  proof (cases "length (concat bs) \<le> 1")
    case False
    then have "length (take 2 (concat bs)) = 2" by (simp only: length_take)
    from big_uint16_load [OF this] ck [of "drop 2 (concat bs)"] assms False show ?thesis
      by (auto simp: read_close_reason_def Let_def)
  qed (use assms in \<open>auto simp: read_close_reason_def le_Suc_eq\<close>)
qed

lemma control_frame_holds:
  assumes fb: "fb_holds 0 125 fb" and op: "is_control (fh_op fh)"
  shows "holds (accepted I fh) (control_frame cf fh fb) (\<lambda>_. sound I) (left I)"
proof -
  let ?ctl = "fh_op fh \<in> {Op_close, Op_ping, Op_pong} \<and> fh_len fh \<le> 125"
  have acc: "accepted I fh st \<longleftrightarrow> ?ctl \<and> sound I st" for st :: "'a ws \<times> 'b"
    using op by (auto simp: accepted_def sound_def ws_inv_def split: prod.splits)
  let ?P = "\<lambda>fb st. length (concat (static_data fb)) \<le> 125 \<and> sound I st"
  have cb: "holds (sound I) (call_ping_cb b xs) (\<lambda>_. sound I) (left I)" for b xs
    unfolding call_ping_cb_def
    by (rule on_ws_holds) (auto simp: sound_def ws_inv_defs pmd_is_set_def)
  have data: "holds (?P fb) (lift_ub (read_ping_data (static_data fb)))
      (\<lambda>xs st. length xs \<le> 125 \<and> sound I st) (left I)" for fb
    by (rule lift_ub_holds) (simp add: read_ping_data_def)
  have rc: "holds (?P fb) (do_read_close cf fb) (\<lambda>_. sound I) (left I)" for fb
  proof (rule holdsI, elim conjE)
    fix st :: "'a ws \<times> 'b"
    assume len: "length (concat (static_data fb)) \<le> 125" and st: "sound I st"
    obtain s d where sd: "st = (s, d)" by fastforce
    from read_close_ok [OF len] obtain code cr where
      "read_close_reason (cf_aligned cf) (static_data fb) (ws_cr s) = Ok (code, cr)" by blast
    with st sd show "case do_read_close cf fb st of (Ok a, st') \<Rightarrow> sound I st' | (Err e, st') \<Rightarrow> left I e st' | (Oob, st') \<Rightarrow> False"
      by (simp add: do_read_close_def sound_def ws_inv_defs pmd_is_set_def)
  qed
  have cr: "length (close_payload (cr'\<lparr>cr_reason := []\<rparr>)) \<le> 125" for cr'
    by (simp add: close_payload_def)
  have wr: "holds (sound I) (on_ws (\<lambda>s. s\<lparr>ws_wr_close := True\<rparr>)) (\<lambda>_. sound I) (left I)"
    by (rule on_ws_holds) (auto simp: sound_def ws_inv_defs pmd_is_set_def)
  have go: "holds (sound I) (act_err (Goto_close c)) (\<lambda>_. sound I) (left I)" for c
    by (rule holds_err) (rule sound_left(2))
  have get: "holds (sound I) (get_ws g) (\<lambda>_. sound I) (left I)" for g :: "'a ws \<Rightarrow> 'c"
    by (rule get_ws_holds)
  have main: "holds (sound I) (control_frame cf fh fb) (\<lambda>_. sound I) (left I)" if "?ctl"
    unfolding control_frame_def Let_def
  proof (rule holds_bind [OF control_payload_holds [OF fb conjunct2 [OF that]]], intro holds_if)
    fix fb
    show "holds (?P fb) (act_bind (lift_ub (read_ping_data (static_data fb))) (\<lambda>xs.
        act_bind (call_ping_cb False xs) (\<lambda>_. do_write_ping cf Op_pong xs))) (\<lambda>_. sound I) (left I)"
      by (rule holds_bind [OF data], rule holds_conj, rule holds_bind [OF cb], erule write_control_holds(1))
    show "holds (?P fb) (act_bind (lift_ub (read_ping_data (static_data fb))) (call_ping_cb True)) (\<lambda>_. sound I) (left I)"
      by (rule holds_bind [OF data], rule holds_conj, rule cb)
    show "holds (?P fb) act_oob (\<lambda>_. sound I) (left I)"
      if "fh_op fh \<noteq> Op_ping" "fh_op fh \<noteq> Op_pong" "fh_op fh \<noteq> Op_close" using that \<open>?ctl\<close> by simp
    show "holds (?P fb) (act_bind (do_read_close cf fb) (\<lambda>code.
        if code \<noteq> cc_none then act_err (Goto_close code)
        else act_bind (get_ws ws_wr_close) (\<lambda>wr_close. act_bind (get_ws ws_cr) (\<lambda>cr.
          if \<not> wr_close then act_bind (on_ws (\<lambda>s. s\<lparr>ws_wr_close := True\<rparr>)) (\<lambda>_.
            act_bind (do_write_close cf
              ((if cr_code cr = cc_none then cr\<lparr>cr_code := cc_normal\<rparr> else cr)\<lparr>cr_reason := []\<rparr>)) (\<lambda>_.
            act_err (Goto_close cc_none)))
          else act_err (Goto_close cc_none))))) (\<lambda>_. sound I) (left I)"
      by (rule holds_bind [OF rc], intro holds_if holds_bind [OF get] holds_bind [OF wr]
          holds_bind [OF write_control_holds(2) [OF cr]] go)
  qed
  show ?thesis
    unfolding acc by (rule holds_conj) (rule main)
qed


section \<open>Data frames\<close>

text \<open>\<open>reading I st\<close>: a payload is being read; \<open>inflating\<close>: a compressed one.\<close>

definition reading :: "('b \<Rightarrow> bool) \<Rightarrow> 'z ws \<times> 'b \<Rightarrow> bool" where
  "reading I = (\<lambda>(s, d). sound I (s, d) \<and> (ws_rd_op s = Op_text \<or> ws_rd_op s = Op_binary))"

definition inflating :: "('b \<Rightarrow> bool) \<Rightarrow> 'z ws \<times> 'b \<Rightarrow> bool" where
  "inflating I = (\<lambda>(s, d). reading I (s, d) \<and> pmd_is_set s \<and> 8 \<le> ws_rd_buf_size s)"

lemma reading_net [simp]: "net_free (reading I)" "net_free (inflating I)"
  by (auto simp: net_free_def reading_def inflating_def sound_def ws_inv_defs pmd_is_set_def)

lemma reading_sound: "reading I st \<Longrightarrow> sound I st" "inflating I st \<Longrightarrow> sound I st"
  by (auto simp: reading_def inflating_def split: prod.splits)

lemma reading_calm: "reading I st \<Longrightarrow> calm I st" "inflating I st \<Longrightarrow> calm I st"
  by (auto dest: reading_sound sound_calm)

text \<open>Nothing that \<open>ws_inv\<close> says is about the checker being at the start of a character.\<close>

lemma reading_utf8:
  "reading I (s, d) \<Longrightarrow> utf8_inv c \<Longrightarrow> reading I (s\<lparr>ws_rd_utf8 := c\<rparr>, d)"
  "inflating I (s, d) \<Longrightarrow> utf8_inv c \<Longrightarrow> inflating I (s\<lparr>ws_rd_utf8 := c\<rparr>, d)"
  "reading I (s, d) \<Longrightarrow> left I (Goto_close code) (s\<lparr>ws_rd_utf8 := c'\<rparr>, d)"
  by (auto simp: reading_def inflating_def sound_def left_def ws_inv_defs pmd_is_set_def)

lemma payload_utf8_holds:
  "holds (reading I) (payload_utf8 cf fin xs) (\<lambda>_. reading I) (left I)"
  "holds (inflating I) (payload_utf8 cf fin xs) (\<lambda>_. inflating I) (left I)"
proof -
  have main: "case payload_utf8 cf fin xs (s, d) of (Ok _, st') \<Rightarrow> \<exists>c. utf8_inv c \<and> st' = (s\<lparr>ws_rd_utf8 := c\<rparr>, d)
      | (Err e, st') \<Rightarrow> left I e st' | (Oob, st') \<Rightarrow> False" if st: "reading I (s, d)" for s :: "'a ws" and d
  proof -
    have inv: "utf8_inv (ws_rd_utf8 s)" using st by (simp add: reading_def sound_def ws_inv_def)
    obtain ok c where c: "utf8_write (cf_aligned cf) xs (ws_rd_utf8 s) = Ok (ok, c)" "ok \<longrightarrow> utf8_inv c"
      by (rule utf8_write_ok [OF inv, of "cf_aligned cf" xs])
    show ?thesis
    proof (cases "ws_rd_op s = Op_text")
      case False
      with inv show ?thesis by (auto simp: payload_utf8_def intro!: exI [of _ "ws_rd_utf8 s"])
    next
      case True
      note bad = reading_utf8(3) [OF st]
      show ?thesis
      proof (cases "ok \<and> (fin \<longrightarrow> fst (utf8_finish c))")
        case ok: True
        with True c show ?thesis by (cases fin) (auto simp: payload_utf8_def utf8_finish_def intro: utf8_inv_init(1))
      next
        case False
        with True c(1) show ?thesis by (cases ok) (auto simp: payload_utf8_def utf8_finish_def bad)
      qed
    qed
  qed
  show "holds (reading I) (payload_utf8 cf fin xs) (\<lambda>_. reading I) (left I)"
    using main by (fastforce simp: holds_def intro: reading_utf8 split: prod.splits outcome.splits)
  show "holds (inflating I) (payload_utf8 cf fin xs) (\<lambda>_. inflating I) (left I)"
  proof (rule holdsI)
    fix st :: "'a ws \<times> 'b"
    assume st: "inflating I st"
    then obtain s d where sd: "st = (s, d)" "reading I (s, d)" by (cases st) (auto simp: inflating_def)
    from main [OF sd(2)] st sd(1) show "case payload_utf8 cf fin xs st of (Ok _, st') \<Rightarrow> inflating I st'
        | (Err e, st') \<Rightarrow> left I e st' | (Oob, st') \<Rightarrow> False"
      by (auto intro: reading_utf8 split: prod.splits outcome.splits)
  qed
qed

lemma unmask_holds:
  "holds P (unmask_octets cf msk key xs) (\<lambda>(ys, _) st. length ys = length xs \<and> P st) E"
proof (cases msk)
  case True
  obtain key' where "(mask_octets (cf_addr cf) key xs :: (unit, _) outcome) = Ok (wire_octets True key xs, key')"
    using mask_octets_ok by blast
  with True show ?thesis unfolding unmask_octets_def by (auto intro!: lift_ub_holds)
next
  case False
  then show ?thesis unfolding unmask_octets_def by (auto intro: holds_ret)
qed

context dynamic_buffer
begin

text \<open>The output sequence has room for \<open>n\<close> octets.\<close>

lemma payload_round_holds:
  "0 < n \<Longrightarrow> holds (reading inv) (payload_round cf db fh n key)
     (\<lambda>(k, _) st. 0 < k \<and> k \<le> n \<and> reading inv st) (left inv)"
proof -
  assume n: "0 < n"
  let ?J = "reading (\<lambda>d. inv d \<and> prepared d = n)"
  have weak: "?J st \<Longrightarrow> reading inv st" "left (\<lambda>d. inv d \<and> prepared d = n) e st \<Longrightarrow> left inv e st"
    for st :: "'z ws \<times> 'b" and e
    by (auto simp: reading_def sound_def left_def split: prod.splits)
  have prep: "holds (reading inv) (db_prepare_act db n) (\<lambda>_. ?J) (left inv)"
  proof (rule holdsI)
    fix st :: "'z ws \<times> 'b"
    assume st: "reading inv st"
    obtain s d where sd: "st = (s, d)" by fastforce
    have "inv d" using st sd by (simp add: reading_def sound_def)
    from prepare_ok [OF this, of n] prepare_full [OF this, of n] st sd
    show "case db_prepare_act db n st of (Ok a, st') \<Rightarrow> ?J st' | (Err e, st') \<Rightarrow> left inv e st' | (Oob, st') \<Rightarrow> False"
      by (cases "n \<le> room d") (auto simp: db_prepare_act_def reading_def sound_def sound_left
          intro: sound_left(1))
  qed
  have net: "holds ?J (net_read_some n) (\<lambda>xs st. length xs \<le> n \<and> (xs = [] \<longrightarrow> n = 0) \<and> ?J st) (left inv)"
    by (rule holds_conseq [OF net_triples(2) [OF reading_net(1) reading_calm(1)]]) (auto simp: weak)
  have utf: "holds ?J (payload_utf8 cf fin xs) (\<lambda>_. ?J) (left inv)" for fin xs
    by (rule holds_conseq [OF payload_utf8_holds(1) [where I = "\<lambda>d. inv d \<and> prepared d = n"]]) (auto simp: weak)
  have commit: "holds ?J (db_commit_act db ys) (\<lambda>_. reading inv) (left inv)" if "length ys \<le> n" for ys
    using that store_commit [of _ ys]
    by (auto simp: holds_def db_commit_act_def act_put_def reading_def sound_def)
  show "holds (reading inv) (payload_round cf db fh n key)
     (\<lambda>(k, _) st. 0 < k \<and> k \<le> n \<and> reading inv st) (left inv)"
    unfolding payload_round_def
  proof (rule holds_bind [OF prep], rule holds_bind [OF net], rule holds_conj, rule holds_conj, rule holds_if)
    fix xs :: bytes
    assume xs: "length xs \<le> n" "xs \<noteq> []"
    show "holds ?J (act_bind (unmask_octets cf (fh_mask fh) key xs) (\<lambda>(ys, key).
        act_bind (payload_utf8 cf (n - length xs = 0 \<and> fh_fin fh) ys) (\<lambda>_.
        act_bind (db_commit_act db ys) (\<lambda>_. act_ret (length xs, key)))))
      (\<lambda>(k, _) st. 0 < k \<and> k \<le> n \<and> reading inv st) (left inv)"
    proof (rule holds_bind [OF unmask_holds], simp only: split_paired_all prod.case, rule holds_conj)
      fix ys :: bytes and key
      assume "length ys = length xs"
      with xs have len: "length ys \<le> n" by simp
      show "holds ?J (act_bind (payload_utf8 cf (n - length xs = 0 \<and> fh_fin fh) ys) (\<lambda>_.
          act_bind (db_commit_act db ys) (\<lambda>_. act_ret (length xs, key))))
        (\<lambda>(k, _) st. 0 < k \<and> k \<le> n \<and> reading inv st) (left inv)"
        by (intro holds_bind [OF utf] holds_bind [OF commit [OF len]] holds_ret) (use xs in auto)
    qed
  qed (use n in \<open>auto intro!: act_oob_holds\<close>)
qed

lemma read_payload_holds:
  "holds (reading inv) (read_payload cf db fh n key) (\<lambda>_. reading inv) (left inv)"
proof (induction n arbitrary: key rule: less_induct)
  case (less n)
  show ?case
  proof (rule holdsI)
    fix st :: "'a ws \<times> 'b"
    assume st: "reading inv st"
    show "case read_payload cf db fh n key st of (Ok a, st') \<Rightarrow> reading inv st'
        | (Err e, st') \<Rightarrow> left inv e st' | (Oob, st') \<Rightarrow> False"
    proof (cases "n = 0")
      case True
      with st show ?thesis by (simp add: read_payload.simps)
    next
      case False
      then have n: "0 < n" by simp
      show ?thesis
      proof (rule holds_run [OF payload_round_holds [OF n] st, of cf fh key])
        fix r st'
        assume r: "payload_round cf db fh n key st = (Ok r, st')"
          and p: "(\<lambda>(k, _) st. 0 < k \<and> k \<le> n \<and> reading inv st) r st'"
        obtain k key' where k: "r = (k, key')" by fastforce
        with p n have lt: "n - k < n" "0 < k" "reading inv st'" by auto
        from holds_run [OF less [OF lt(1)] lt(3), of key'] r k lt(2) n show ?thesis
          by (subst read_payload.simps) (fastforce split: prod.split outcome.split)
      next
        fix e st'
        assume "payload_round cf db fh n key st = (Err e, st')" "left inv e st'"
        with n show ?thesis by (subst read_payload.simps) simp
      qed
    qed
  qed
qed

lemma do_inflate_holds: "holds (inflating inv) (do_inflate cf db xs) (\<lambda>_. inflating inv) (left inv)"
proof (rule holdsI)
  fix st :: "'a ws \<times> 'b"
  assume st: "inflating inv st"
  obtain s d where sd: "st = (s, d)" by fastforce
  then obtain p where p: "ws_pmd s = Some p" "inv d" using st by (auto simp: inflating_def reading_def sound_def pmd_is_set_def)
  obtain out ec z where z: "cd_inflate (cf_codec cf) xs (pmd_zi p) = ((out, ec), z)" by (cases "cd_inflate (cf_codec cf) xs (pmd_zi p)") auto
  let ?s = "s\<lparr>ws_pmd := Some (p\<lparr>pmd_zi := z\<rparr>)\<rparr>"
  have s: "inv d' \<Longrightarrow> inflating inv (?s\<lparr>ws_failed := f\<rparr>, d')" "inv d' \<Longrightarrow> inflating inv (?s, d')" for d' f
    using st sd p by (auto simp: inflating_def reading_def sound_def ws_inv_defs pmd_is_set_def)
  consider (full) "db_append db out d = Err Length_error"
    | (ok) d' where "db_append db out d = Ok d'" "inv d'"
    using append_full [OF p(2), of out] append_ok [OF p(2), of out] by (metis not_le)
  then show "case do_inflate cf db xs st of (Ok a, st') \<Rightarrow> inflating inv st'
      | (Err e, st') \<Rightarrow> left inv e st' | (Oob, st') \<Rightarrow> False"
  proof cases
    case full
    with p z sd s(2) [OF p(2)] show ?thesis
      by (simp add: do_inflate_def Let_def sound_left(1) reading_sound(2))
  next
    case ok
    have "left inv (Return e) (?s\<lparr>ws_failed := True\<rparr>, d')" for e
      using s(1) [OF ok(2), of True] by (intro calm_left(1) reading_calm(2)) simp_all
    with ok p z sd s show ?thesis by (cases ec) (simp_all add: do_inflate_def Let_def)
  qed
qed

lemma inflate_round_holds:
  "holds (inflating inv) (inflate_round cf db fh n key)
     (\<lambda>(k, _) st. k \<le> n \<and> (k = 0 \<longrightarrow> n = 0) \<and> inflating inv st) (left inv)"
proof -
  have size: "holds (inflating inv) (get_ws ws_rd_buf_size) (\<lambda>sz st. 8 \<le> sz \<and> inflating inv st) (left inv)"
    by (rule get_ws_holds) (simp add: inflating_def)
  have net: "holds (inflating inv) (net_read_some m)
      (\<lambda>xs st. length xs \<le> m \<and> (xs = [] \<longrightarrow> m = 0) \<and> inflating inv st) (left inv)" for m
    by (rule net_triples(2)) (simp_all add: reading_calm)
  let ?Q = "\<lambda>(k, _) st. k \<le> n \<and> (k = 0 \<longrightarrow> n = 0) \<and> inflating inv st"
  have rest: "holds (inflating inv) (act_bind (do_inflate cf db ys) (\<lambda>out.
      act_bind (if b then do_inflate cf db zs else act_ret []) (\<lambda>out'.
      act_bind (payload_utf8 cf fin (out @ out')) (\<lambda>_. act_ret (k, key'))))) ?Q (left inv)"
    if "k \<le> n" "k = 0 \<longrightarrow> n = 0" for ys zs b fin k key'
    by (intro holds_bind [OF do_inflate_holds] holds_bind [where R = "\<lambda>_. inflating inv"]
        holds_if do_inflate_holds payload_utf8_holds holds_ret) (use that in simp_all)
  show ?thesis
    unfolding inflate_round_def
  proof (rule holds_bind [OF size], rule holds_conj, rule holds_bind [OF net], rule holds_conj, rule holds_conj,
      rule holds_bind [OF unmask_holds], simp only: split_paired_all prod.case, rule holds_conj, rule rest)
    fix sz :: nat and xs :: bytes
    assume "8 \<le> sz" "length xs \<le> min n sz" "xs = [] \<longrightarrow> min n sz = 0"
    then show "length xs \<le> n" "length xs = 0 \<longrightarrow> n = 0" by auto
  qed
qed

lemma read_inflate_holds:
  "holds (inflating inv) (read_inflate cf db fh n key) (\<lambda>_. inflating inv) (left inv)"
proof (induction n arbitrary: key rule: less_induct)
  case (less n)
  show ?case
  proof (rule holdsI)
    fix st :: "'a ws \<times> 'b"
    assume st: "inflating inv st"
    show "case read_inflate cf db fh n key st of (Ok a, st') \<Rightarrow> inflating inv st'
        | (Err e, st') \<Rightarrow> left inv e st' | (Oob, st') \<Rightarrow> False"
    proof (rule holds_run [OF inflate_round_holds st, of cf fh n key])
      fix r st'
      assume r: "inflate_round cf db fh n key st = (Ok r, st')"
        and p: "(\<lambda>(k, _) st. k \<le> n \<and> (k = 0 \<longrightarrow> n = 0) \<and> inflating inv st) r st'"
      obtain k key' where k: "r = (k, key')" by fastforce
      show ?thesis
      proof (cases "n - k = 0")
        case True
        with r k p show ?thesis by (subst read_inflate.simps) simp
      next
        case False
        with p k have lt: "n - k < n" "k \<noteq> 0" "inflating inv st'" by auto
        from holds_run [OF less [OF lt(1)] lt(3), of key'] r k lt(2) False show ?thesis
          by (subst read_inflate.simps) (fastforce split: prod.split outcome.split)
      qed
    next
      fix e st'
      assume "inflate_round cf db fh n key st = (Err e, st')" "left inv e st'"
      then show ?thesis by (subst read_inflate.simps) simp
    qed
  qed
qed

text \<open>The result of a round: \<open>fi\<close> with an opcode of data.\<close>

definition delivered :: "(opcode \<times> bool) option \<Rightarrow> bool" where
  "delivered r \<longleftrightarrow> (case r of None \<Rightarrow> True | Some (op, _) \<Rightarrow> op = Op_text \<or> op = Op_binary)"

lemma data_frame_holds:
  assumes "\<not> is_control (fh_op fh)"
  shows "holds (accepted inv fh) (data_frame cf db fh) (\<lambda>r st. delivered r \<and> sound inv st) (left inv)"
proof -
  let ?M = "\<lambda>st. reading inv st \<and> (pmd_is_set (fst st) \<longrightarrow> ws_rd_buf (fst st))"
  let ?Q = "\<lambda>r st. delivered r \<and> sound inv st"
  have rb: "holds (accepted inv fh) (on_ws (\<lambda>s. if fh_op fh \<noteq> Op_cont then rd_begin s else s)) (\<lambda>_. ?M) (left inv)"
    by (rule on_ws_holds)
      (use assms in \<open>auto simp: accepted_def reading_def sound_def rd_begin_def ws_inv_defs pmd_is_set_def\<close>)
  have get: "holds ?M (get_ws (\<lambda>s. (pmd_reading s, ws_rd_msg_max s, ws_rd_size s)))
      (\<lambda>(deflated, _) st. if deflated then inflating inv st else reading inv st) (left inv)"
    by (rule get_ws_holds)
      (auto simp: inflating_def reading_def sound_def pmd_reading_def pmd_is_set_def ws_inv_defs split: option.splits)
  have op: "holds (reading inv) (act_bind (get_ws ws_rd_op) (\<lambda>op. act_ret (Some (op, fin)))) ?Q (left inv)" for fin
    by (rule holds_bind [OF get_ws_holds [where Q = "\<lambda>op st. (op = Op_text \<or> op = Op_binary) \<and> sound inv st"]])
      (auto simp: reading_def delivered_def intro!: holds_ret)
  have plain: "holds (reading inv) (if b then act_err (Goto_close cc_too_big)
      else act_bind (on_ws (\<lambda>s. s\<lparr>ws_rd_size := ws_rd_size s + fh_len fh\<rparr>)) (\<lambda>_.
        read_payload cf db fh n key)) (\<lambda>_. reading inv) (left inv)" for b n key
  proof (intro holds_if holds_bind [where R = "\<lambda>_. reading inv"] read_payload_holds)
    show "holds (reading inv) (act_err (Goto_close cc_too_big)) (\<lambda>_. reading inv) (left inv)"
      by (rule holds_err) (auto intro: sound_left(2) reading_sound(1))
    show "holds (reading inv) (on_ws (\<lambda>s. s\<lparr>ws_rd_size := ws_rd_size s + fh_len fh\<rparr>)) (\<lambda>_. reading inv) (left inv)"
      by (rule on_ws_holds) (auto simp: reading_def sound_def ws_inv_defs pmd_is_set_def)
  qed
  have flat: "holds (inflating inv) (act_bind (read_inflate cf db fh n key) (\<lambda>_. on_ws (inflate_done cf fh)))
      (\<lambda>_. reading inv) (left inv)" for n key
  proof (rule holds_bind [OF read_inflate_holds], rule on_ws_holds)
    show "inflating inv (s, d) \<Longrightarrow> reading inv (inflate_done cf fh s, d)" for s d
      by (auto simp: inflate_done_def inflating_def reading_def sound_def ws_inv_defs pmd_is_set_def)
  qed
  let ?body = "\<lambda>deflated msg_max size. if \<not> deflated then
      if msg_max \<noteq> 0 \<and> fh_len fh > msg_max - size then act_err (Goto_close cc_too_big)
      else act_bind (on_ws (\<lambda>s. s\<lparr>ws_rd_size := ws_rd_size s + fh_len fh\<rparr>)) (\<lambda>_.
        read_payload cf db fh (unat (fh_len fh)) (prepare_key64 (fh_key fh)))
    else act_bind (read_inflate cf db fh (unat (fh_len fh)) (prepare_key64 (fh_key fh))) (\<lambda>_. on_ws (inflate_done cf fh))"
  have body: "holds (\<lambda>st. if deflated then inflating inv st else reading inv st)
      (act_bind (?body deflated msg_max size) (\<lambda>_.
        act_bind (get_ws ws_rd_op) (\<lambda>op. act_ret (Some (op, fh_fin fh))))) ?Q (left inv)" for deflated msg_max size
  proof (rule holds_bind [OF _ op])
    show "holds (\<lambda>st. if deflated then inflating inv st else reading inv st) (?body deflated msg_max size)
        (\<lambda>_. reading inv) (left inv)"
      using plain flat by (cases deflated) simp_all
  qed
  show ?thesis
    unfolding data_frame_def
  proof (rule holds_bind [OF rb], rule holds_if)
    show "holds ?M (act_ret None) ?Q (left inv)"
      by (rule holds_ret) (auto simp: delivered_def intro: reading_sound(1))
    show "holds ?M (act_bind (get_ws (\<lambda>s. (pmd_reading s, ws_rd_msg_max s, ws_rd_size s))) (\<lambda>(deflated, msg_max, size).
        act_bind (?body deflated msg_max size) (\<lambda>_.
        act_bind (get_ws ws_rd_op) (\<lambda>op. act_ret (Some (op, fh_fin fh)))))) ?Q (left inv)"
      by (rule holds_bind [OF get], simp only: split_paired_all prod.case) (rule body)
  qed
qed

lemma read_frame_round_holds:
  "holds (sound inv) (read_frame_round cf db) (\<lambda>r st. delivered r \<and> sound inv st) (left inv)"
  unfolding read_frame_round_def
proof (rule holds_bind [OF read_header_holds], simp only: split_paired_all prod.case, rule holds_conj, rule holds_if)
  fix fh and fb :: static_buffer
  assume fb: "fb_holds 0 125 fb"
  show "holds (accepted inv fh) (act_bind (control_frame cf fh fb) (\<lambda>_. act_ret None))
      (\<lambda>r st. delivered r \<and> sound inv st) (left inv)" if "is_control (fh_op fh)"
    by (rule holds_bind [OF control_frame_holds [OF fb that]], rule holds_ret) (simp add: delivered_def)
  show "holds (accepted inv fh) (data_frame cf db fh)
      (\<lambda>r st. delivered r \<and> sound inv st) (left inv)" if "\<not> is_control (fh_op fh)"
    by (rule data_frame_holds [OF that])
qed

lemma read_frame_loop_holds:
  "holds (sound inv) (read_frame_loop cf db) (\<lambda>(op, _) st. (op = Op_text \<or> op = Op_binary) \<and> sound inv st) (left inv)"
proof (rule holdsI)
  fix st :: "'a ws \<times> 'b"
  assume "sound inv st"
  then show "case read_frame_loop cf db st of
      (Ok r, st') \<Rightarrow> (\<lambda>(op, _) st. (op = Op_text \<or> op = Op_binary) \<and> sound inv st) r st'
      | (Err e, st') \<Rightarrow> left inv e st' | (Oob, st') \<Rightarrow> False"
  proof (induction "inputs st" arbitrary: st rule: less_induct)
    case less
    show ?case
    proof (rule holds_run [OF read_frame_round_holds less.prems, of cf])
      fix r st'
      assume r: "read_frame_round cf db st = (Ok r, st')" "delivered r \<and> sound inv st'"
      from less.hyps [OF read_frame_round_takes [OF r(1)]] r show ?thesis
        by (cases r) (simp_all add: read_frame_loop.simps [of cf db st] delivered_def split: prod.splits)
    next
      fix e st'
      assume "read_frame_round cf db st = (Err e, st')" "left inv e st'"
      then show ?thesis by (simp add: read_frame_loop.simps [of cf db st])
    qed
  qed
qed

end

text \<open>The code after \<open>do_close\<close> always leaves, with the connection failed.\<close>

lemma do_close_holds: "holds (calm I) (do_close cf code) Q (exits I)"
proof -
  have leave: "holds (calm I) (act_bind (get_ws call_teardown) (\<lambda>ec. act_bind (on_ws (\<lambda>s. s\<lparr>ws_failed := True\<rparr>)) (\<lambda>_.
      case ec of Some e \<Rightarrow> act_err (Return e) | None \<Rightarrow> act_err (Return e0)))) Q (exits I)" for e0 Q
    using calm_left(1) [OF net_free_failed [OF calm_net]]
    by (auto simp: holds_def get_ws_def on_ws_def act_bind_def act_defs exits_def split: option.split)
  have set: "holds (calm I) (on_ws (\<lambda>s. s\<lparr>ws_wr_close := True\<rparr>)) (\<lambda>_. calm I) (exits I)"
    by (rule on_ws_holds) (simp add: calm_def ws_base_def ws_between_def pmd_is_set_def)
  have get: "holds (calm I) (get_ws ws_wr_close) (\<lambda>_. calm I) (exits I)"
    by (rule get_ws_holds)
  have wr: "holds (calm I) (if \<not> b then act_bind (on_ws (\<lambda>s. s\<lparr>ws_wr_close := True\<rparr>)) (\<lambda>_. do_write_close cf (cr_of_code code))
      else act_ret ()) (\<lambda>_. calm I) (exits I)" for b
  proof (rule holds_if)
    show "holds (calm I) (act_bind (on_ws (\<lambda>s. s\<lparr>ws_wr_close := True\<rparr>)) (\<lambda>_. do_write_close cf (cr_of_code code)))
        (\<lambda>_. calm I) (exits I)"
      by (rule holds_bind [OF set], rule write_control_calm) (simp add: close_payload_def cr_of_code_def)
  qed (simp add: holds_ret)
  show ?thesis
  proof (cases "code = cc_none")
    case True
    then show ?thesis by (simp add: do_close_def leave)
  next
    case False
    then show ?thesis
      unfolding do_close_def by (simp only: not_False_eq_True if_True) (rule holds_bind [OF get], rule holds_bind [OF wr], rule leave)
  qed
qed

context dynamic_buffer
begin

lemma read_frame_holds:
  "holds (sound inv) (read_frame cf db) (\<lambda>(op, _) st. (op = Op_text \<or> op = Op_binary) \<and> sound inv st) (exits inv)"
proof (rule holdsI)
  fix st :: "'a ws \<times> 'b"
  assume st: "sound inv st"
  let ?Q = "\<lambda>(op, _) st. (op = Op_text \<or> op = Op_binary) \<and> sound inv st"
  show "case read_frame cf db st of (Ok r, st') \<Rightarrow> ?Q r st' | (Err e, st') \<Rightarrow> exits inv e st' | (Oob, st') \<Rightarrow> False"
  proof (rule holds_run [OF read_frame_loop_holds st, of cf])
    fix r st'
    assume "read_frame_loop cf db st = (Ok r, st')" "?Q r st'"
    then show ?thesis by (simp add: read_frame_def)
  next
    fix e st'
    assume e: "read_frame_loop cf db st = (Err e, st')" "left inv e st'"
    show ?thesis
    proof (cases e)
      case (Goto_close code)
      with e(2) have "calm inv st'" by (auto simp: left_def calm_def split: prod.splits)
      note c = do_close_holds [of inv cf code "\<lambda>(_ :: opcode \<times> bool) _. False"]
      show ?thesis
        by (rule holds_run [OF c \<open>calm inv st'\<close>]) (simp_all add: read_frame_def e(1) Goto_close)
    qed (use e in \<open>simp_all add: read_frame_def exits_def\<close>)
  qed
qed

lemma read_message_holds:
  "holds (sound inv) (read_message cf db) (\<lambda>op st. (op = Op_text \<or> op = Op_binary) \<and> sound inv st) (exits inv)"
proof (rule holdsI)
  fix st :: "'a ws \<times> 'b"
  assume "sound inv st"
  then show "case read_message cf db st of (Ok op, st') \<Rightarrow> (op = Op_text \<or> op = Op_binary) \<and> sound inv st'
      | (Err e, st') \<Rightarrow> exits inv e st' | (Oob, st') \<Rightarrow> False"
  proof (induction "inputs st" arbitrary: st rule: less_induct)
    case less
    show ?case
    proof (rule holds_run [OF read_frame_holds less.prems, of cf])
      fix r st'
      assume r: "read_frame cf db st = (Ok r, st')"
        and p: "(\<lambda>(op, _) st. (op = Op_text \<or> op = Op_binary) \<and> sound inv st) r st'"
      obtain op fin where op: "r = (op, fin)" by fastforce
      show ?thesis
        using less.hyps [OF read_frame_takes [OF r]] r p op
        by (cases fin) (simp_all add: read_message.simps [of cf db st])
    next
      fix e st'
      assume "read_frame cf db st = (Err e, st')" "exits inv e st'"
      then show ?thesis by (simp add: read_message.simps [of cf db st])
    qed
  qed
qed

end

end
