(* ===== verification/Ws_Write_Safe.thy ===== *)
theory Ws_Write_Safe
  imports Ws_Safety
begin

text \<open>
  The writing operations keep the invariant of \<open>Ws_Safety\<close> and return: for a compressed message
  under two contracts of the compression engine, which is a parameter of the stream.
\<close>

section \<open>The state while writing\<close>

definition writing :: "('b \<Rightarrow> bool) \<Rightarrow> 'z ws \<times> 'b \<Rightarrow> bool" where
  "writing I = (\<lambda>(s, d). sound I (s, d) \<and> 8 \<le> ws_wr_buf_size s \<and> (ws_wr_compress s \<longrightarrow> pmd_is_set s))"

lemma writing_net [simp]: "net_free (writing I)"
  by (simp add: net_free_def writing_def sound_def ws_inv_defs pmd_is_set_def)

lemma writing_sound: "writing I st \<Longrightarrow> sound I st"
  by (auto simp: writing_def split: prod.splits)

lemma writing_calm: "writing I st \<Longrightarrow> calm I st"
  by (rule sound_calm) (rule writing_sound)

lemma writing_keyed: "keyed s s' \<Longrightarrow> writing I (s, d) \<Longrightarrow> writing I (s', d)"
  by (clarsimp simp: keyed_def writing_def sound_def ws_inv_defs pmd_is_set_def)

lemma writing_maskgen: "writing I (s, d) \<Longrightarrow> maskgen_ok (ws_maskgen s)"
  by (simp add: writing_def sound_def ws_inv_maskgen)

lemma write_setup_writing:
  assumes "sound I (s, d)" "write_setup s = (fh, s')"
  shows "writing I (s', d)"
proof (cases "ws_wr_cont s")
  case True
  with assms have "s' = s" by (simp add: write_setup_def)
  with assms(1) True show ?thesis by (simp add: writing_def sound_def ws_inv_defs)
next
  case False
  with assms have "s' = wr_begin s" by (simp add: write_setup_def Let_def)
  with assms(1) False show ?thesis
    by (clarsimp simp: wr_begin_def writing_def sound_def ws_inv_defs pmd_is_set_def Let_def)
qed

abbreviation wfail :: "('b \<Rightarrow> bool) \<Rightarrow> leave \<Rightarrow> 'z ws \<times> 'b \<Rightarrow> bool" where
  "wfail I \<equiv> \<lambda>e st. exits I e st \<and> writing I st"

lemma net_write_writing: "holds (writing I) (net_write xs) (\<lambda>_. writing I) (wfail I)"
  by (rule net_triples(3)) (simp_all add: writing_calm)

lemma write_header_writing: "holds (writing I) (write_header fh xs) (\<lambda>_. writing I) (wfail I)"
proof -
  obtain fb where "write_fh static_db fh (static_reset (replicate 14 0)) = Ok fb"
    using static.write_fh_ok [OF static_inv_reset, of 0 "replicate 14 0" fh] by auto
  then show ?thesis using net_write_writing [of I "concat (static_data fb) @ xs"] by (simp add: write_header_def)
qed

lemma draw_key_writing: "holds (writing I) draw_key (\<lambda>_. writing I) E"
proof (rule holdsI)
  fix st :: "'a ws \<times> 'b"
  assume st: "writing I st"
  obtain s d where sd: "st = (s, d)" by fastforce
  have "maskgen_ok (ws_maskgen s)" using st sd by (simp add: writing_maskgen [of I s d])
  from next_key_ok [OF this] obtain key s' where
    k: "(next_key s :: (leave, _) outcome) = Ok (key, s')" "keyed s s'" by blast
  with st sd show "case draw_key st of (Ok a, st') \<Rightarrow> writing I st' | (Err e, st') \<Rightarrow> E e st' | (Oob, st') \<Rightarrow> False"
    by (simp add: draw_key_def writing_keyed)
qed

lemma mask_writing:
  "holds P (lift_ub (mask_octets addr key xs)) (\<lambda>(ys, _) st. length ys = length xs \<and> P st) E"
proof -
  obtain key' where "(mask_octets addr key xs :: (unit, _) outcome) = Ok (wire_octets True key xs, key')"
    using mask_octets_ok by blast
  then show ?thesis by (auto intro!: lift_ub_holds)
qed

lemma set_wr_cont_writing: "holds (writing I) (set_wr_cont b) (\<lambda>_. writing I) E"
  unfolding set_wr_cont_def
  by (rule on_ws_holds) (clarsimp simp: writing_def sound_def ws_inv_defs pmd_is_set_def)

section \<open>Without compression\<close>

lemma write_plain_writing:
  assumes "0 < sz"
  shows "holds (writing I) (write_plain fh fin sz xs) (\<lambda>_. writing I) (wfail I)"
proof (induction "length xs" arbitrary: xs fh rule: less_induct)
  case less
  define n where "n = min (length xs) sz"
  define fh1 where "fh1 = fh\<lparr>fh_len := of_nat n, fh_fin := (if fin then length xs - n = 0 else False)\<rparr>"
  let ?frame = "act_bind (set_wr_cont (\<not> fin)) (\<lambda>_. write_header fh1 (take n xs))"
  have frame: "holds (writing I) ?frame (\<lambda>_. writing I) (wfail I)"
    by (rule holds_bind [OF set_wr_cont_writing write_header_writing])
  have step: "write_plain fh fin sz xs st = (case ?frame st of
      (Ok _, st) \<Rightarrow> if length xs - n = 0 then (Ok (), st) else if n = 0 then (Oob, st)
        else write_plain (fh1\<lparr>fh_op := Op_cont\<rparr>) fin sz (drop n xs) st
      | (Err e, st) \<Rightarrow> (Err e, st) | (Oob, st) \<Rightarrow> (Oob, st))" for st :: "'a ws \<times> 'b"
    unfolding n_def fh1_def by (subst write_plain.simps) (simp only: Let_def)
  have n: "length (drop n xs) < length xs" "n \<noteq> 0" if "length xs - n \<noteq> 0"
    using that assms by (auto simp: n_def)
  show ?case
  proof (rule holdsI)
    fix st :: "'a ws \<times> 'b"
    assume "writing I st"
    then show "case write_plain fh fin sz xs st of (Ok a, st') \<Rightarrow> writing I st'
        | (Err e, st') \<Rightarrow> wfail I e st' | (Oob, st') \<Rightarrow> False"
    proof (rule holds_run [OF frame])
      fix u st'
      assume r: "?frame st = (Ok u, st')" "writing I st'"
      show ?thesis
      proof (cases "length xs - n = 0")
        case False
        then show ?thesis using holds_case [OF less [OF n(1)] r(2)] n(2) r(1) by (simp add: step)
      qed (use r in \<open>simp add: step\<close>)
    qed (simp add: step)
  qed
qed

lemma write_masked_rest_writing:
  assumes "0 < sz"
  shows "holds (writing I) (write_masked_rest cf sz key xs) (\<lambda>_. writing I) (wfail I)"
proof (induction "length xs" arbitrary: xs key rule: less_induct)
  case less
  define n where "n = min (length xs) sz"
  let ?part = "act_bind (lift_ub (mask_octets (cf_addr cf) key (take n xs))) (\<lambda>(ys, key).
      act_bind (net_write ys) (\<lambda>_. act_ret key))"
  have part: "holds (writing I) ?part (\<lambda>_. writing I) (wfail I)"
  proof (rule holds_bind [OF mask_writing], simp only: split_paired_all prod.case, rule holds_conj)
    show "holds (writing I) (act_bind (net_write ys) (\<lambda>_. act_ret key)) (\<lambda>_. writing I) (wfail I)" for ys key
      by (rule holds_bind [OF net_write_writing holds_ret])
  qed
  have step: "write_masked_rest cf sz key xs st = (if xs = [] then (Ok (), st) else case ?part st of
      (Ok key, st) \<Rightarrow> if n = 0 then (Oob, st) else write_masked_rest cf sz key (drop n xs) st
      | (Err e, st) \<Rightarrow> (Err e, st) | (Oob, st) \<Rightarrow> (Oob, st))" for st :: "'a ws \<times> 'b"
    unfolding n_def by (subst write_masked_rest.simps) (simp only: Let_def)
  have n: "length (drop n xs) < length xs" "n \<noteq> 0" if "xs \<noteq> []"
    using that assms by (auto simp: n_def)
  show ?case
  proof (rule holdsI)
    fix st :: "'a ws \<times> 'b"
    assume st: "writing I st"
    show "case write_masked_rest cf sz key xs st of (Ok a, st') \<Rightarrow> writing I st'
        | (Err e, st') \<Rightarrow> wfail I e st' | (Oob, st') \<Rightarrow> False"
    proof (cases "xs = []")
      case False
      show ?thesis
      proof (rule holds_run [OF part st])
        fix key' st'
        assume r: "?part st = (Ok key', st')" "writing I st'"
        then show ?thesis using holds_case [OF less [OF n(1) [OF False]] r(2)] n(2) [OF False] False by (simp add: step)
      qed (simp add: step False)
    qed (use st in \<open>subst write_masked_rest.simps, simp\<close>)
  qed
qed

lemma write_masked_frame_writing:
  "holds (writing I) (write_masked_frame cf fh fin sz xs) (\<lambda>_. writing I) (wfail I)"
  unfolding write_masked_frame_def Let_def
proof (rule holds_bind [OF draw_key_writing], rule holds_bind [OF mask_writing],
    simp only: split_paired_all prod.case, rule holds_conj)
  show "holds (writing I) (act_bind (set_wr_cont b) (\<lambda>_. write_header h ys)) (\<lambda>_. writing I) (wfail I)" for b h ys
    by (rule holds_bind [OF set_wr_cont_writing write_header_writing])
qed

lemma write_masked_frag_writing:
  assumes "0 < sz"
  shows "holds (writing I) (write_masked_frag cf fh fin sz xs) (\<lambda>_. writing I) (wfail I)"
proof (induction "length xs" arbitrary: xs fh rule: less_induct)
  case less
  define n where "n = min (length xs) sz"
  note frame = write_masked_frame_writing [of I cf fh fin sz xs]
  have step: "write_masked_frag cf fh fin sz xs st = (case write_masked_frame cf fh fin sz xs st of
      (Ok _, st) \<Rightarrow> if length xs - n = 0 then (Ok (), st) else if n = 0 then (Oob, st)
        else write_masked_frag cf (fh\<lparr>fh_op := Op_cont\<rparr>) fin sz (drop n xs) st
      | (Err e, st) \<Rightarrow> (Err e, st) | (Oob, st) \<Rightarrow> (Oob, st))" for st :: "'a ws \<times> 'b"
    unfolding n_def by (subst write_masked_frag.simps) (simp only: Let_def)
  have n: "length (drop n xs) < length xs" "n \<noteq> 0" if "length xs - n \<noteq> 0"
    using that assms by (auto simp: n_def)
  show ?case
  proof (rule holdsI)
    fix st :: "'a ws \<times> 'b"
    assume "writing I st"
    then show "case write_masked_frag cf fh fin sz xs st of (Ok a, st') \<Rightarrow> writing I st'
        | (Err e, st') \<Rightarrow> wfail I e st' | (Oob, st') \<Rightarrow> False"
    proof (rule holds_run [OF frame])
      fix u st'
      assume r: "write_masked_frame cf fh fin sz xs st = (Ok u, st')" "writing I st'"
      show ?thesis
      proof (cases "length xs - n = 0")
        case False
        then show ?thesis using holds_case [OF less [OF n(1)] r(2)] n(2) r(1) by (simp add: step)
      qed (use r in \<open>simp add: step\<close>)
    qed (simp add: step)
  qed
qed

lemma write_uncompressed_writing:
  "holds (writing I) (write_uncompressed cf fh fin xs) (\<lambda>_. writing I) (wfail I)"
proof -
  have get: "holds (writing I) (get_ws (\<lambda>s. (ws_wr_autofrag s, ws_wr_buf_size s)))
      (\<lambda>(_, sz) st. 0 < sz \<and> writing I st) (wfail I)"
    by (rule get_ws_holds) (simp add: writing_def)
  show ?thesis
    unfolding write_uncompressed_def Let_def
  proof (rule holds_bind [OF get], simp only: split_paired_all prod.case, rule holds_conj, intro holds_if)
    fix sz :: nat
    assume sz: "0 < sz"
    show "holds (writing I) (act_bind (set_wr_cont b) (\<lambda>_. write_header h ys)) (\<lambda>_. writing I) (wfail I)" for b h ys
      by (rule holds_bind [OF set_wr_cont_writing write_header_writing])
    show "holds (writing I) (write_plain fh fin sz xs) (\<lambda>_. writing I) (wfail I)"
      by (rule write_plain_writing [OF sz])
    show "holds (writing I) (write_masked_frag cf fh fin sz xs) (\<lambda>_. writing I) (wfail I)"
      by (rule write_masked_frag_writing [OF sz])
    show "holds (writing I) act_oob (\<lambda>_. writing I) (wfail I)" if "sz = 0" using that sz by simp
    show "holds (writing I) act_oob (\<lambda>_. writing I) (wfail I)" if "sz = 0" using that sz by simp
    show "holds (writing I) (act_bind draw_key (\<lambda>key.
        act_bind (lift_ub (mask_octets (cf_addr cf) (prepare_key64 key) ys)) (\<lambda>(ys, k).
        act_bind (set_wr_cont b) (\<lambda>_. act_bind (write_header (h key) ys) (\<lambda>_. write_masked_rest cf sz k zs)))))
        (\<lambda>_. writing I) (wfail I)" for ys zs b h
      by (rule holds_bind [OF draw_key_writing], rule holds_bind [OF mask_writing],
        simp only: split_paired_all prod.case, rule holds_conj)
        (intro holds_bind [OF set_wr_cont_writing] holds_bind [OF write_header_writing]
          write_masked_rest_writing [OF sz])
  qed
qed

section \<open>With compression\<close>

text \<open>
  The contracts of the engine. \<open>codec_flushes\<close>: a call without an error that produces no output
  has taken all its input and was not the last of a message; \<open>write_frame\<close> asserts this.
  \<open>codec_progress\<close>: a call that asks to be repeated has come nearer to its end.
\<close>

definition codec_flushes :: "'z codec \<Rightarrow> bool" where
  "codec_flushes cd \<longleftrightarrow> (\<forall>n xs fin z k again z'.
     cd_deflate cd n xs fin z = (([], k, again, None), z') \<longrightarrow> \<not> fin \<and> length xs \<le> k)"

definition codec_progress :: "'z codec \<Rightarrow> (bytes \<Rightarrow> 'z \<Rightarrow> nat) \<Rightarrow> bool" where
  "codec_progress cd \<mu> \<longleftrightarrow> (\<forall>n xs fin z out k z'.
     cd_deflate cd n xs fin z = ((out, k, True, None), z') \<longrightarrow> out \<noteq> [] \<longrightarrow> \<mu> (drop k xs) z' < \<mu> xs z)"

definition deflating :: "('b \<Rightarrow> bool) \<Rightarrow> 'z ws \<times> 'b \<Rightarrow> bool" where
  "deflating I = (\<lambda>(s, d). writing I (s, d) \<and> pmd_is_set s)"

definition zo_of :: "'z ws \<times> 'b \<Rightarrow> 'z" where
  "zo_of st = pmd_zo (the (ws_pmd (fst st)))"

text \<open>What the rounds of a compressed message keep, with the engine's state fixed to \<open>z\<close>.\<close>

definition deflating_at :: "('b \<Rightarrow> bool) \<Rightarrow> 'z \<Rightarrow> 'z ws \<times> 'b \<Rightarrow> bool" where
  "deflating_at I z = (\<lambda>(s, d). writing I (s, d) \<and> (\<exists>p. ws_pmd s = Some p \<and> pmd_zo p = z))"

lemma deflating_at_iff: "deflating I st \<longleftrightarrow> deflating_at I (zo_of st) st"
  by (auto simp: deflating_def deflating_at_def zo_of_def pmd_is_set_def split: prod.splits)

lemma deflating_at_net [simp]: "net_free (deflating_at I z)"
  using writing_net [of I] by (auto simp: net_free_def deflating_at_def)

lemma deflating_at_writing: "deflating_at I z st \<Longrightarrow> writing I st"
  by (auto simp: deflating_at_def split: prod.splits)

abbreviation zfail :: "('b \<Rightarrow> bool) \<Rightarrow> leave \<Rightarrow> 'z ws \<times> 'b \<Rightarrow> bool" where
  "zfail I \<equiv> \<lambda>e st. exits I e st \<and> sound I st"

lemma deflate_parts:
  "holds (deflating_at I z) (net_write ys) (\<lambda>_. deflating_at I z) (zfail I)"
  "holds (deflating_at I z) (write_header fh ys) (\<lambda>_. deflating_at I z) (zfail I)"
  "holds (deflating_at I z) draw_key (\<lambda>_. deflating_at I z) (zfail I)"
  "holds (deflating_at I z) (set_wr_cont b) (\<lambda>_. deflating_at I z) (zfail I)"
proof -
  have net: "holds (deflating_at I z) (net_write ys) (\<lambda>_. deflating_at I z) (zfail I)" for ys
    by (rule holds_conseq [OF net_triples(3) [of "deflating_at I z" I]])
      (auto simp: writing_calm writing_sound deflating_at_writing)
  then show "holds (deflating_at I z) (net_write ys) (\<lambda>_. deflating_at I z) (zfail I)" .
  obtain fb where "write_fh static_db fh (static_reset (replicate 14 0)) = Ok fb"
    using static.write_fh_ok [OF static_inv_reset, of 0 "replicate 14 0" fh] by auto
  then show "holds (deflating_at I z) (write_header fh ys) (\<lambda>_. deflating_at I z) (zfail I)"
    using net [of "concat (static_data fb) @ ys"] by (simp add: write_header_def)
  show "holds (deflating_at I z) draw_key (\<lambda>_. deflating_at I z) (zfail I)"
  proof (rule holdsI)
    fix st :: "'a ws \<times> 'b"
    assume st: "deflating_at I z st"
    obtain s d where sd: "st = (s, d)" by fastforce
    then have w: "writing I (s, d)" using st by (simp add: deflating_at_def)
    from next_key_ok [OF writing_maskgen [OF w]] obtain key s' where
      k: "(next_key s :: (leave, _) outcome) = Ok (key, s')" "keyed s s'" by blast
    then have "deflating_at I z (s', d)"
      using st sd writing_keyed [OF k(2) w] by (auto simp: deflating_at_def keyed_def)
    with k(1) sd show "case draw_key st of (Ok a, st') \<Rightarrow> deflating_at I z st'
        | (Err e, st') \<Rightarrow> zfail I e st' | (Oob, st') \<Rightarrow> False"
      by (simp add: draw_key_def)
  qed
  show "holds (deflating_at I z) (set_wr_cont b) (\<lambda>_. deflating_at I z) (zfail I)"
    unfolding set_wr_cont_def
    by (rule on_ws_holds) (clarsimp simp: deflating_at_def writing_def sound_def ws_inv_defs pmd_is_set_def)
qed

lemma do_deflate_holds:
  "holds (deflating_at I z) (do_deflate cf xs fin)
     (\<lambda>(out, rest, again) st. \<exists>n k z'. cd_deflate (cf_codec cf) n xs fin z = ((out, k, again, None), z') \<and>
        rest = drop k xs \<and> deflating_at I z' st) (zfail I)"
proof (rule holdsI)
  fix st :: "'a ws \<times> 'b"
  assume st: "deflating_at I z st"
  obtain s d where sd: "st = (s, d)" by fastforce
  then obtain p where p: "ws_pmd s = Some p" "pmd_zo p = z" "writing I (s, d)" using st by (auto simp: deflating_at_def)
  obtain out k again ec z' where
    z: "cd_deflate (cf_codec cf) (ws_wr_buf_size s) xs fin z = ((out, k, again, ec), z')"
    by (cases "cd_deflate (cf_codec cf) (ws_wr_buf_size s) xs fin z") auto
  let ?s = "s\<lparr>ws_pmd := Some (p\<lparr>pmd_zo := z'\<rparr>)\<rparr>"
  have w: "writing I (?s\<lparr>ws_failed := f\<rparr>, d)" for f
    using p by (clarsimp simp: writing_def sound_def ws_inv_defs pmd_is_set_def)
  have e: "zfail I (Return e) (?s\<lparr>ws_failed := True\<rparr>, d)" for e
    using calm_left(1) [OF writing_calm [OF w [of True]], of e] writing_sound [OF w [of True]]
    by (simp add: exits_def)
  show "case do_deflate cf xs fin st of
      (Ok r, st') \<Rightarrow> (\<lambda>(out, rest, again) st. \<exists>n k z'. cd_deflate (cf_codec cf) n xs fin z = ((out, k, again, None), z') \<and>
        rest = drop k xs \<and> deflating_at I z' st) r st'
      | (Err e, st') \<Rightarrow> zfail I e st' | (Oob, st') \<Rightarrow> False"
  proof (cases ec)
    case None
    with z w [of False] p sd show ?thesis
      by (auto simp: do_deflate_def Let_def deflating_at_def)
  qed (use z e p sd in \<open>simp add: do_deflate_def Let_def\<close>)
qed

lemma deflate_round_holds:
  assumes cd: "codec_flushes (cf_codec cf)"
  shows "holds (deflating_at I z) (deflate_round cf fh fin xs)
    (\<lambda>(_, rest, again) st. \<exists>z'. deflating_at I z' st \<and>
       (again \<longrightarrow> codec_progress (cf_codec cf) \<mu> \<longrightarrow> \<mu> rest z' < \<mu> xs z)) (zfail I)"
    (is "holds _ _ ?Q _")
  unfolding deflate_round_def
proof (rule holds_bind [OF do_deflate_holds], simp only: split_paired_all prod.case, rule holds_pre)
  fix out rest again and st :: "'a ws \<times> 'b"
  let ?P = "\<lambda>st. \<exists>n k z'. cd_deflate (cf_codec cf) n xs fin z = ((out, k, again, None), z') \<and>
    rest = drop k xs \<and> deflating_at I z' st"
  assume "?P st"
  then obtain n k z' where c: "cd_deflate (cf_codec cf) n xs fin z = ((out, k, again, None), z')" "rest = drop k xs"
    by blast
  show "(out = [] \<longrightarrow> \<not> fin \<and> rest = []) \<and> (out \<noteq> [] \<longrightarrow> again \<longrightarrow> True)"
  proof -
    have "out = [] \<Longrightarrow> \<not> fin \<and> length xs \<le> k" using cd c(1) unfolding codec_flushes_def by blast
    with c(2) show ?thesis by auto
  qed
next
  fix out rest again
  let ?P = "\<lambda>st. \<exists>n k z'. cd_deflate (cf_codec cf) n xs fin z = ((out, k, again, None), z') \<and>
    rest = drop k xs \<and> deflating_at I z' st"
  assume o: "(out = [] \<longrightarrow> \<not> fin \<and> rest = []) \<and> (out \<noteq> [] \<longrightarrow> again \<longrightarrow> True)"
  let ?good = "\<lambda>z'. again \<longrightarrow> out \<noteq> [] \<longrightarrow> codec_progress (cf_codec cf) \<mu> \<longrightarrow> \<mu> rest z' < \<mu> xs z"
  have ex: "holds ?P m ?Q (zfail I)"
    if "\<And>z'. ?good z' \<Longrightarrow> holds (deflating_at I z') m ?Q (zfail I)"
    for m :: "('a, 'b, frame_header \<times> bytes \<times> bool) wsact"
  proof (rule holdsI)
    fix st :: "'a ws \<times> 'b"
    assume "?P st"
    then obtain n k z' where c: "cd_deflate (cf_codec cf) n xs fin z = ((out, k, again, None), z')"
      "rest = drop k xs" "deflating_at I z' st" by blast
    then have "?good z'" by (auto simp: codec_progress_def)
    from holds_case [OF that [OF this] c(3)] show "case m st of (Ok a, st') \<Rightarrow> ?Q a st'
        | (Err e, st') \<Rightarrow> zfail I e st' | (Oob, st') \<Rightarrow> False" .
  qed
  show "holds ?P (if out = [] then if fin \<or> rest \<noteq> [] then act_oob else act_ret (fh\<lparr>fh_fin := False\<rparr>, rest, False)
     else act_bind (if fh_mask fh then draw_key else act_ret (fh_key fh)) (\<lambda>key.
       act_bind (if fh_mask fh then lift_ub (mask_octets (cf_addr cf) (prepare_key64 key) out)
                 else act_ret (out, 0)) (\<lambda>(ys, _).
       let fh = fh\<lparr>fh_key := key, fh_fin := \<not> again, fh_len := of_nat (length out)\<rparr> in
       act_bind (set_wr_cont (\<not> fin)) (\<lambda>_.
       act_bind (write_header fh ys) (\<lambda>_.
       act_ret (if again then fh\<lparr>fh_op := Op_cont, fh_rsv1 := False\<rparr> else fh, rest, again)))))) ?Q (zfail I)"
  proof (rule ex, rule holds_if)
    fix z'
    assume "?good z'"
    show "out = [] \<Longrightarrow> holds (deflating_at I z') (if fin \<or> rest \<noteq> [] then act_oob
        else act_ret (fh\<lparr>fh_fin := False\<rparr>, rest, False)) ?Q (zfail I)"
      using o by (auto intro!: holds_ret)
    assume "out \<noteq> []"
    with \<open>?good z'\<close> have ret: "holds (deflating_at I z') (act_ret (h, rest, again)) ?Q (zfail I)" for h
      by (intro holds_ret) auto
    show "holds (deflating_at I z') (act_bind (if fh_mask fh then draw_key else act_ret (fh_key fh)) (\<lambda>key.
       act_bind (if fh_mask fh then lift_ub (mask_octets (cf_addr cf) (prepare_key64 key) out)
                 else act_ret (out, 0)) (\<lambda>(ys, _).
       let fh = fh\<lparr>fh_key := key, fh_fin := \<not> again, fh_len := of_nat (length out)\<rparr> in
       act_bind (set_wr_cont (\<not> fin)) (\<lambda>_.
       act_bind (write_header fh ys) (\<lambda>_.
       act_ret (if again then fh\<lparr>fh_op := Op_cont, fh_rsv1 := False\<rparr> else fh, rest, again)))))) ?Q (zfail I)"
      unfolding Let_def
    proof (rule holds_bind [where R = "\<lambda>_. deflating_at I z'"])
      show "holds (deflating_at I z') (if fh_mask fh then draw_key else act_ret (fh_key fh))
          (\<lambda>_. deflating_at I z') (zfail I)"
        by (intro holds_if deflate_parts(3) holds_ret)
      fix key
      have mask: "holds (deflating_at I z') (if fh_mask fh then lift_ub (mask_octets (cf_addr cf) (prepare_key64 key) out)
          else act_ret (out, 0)) (\<lambda>_. deflating_at I z') (zfail I)"
        by (rule holds_if, rule holds_conseq [OF mask_writing [where P = "deflating_at I z'"]]) (auto intro: holds_ret)
      show "holds (deflating_at I z') (act_bind (if fh_mask fh then lift_ub (mask_octets (cf_addr cf) (prepare_key64 key) out)
          else act_ret (out, 0)) (\<lambda>(ys, _). act_bind (set_wr_cont (\<not> fin)) (\<lambda>_.
          act_bind (write_header (h key) ys) (\<lambda>_. act_ret (h' key, rest, again))))) ?Q (zfail I)" for h h'
        by (rule holds_bind [OF mask], simp only: split_paired_all prod.case)
          (intro holds_bind [OF deflate_parts(4)] holds_bind [OF deflate_parts(2)] ret)
    qed
  qed
qed

lemma write_deflate_holds:
  assumes cd: "codec_flushes (cf_codec cf)" "codec_progress (cf_codec cf) \<mu>"
  shows "deflating_at I z st \<Longrightarrow> \<exists>r. write_deflate cf fh fin xs st = Some r \<and>
    (case r of (Ok _, st') \<Rightarrow> (\<exists>z'. deflating_at I z' st') | (Err e, st') \<Rightarrow> zfail I e st' | (Oob, st') \<Rightarrow> False)"
proof (induction "\<mu> xs z" arbitrary: xs z st fh rule: less_induct)
  case less
  show ?case
  proof (rule holds_run [OF deflate_round_holds [OF cd(1), where \<mu> = \<mu> and fh = fh and fin = fin and xs = xs] less.prems])
    fix r st'
    assume r: "deflate_round cf fh fin xs st = (Ok r, st')"
      and q: "(\<lambda>(_, rest, again) st. \<exists>z'. deflating_at I z' st \<and>
        (again \<longrightarrow> codec_progress (cf_codec cf) \<mu> \<longrightarrow> \<mu> rest z' < \<mu> xs z)) r st'"
    obtain h rest again where h: "r = (h, rest, again)" by (cases r)
    from q h cd(2) obtain z' where z': "deflating_at I z' st'" "again \<longrightarrow> \<mu> rest z' < \<mu> xs z" by auto
    show ?thesis
    proof (cases again)
      case True
      with less.hyps [OF _ z'(1)] z'(2) r h show ?thesis by (subst write_deflate.simps) simp
    next
      case False
      with z'(1) r h show ?thesis by (subst write_deflate.simps) auto
    qed
  next
    fix e st'
    assume "deflate_round cf fh fin xs st = (Err e, st')" "zfail I e st'"
    then show ?thesis by (subst write_deflate.simps) simp
  qed
qed

section \<open>The public operations\<close>

lemma write_frame_holds:
  assumes cd: "codec_flushes (cf_codec cf)" "codec_progress (cf_codec cf) \<mu>" and st: "sound I st"
  shows "\<exists>r. write_frame cf fin xs st = Some r \<and>
    (case r of (Ok _, st') \<Rightarrow> sound I st' | (Err e, st') \<Rightarrow> zfail I e st' | (Oob, st') \<Rightarrow> False)"
proof -
  obtain s d where sd: "st = (s, d)" by fastforce
  obtain fh s' where su: "write_setup s = (fh, s')" by (cases "write_setup s")
  then have w: "writing I (s', d)" using st sd write_setup_writing [of I s d fh s'] by simp
  show ?thesis
  proof (cases "ws_wr_compress s'")
    case False
    have "holds (writing I) (write_uncompressed cf fh fin xs) (\<lambda>_. sound I) (zfail I)"
      by (rule holds_conseq [OF write_uncompressed_writing]) (auto intro: writing_sound)
    from holds_case [OF this w] su sd False show ?thesis by (simp add: write_frame_def)
  next
    case True
    then obtain p where "ws_pmd s' = Some p" using w by (auto simp: writing_def pmd_is_set_def)
    with w have at: "deflating_at I (pmd_zo p) (s', d)" by (simp add: deflating_at_def)
    from write_deflate_holds [OF cd at, of fh fin xs] obtain r where
      r: "write_deflate cf fh fin xs (s', d) = Some r"
      "case r of (Ok _, st') \<Rightarrow> (\<exists>z'. deflating_at I z' st') | (Err e, st') \<Rightarrow> zfail I e st' | (Oob, st') \<Rightarrow> False"
      by blast
    have fin: "sound I (deflate_done cf h s2, d2)" if "deflating_at I z' (s2, d2)" for h z' s2 d2
    proof -
      have "sound I (s2, d2)" by (rule writing_sound [OF deflating_at_writing [OF that]])
      then show ?thesis by (clarsimp simp: deflate_done_def sound_def ws_inv_defs pmd_is_set_def)
    qed
    obtain x s2 d2 where x: "r = (x, (s2, d2))" by (cases r) auto
    with r su sd True fin show ?thesis by (cases x) (auto simp: write_frame_def)
  qed
qed

lemma close_stream_holds:
  assumes "length (cr_reason cr) \<le> 123"
  shows "holds (\<lambda>st. sound I st \<and> \<not> ws_wr_close (fst st)) (close_stream cf cr) (\<lambda>_. sound I) (zfail I)"
proof -
  have len: "length (close_payload cr) \<le> 125" using assms by (simp add: close_payload_def)
  have get: "holds (\<lambda>st. sound I st \<and> \<not> ws_wr_close (fst st)) (get_ws ws_wr_close) (\<lambda>b st. \<not> b \<and> sound I st) (zfail I)"
    by (rule get_ws_holds) simp
  have set: "holds (sound I) (on_ws (\<lambda>s. s\<lparr>ws_wr_close := True\<rparr>)) (\<lambda>_. sound I) (zfail I)"
    by (rule on_ws_holds) (clarsimp simp: sound_def ws_inv_defs pmd_is_set_def)
  show ?thesis
    unfolding close_stream_def
    by (rule holds_bind [OF get], rule holds_conj, simp only: if_False)
      (rule holds_bind [OF set write_control_sound(2) [OF len]])
qed

lemma keep_failed_holds:
  assumes "holds (sound I) m (\<lambda>_. sound I) (zfail I)"
  shows "holds (sound I) (keep_failed m) (\<lambda>_. sound I) (\<lambda>e st. (\<exists>ec. e = Return ec \<or> e = Throw) \<and> sound I st)"
proof (rule holdsI)
  fix st :: "'a ws \<times> 'b"
  assume st: "sound I st"
  have keep: "sound I (s\<lparr>ws_failed := f\<rparr>, d)" if "sound I (s, d)" for s d f
    by (rule net_free_failed [OF net_free_sound that])
  have e: "exits I e st' \<Longrightarrow> \<exists>ec. e = Return ec \<or> e = Throw" for e st'
    by (cases e) (auto simp: exits_def)
  obtain r s' d' where r: "m st = (r, (s', d'))" by (cases "m st") auto
  with holds_case [OF assms st] keep e show "case keep_failed m st of (Ok a, st') \<Rightarrow> sound I st'
      | (Err e, st') \<Rightarrow> (\<exists>ec. e = Return ec \<or> e = Throw) \<and> sound I st' | (Oob, st') \<Rightarrow> False"
    by (cases r) (auto simp: keep_failed_def dest: e)
qed

lemma ping_pong_holds:
  assumes "length p \<le> 125"
  shows "holds (sound I) (ping_stream cf p) (\<lambda>_. sound I) (\<lambda>e st. (\<exists>ec. e = Return ec \<or> e = Throw) \<and> sound I st)"
    and "holds (sound I) (pong_stream cf p) (\<lambda>_. sound I) (\<lambda>e st. (\<exists>ec. e = Return ec \<or> e = Throw) \<and> sound I st)"
  unfolding ping_stream_def pong_stream_def
  by (rule keep_failed_holds, rule write_control_sound(1) [OF assms])+

end
