(* ===== verification/Ws_Lifecycle.thy ===== *)
theory Ws_Lifecycle
  imports Ws_Write_Safe
begin

text \<open>
  The life of a WebSocket stream as a step relation: an object is constructed and configured, a
  handshake opens it, and then its owner calls the public operations in any order while octets
  arrive from the peer. The owner stops reading and writing once the connection has failed.
\<close>

section \<open>Steps\<close>

text \<open>Construction, options, and the negotiated or offered compression parameters.\<close>

inductive configured :: "'z ws \<Rightarrow> bool" where
  construct: "configured (ws_init rng nt)"
| auto_fragment: "configured s \<Longrightarrow> configured (set_auto_fragment v s)"
| message_type: "configured s \<Longrightarrow> set_message_type op s = Ok s' \<Longrightarrow> configured s'"
| read_message_max: "configured s \<Longrightarrow> configured (set_read_message_max n s)"
| read_buffer_size: "configured s \<Longrightarrow> set_read_buffer_size n s = Ok s' \<Longrightarrow> configured s'"
| write_buffer_size: "configured s \<Longrightarrow> set_write_buffer_size n s = Ok s' \<Longrightarrow> configured s'"
| ping_callback: "configured s \<Longrightarrow> configured (s\<lparr>ws_ping_cb := v\<rparr>)"
| compression: "configured s \<Longrightarrow> pmd_set_option (ws_pmd_opts s) po = Ok po' \<Longrightarrow> configured (s\<lparr>ws_pmd_opts := po'\<rparr>)"
| negotiated: "configured s \<Longrightarrow> configured (s\<lparr>ws_pmd_config := config\<rparr>)"

text \<open>
  \<open>ws_step cf junk\<close>: one operation on an open stream and the owner's buffer. \<open>arrive\<close> is the
  environment: anything may happen to the next layer.
\<close>

inductive ws_step :: "'z ws_cfg \<Rightarrow> (nat \<Rightarrow> u8) \<Rightarrow> 'z ws \<times> flat_buffer \<Rightarrow> 'z ws \<times> flat_buffer \<Rightarrow> bool"
  for cf junk where
  read: "\<not> ws_failed s \<Longrightarrow> read_message cf (flat_db junk) (s, b) = (r, st') \<Longrightarrow> ws_step cf junk (s, b) st'"
| read_frame: "\<not> ws_failed s \<Longrightarrow> read_frame cf (flat_db junk) (s, b) = (r', st') \<Longrightarrow> ws_step cf junk (s, b) st'"
| write_frame: "\<not> ws_failed s \<Longrightarrow> write_frame cf fin xs (s, b) = Some (w, st') \<Longrightarrow> ws_step cf junk (s, b) st'"
| close: "\<not> ws_failed s \<Longrightarrow> \<not> ws_wr_close s \<Longrightarrow> length (cr_reason cr) \<le> 123 \<Longrightarrow>
    close_stream cf cr (s, b) = (w, st') \<Longrightarrow> ws_step cf junk (s, b) st'"
| ping: "\<not> ws_failed s \<Longrightarrow> length p \<le> 125 \<Longrightarrow> ping_stream cf p (s, b) = (w, st') \<Longrightarrow> ws_step cf junk (s, b) st'"
| pong: "\<not> ws_failed s \<Longrightarrow> length p \<le> 125 \<Longrightarrow> pong_stream cf p (s, b) = (w, st') \<Longrightarrow> ws_step cf junk (s, b) st'"
| set_fragment: "ws_step cf junk (s, b) (set_auto_fragment v s, b)"
| set_type: "set_message_type op s = Ok s' \<Longrightarrow> ws_step cf junk (s, b) (s', b)"
| set_max: "ws_step cf junk (s, b) (set_read_message_max n s, b)"
| set_read_size: "set_read_buffer_size k s = Ok s' \<Longrightarrow> ws_step cf junk (s, b) (s', b)"
| set_write_size: "set_write_buffer_size k s = Ok s' \<Longrightarrow> ws_step cf junk (s, b) (s', b)"
| consume: "ws_step cf junk (s, b) (s, flat_consume k b)"
| arrive: "ws_step cf junk (s, b) (s\<lparr>ws_net := nt\<rparr>, b)"

inductive_cases ws_stepE [elim]: "ws_step cf junk (s, b) st'"

text \<open>What a stream does from the handshake on.\<close>

inductive live :: "'z ws_cfg \<Rightarrow> (nat \<Rightarrow> u8) \<Rightarrow> 'z ws \<times> flat_buffer \<Rightarrow> bool" for cf junk where
  opened: "configured s \<Longrightarrow> flat_inv b \<Longrightarrow> live cf junk (ws_open (cf_codec cf) role s, b)"
| step: "live cf junk st \<Longrightarrow> ws_step cf junk st st' \<Longrightarrow> live cf junk st'"

section \<open>The invariant\<close>

definition alive :: "'z ws \<times> flat_buffer \<Rightarrow> bool" where
  "alive = (\<lambda>(s, b). ws_base s \<and> ws_between s \<and> flat_inv b \<and> (\<not> ws_failed s \<longrightarrow> utf8_inv (ws_rd_utf8 s)))"

text \<open>A codec the writing operations can rely on.\<close>

definition codec_ok :: "'z codec \<Rightarrow> bool" where
  "codec_ok cd \<longleftrightarrow> codec_flushes cd \<and> (\<exists>\<mu>. codec_progress cd \<mu>)"

lemma alive_sound: "\<not> ws_failed s \<Longrightarrow> alive (s, b) \<longleftrightarrow> sound flat_inv (s, b)"
  by (auto simp: alive_def sound_def ws_inv_def)

lemma sound_alive: "sound flat_inv st \<Longrightarrow> alive st"
  by (auto simp: alive_def sound_def ws_inv_def split: prod.splits)

lemma exits_alive: "exits flat_inv e st \<Longrightarrow> alive st"
  by (cases e) (auto simp: alive_def exits_def left_def split: prod.splits)

lemma holds_alive:
  assumes "holds P m Q E" "P st" "m st = (r, st')"
    and "\<And>a. Q a st' \<Longrightarrow> alive st'" "\<And>e. E e st' \<Longrightarrow> alive st'"
  shows "alive st'"
  using holds_case [OF assms(1,2)] assms(3,4,5) by (cases r) auto

lemma option_facts:
  "set_message_type op s = Ok s' \<Longrightarrow> \<exists>v. s' = s\<lparr>ws_wr_opcode := v\<rparr>"
  "set_read_buffer_size n s = Ok s' \<Longrightarrow> 8 \<le> n \<and> s' = s\<lparr>ws_rd_buf_size_opt := n\<rparr>"
  "set_write_buffer_size n s = Ok s' \<Longrightarrow> 8 \<le> n \<and> s' = s\<lparr>ws_wr_buf_size_opt := n\<rparr>"
  by (auto simp: set_message_type_def set_read_buffer_size_def set_write_buffer_size_def split: if_splits)

lemma configured_inv:
  "configured s \<Longrightarrow> maskgen_ok (ws_maskgen s) \<and> 8 \<le> ws_rd_buf_size_opt s \<and> 8 \<le> ws_wr_buf_size_opt s \<and>
     \<not> ws_rd_buf s \<and> ws_rd_utf8 s = utf8_init"
  by (induction rule: configured.induct)
    (auto simp: ws_init_def maskgen_ok_rekey set_auto_fragment_def set_read_message_max_def dest!: option_facts)

lemma opened_alive: "configured s \<Longrightarrow> flat_inv b \<Longrightarrow> alive (ws_open cd role s, b)"
  using configured_inv [of s] by (auto simp: sound_def intro!: sound_alive ws_open_inv)

lemma step_alive:
  assumes cd: "codec_ok (cf_codec cf)" and st: "alive (s, b)" and step: "ws_step cf junk (s, b) st'"
  shows "alive st'"
  using step
proof cases
  case (read r)
  with st have "sound flat_inv (s, b)" by (simp add: alive_sound)
  from holds_alive [OF flat.read_message_holds this read(2)] show ?thesis by (auto intro: sound_alive exits_alive)
next
  case (read_frame r)
  with st have "sound flat_inv (s, b)" by (simp add: alive_sound)
  from holds_alive [OF flat.read_frame_holds this read_frame(2)] show ?thesis
    by (auto intro: sound_alive exits_alive)
next
  case (write_frame fin xs w)
  with st have s: "sound flat_inv (s, b)" by (simp add: alive_sound)
  from cd obtain \<mu> where "codec_flushes (cf_codec cf)" "codec_progress (cf_codec cf) \<mu>" by (auto simp: codec_ok_def)
  from write_frame_holds [OF this s, of fin xs] write_frame(2) show ?thesis
    by (cases w) (auto intro: sound_alive)
next
  case (close cr w)
  with st have "sound flat_inv (s, b) \<and> \<not> ws_wr_close (fst (s, b))" by (simp add: alive_sound)
  from holds_alive [OF close_stream_holds [OF close(3)] this close(4)] show ?thesis by (auto intro: sound_alive)
next
  case (ping p w)
  with st have "sound flat_inv (s, b)" by (simp add: alive_sound)
  from holds_alive [OF ping_pong_holds(1) [OF ping(2)] this ping(3)] show ?thesis by (auto intro: sound_alive)
next
  case (pong p w)
  with st have "sound flat_inv (s, b)" by (simp add: alive_sound)
  from holds_alive [OF ping_pong_holds(2) [OF pong(2)] this pong(3)] show ?thesis by (auto intro: sound_alive)
next
  case (consume k)
  with st flat.consume [where b = b and n = k] show ?thesis by (simp add: alive_def)
qed ((use st in \<open>clarsimp simp: alive_def ws_base_def ws_between_def pmd_is_set_def set_auto_fragment_def
  set_read_message_max_def dest!: option_facts\<close>)+)

lemma live_alive:
  assumes "codec_ok (cf_codec cf)"
  shows "live cf junk st \<Longrightarrow> alive st"
proof (induction rule: live.induct)
  case (step st st')
  then show ?case using step_alive [OF assms] by (cases st) blast
qed (rule opened_alive)

lemma live_sound:
  "codec_ok (cf_codec cf) \<Longrightarrow> live cf junk (s, b) \<Longrightarrow> \<not> ws_failed s \<Longrightarrow> sound flat_inv (s, b)"
  using live_alive alive_sound by blast

text \<open>
  The contracts can be met: an engine that stores what it gets and marks the end of a message with
  an octet has them.
\<close>

definition marking_codec :: "unit codec" where
  "marking_codec = stored_codec\<lparr>cd_deflate :=
     (\<lambda>_ xs fin _. ((if fin then xs @ [0] else xs, length xs, False, None), ()))\<rparr>"

definition cfg_marking :: "unit ws_cfg" where
  "cfg_marking = cfg_example\<lparr>cf_codec := marking_codec\<rparr>"

lemma marking_codec_ok: "codec_ok (cf_codec cfg_marking)"
proof -
  have "codec_progress marking_codec (\<lambda>_ _. 0)" by (simp add: codec_progress_def marking_codec_def)
  moreover have "codec_flushes marking_codec" by (auto simp: codec_flushes_def marking_codec_def)
  ultimately show ?thesis by (auto simp: codec_ok_def cfg_marking_def)
qed

lemma marking_live: "live cfg_marking junk (ws_open marking_codec role ws_example, flat_init n)"
proof -
  have "configured ws_example" unfolding ws_example_def by (rule configured.construct)
  moreover have "flat_inv (flat_init n)" by (rule flat_inv_init)
  ultimately show ?thesis
    using live.opened [of ws_example "flat_init n" cfg_marking junk role] by (simp add: cfg_marking_def)
qed

section \<open>Properties\<close>

text \<open>C5: An open stream keeps its invariant in every history of public operations, whatever the peer
  sends and whichever reads and writes fail: the mask generator is seeded, the read and write buffers
  in use have at least 8 octets, a message in progress is text or binary, compression objects exist
  where flags say so, the reader's buffer is consistent, and, until the connection has failed, the
  UTF-8 checker holds at most one unfinished character.\<close>

theorem stream_invariant:
  assumes "codec_ok (cf_codec cf)" and "live cf junk (s, b)"
  shows "maskgen_ok (ws_maskgen s) \<and> 8 \<le> ws_rd_buf_size_opt s \<and> 8 \<le> ws_wr_buf_size_opt s \<and>
    (ws_rd_cont s \<longrightarrow> (ws_rd_op s = Op_text \<or> ws_rd_op s = Op_binary) \<and>
      (pmd_is_set s \<longrightarrow> ws_rd_buf s \<and> 8 \<le> ws_rd_buf_size s)) \<and>
    (ws_wr_cont s \<longrightarrow> 8 \<le> ws_wr_buf_size s \<and> (ws_wr_compress s \<longrightarrow> pmd_is_set s)) \<and>
    flat_inv b \<and> (\<not> ws_failed s \<longrightarrow> utf8_inv (ws_rd_utf8 s))"
  using live_alive [OF assms] by (simp add: alive_def ws_base_def ws_between_def)

lemma marking_open: "\<not> ws_failed (ws_open marking_codec role ws_example)" "\<not> ws_wr_close (ws_open marking_codec role ws_example)"
  by (simp_all add: ws_open_def Let_def split: prod.split)

theorem stream_invariant_witness:
  "\<exists>r s b. read_message cfg_marking (flat_db (\<lambda>_. 0)) (ws_open marking_codec Client ws_example, flat_init 10) = (r, (s, b)) \<and>
    maskgen_ok (ws_maskgen s) \<and> flat_inv b"
proof -
  let ?st = "(ws_open marking_codec Client ws_example, flat_init 10)"
  obtain r s b where r: "read_message cfg_marking (flat_db (\<lambda>_. 0)) ?st = (r, (s, b))"
    by (cases "read_message cfg_marking (flat_db (\<lambda>_. 0)) ?st") auto
  have "live cfg_marking (\<lambda>_. 0) (s, b)"
    by (rule live.step [OF marking_live ws_step.read [OF marking_open(1) r]])
  with stream_invariant [OF marking_codec_ok this] r show ?thesis by blast
qed



text \<open>C15: What \<open>read\<close> reports. On an open connection it delivers a text or a binary message, or
  leaves with an error code and the connection marked as failed, or, when the owner's buffer is full,
  with the exception.\<close>

theorem read_reports:
  assumes "codec_ok (cf_codec cf)" and "live cf junk (s, b)" and "\<not> ws_failed s"
    and "read_message cf (flat_db junk) (s, b) = (r, (s', b'))"
  shows "r = Ok Op_text \<or> r = Ok Op_binary \<or> (\<exists>ec. r = Err (Return ec) \<and> ws_failed s') \<or> r = Err Throw"
proof -
  note s = live_sound [OF assms(1,2,3)]
  show ?thesis
  proof (rule holds_run [OF flat.read_message_holds s, of cf junk])
    fix e st'
    assume "read_message cf (flat_db junk) (s, b) = (Err e, st')" "exits flat_inv e st'"
    with assms(4) show ?thesis by (cases e) (auto simp: exits_def left_def)
  qed (use assms(4) in auto)
qed

theorem read_reports_witness:
  "\<exists>r s' b'. read_message cfg_marking (flat_db (\<lambda>_. 0)) (ws_open marking_codec Server ws_example, flat_init 10) = (r, (s', b')) \<and>
    (r = Ok Op_text \<or> r = Ok Op_binary \<or> (\<exists>ec. r = Err (Return ec) \<and> ws_failed s') \<or> r = Err Throw)"
proof -
  let ?st = "(ws_open marking_codec Server ws_example, flat_init 10)"
  obtain r s b where r: "read_message cfg_marking (flat_db (\<lambda>_. 0)) ?st = (r, (s, b))"
    by (cases "read_message cfg_marking (flat_db (\<lambda>_. 0)) ?st") auto
  from read_reports [OF marking_codec_ok marking_live marking_open(1) r] r show ?thesis by blast
qed



section \<open>Opening again\<close>


end
