(* ===== verification/Ws_Handshake.thy ===== *)
theory Ws_Handshake
  imports Http_Transfer Ws_Stream_Base Core_Base64 Core_Sha1
begin

text \<open>
  The opening handshake without its I/O: \<open>make_sec_ws_key\<close> and \<open>make_sec_ws_accept\<close>
  (\<open>include/beast/websocket/detail/hybi13.hpp\<close>), \<open>build_request\<close>, \<open>build_response\<close> and \<open>do_response\<close>
  (\<open>websocket/impl/stream.ipp\<close>), \<open>is_upgrade\<close> (\<open>websocket/impl/rfc6455.ipp\<close>), and the negotiation
  of compression over the fields of the messages. The decorators are the functions the program
  passes in.
\<close>

section \<open>Keys\<close>

definition char_octets :: "string \<Rightarrow> bytes" where
  "char_octets s = map (\<lambda>c. of_nat (octet c)) s"

text \<open>The capacities of \<open>sec_ws_key_type\<close> and \<open>sec_ws_accept_type\<close>.\<close>

definition sec_ws_key_size :: nat where
  "sec_ws_key_size = encoded_size 16"

definition sec_ws_accept_size :: nat where
  "sec_ws_accept_size = encoded_size 20"

text \<open>The loop fills \<open>a\<close> with \<open>n\<close> draws. A generator that never delivers is \<open>Oob\<close>, as in
  \<open>next_key\<close>.\<close>

fun key_draws :: "nat \<Rightarrow> maskgen \<Rightarrow> ('e, bytes \<times> maskgen) outcome" where
  "key_draws 0 g = Ok ([], g)"
| "key_draws (Suc n) g =
     (case maskgen_call g of
        None \<Rightarrow> Oob
      | Some (v, g) \<Rightarrow>
          ob (key_draws n g) (\<lambda>(a, g).
          Ok ([ucast (v AND 0xff), ucast (drop_bit 8 v AND 0xff), ucast (drop_bit 16 v AND 0xff),
               ucast (drop_bit 24 v AND 0xff)] @ a, g)))"

definition make_sec_ws_key :: "maskgen \<Rightarrow> ('e, string \<times> maskgen) outcome" where
  "make_sec_ws_key g = ob (key_draws 4 g) (\<lambda>(a, g). Ok (encode a, g))"

text \<open>\<open>ctx\<close> before \<open>init\<close>: a local variable, whose buffer holds anything.\<close>

definition sha1_uninit :: sha1_context where
  "sha1_uninit = \<lparr>sc_buflen = 0, sc_blocks = 0, sc_digest = [], sc_buf = replicate 64 0\<rparr>"

definition ws_guid :: string where
  "ws_guid = ''258EAFA5-E914-47DA-95CA-C5AB0DC85B11''"

definition make_sec_ws_accept :: "string \<Rightarrow> ('e, string) outcome" where
  "make_sec_ws_accept key =
     (if length key > sec_ws_key_size then Oob
      else
        let m = char_octets (key @ ws_guid);
            digest = sha1_finish (sha1_update (sha1_init sha1_uninit) m)
        in Ok (encode digest))"

section \<open>Compression in the fields\<close>

definition ext_field :: string where
  "ext_field = ''Sec-WebSocket-Extensions''"

definition read_offer :: "fields \<Rightarrow> pmd_offer" where
  "read_offer f = pmd_read (fields_at f ext_field)"

definition write_offer :: "pmd_offer \<Rightarrow> fields \<Rightarrow> fields" where
  "write_offer offer = fields_replace ext_field (pmd_write offer)"

definition negotiate_fields ::
    "pmd_offer \<Rightarrow> pmd_offer \<Rightarrow> permessage_deflate \<Rightarrow> fields \<Rightarrow> fields \<times> pmd_offer" where
  "negotiate_fields config offer po f =
     (case pmd_negotiate config offer po of
        (None, config) \<Rightarrow> (f, config)
      | (Some s, config) \<Rightarrow> (fields_replace ext_field s f, config))"

section \<open>The request\<close>

definition beast_version :: string where
  "beast_version = ''Beast/43''"

definition client_offer :: "permessage_deflate \<Rightarrow> pmd_offer" where
  "client_offer po =
     \<lparr>pd_accept = True, pd_server_max_window_bits = po_server_max_window_bits po,
      pd_client_max_window_bits = po_client_max_window_bits po,
      pd_server_no_context_takeover = po_server_no_context_takeover po,
      pd_client_no_context_takeover = po_client_no_context_takeover po\<rparr>"

abbreviation put_field :: "string \<Rightarrow> string \<Rightarrow> http_header \<Rightarrow> http_header" where
  "put_field n v \<equiv> on_fields (fields_insert n v)"

definition build_request ::
    "(http_header \<Rightarrow> http_header) \<Rightarrow> string \<Rightarrow> string \<Rightarrow> ('z ws, 'e, string \<times> http_header) act" where
  "build_request decorator host target s =
     (let req = (set_target target header_init)\<lparr>h_version := 11\<rparr>;
          req = set_method ''GET'' req;
          req = put_field ''Host'' host req;
          req = put_field ''Upgrade'' ''websocket'' req;
          req = put_field ''Connection'' ''upgrade'' req
      in case make_sec_ws_key (ws_maskgen s) of
           Err e \<Rightarrow> (Err e, s)
         | Oob \<Rightarrow> (Oob, s)
         | Ok (key, g) \<Rightarrow>
             let s = s\<lparr>ws_maskgen := g\<rparr>;
                 req = put_field ''Sec-WebSocket-Key'' key req;
                 req = put_field ''Sec-WebSocket-Version'' ''13'' req;
                 req = (if po_client_enable (ws_pmd_opts s)
                        then on_fields (write_offer (client_offer (ws_pmd_opts s))) req else req);
                 req = decorator req;
                 req = (if \<not> fields_exists (h_fields req) ''User-Agent''
                        then put_field ''User-Agent'' beast_version req else req)
             in (Ok (key, req), s))"

section \<open>The response\<close>

type_synonym response = "http_header \<times> string"

definition decorate :: "(response \<Rightarrow> response) \<Rightarrow> response \<Rightarrow> response" where
  "decorate decorator res =
     (let res = decorator res in
      if \<not> fields_exists (h_fields (fst res)) ''Server''
      then (put_field ''Server'' beast_version (fst res), snd res) else res)"

text \<open>A response with the status, the version of the request, and fields and a body; \<open>prepare\<close>
  can throw.\<close>

definition error_response ::
    "(response \<Rightarrow> response) \<Rightarrow> int \<Rightarrow> int \<Rightarrow> (string \<times> string) list \<Rightarrow> string \<Rightarrow>
     (prepare_error, response) outcome" where
  "error_response decorator status version fs text =
     (let res = set_reason (reason_string status) (header_init\<lparr>h_status := status\<rparr>);
          res = put_fields fs (res\<lparr>h_version := version\<rparr>)
      in case prepare False (Some (of_nat (length text))) [] res of
           (Ok _, res) \<Rightarrow> Ok (decorate decorator (res, text))
         | (Err e, _) \<Rightarrow> Err e
         | (Oob, _) \<Rightarrow> Oob)"

definition accept_response ::
    "(response \<Rightarrow> response) \<Rightarrow> permessage_deflate \<Rightarrow> http_header \<Rightarrow> ('e, response) outcome" where
  "accept_response decorator po req =
     (let key = fields_at (h_fields req) ''Sec-WebSocket-Key'';
          offer = read_offer (h_fields req);
          res = on_fields (\<lambda>f. fst (negotiate_fields pmd_none offer po f)) header_init;
          res = set_reason (reason_string 101) (res\<lparr>h_status := 101\<rparr>);
          res = res\<lparr>h_version := h_version req\<rparr>;
          res = put_field ''Upgrade'' ''websocket'' res;
          res = put_field ''Connection'' ''upgrade'' res
      in ob (make_sec_ws_accept key) (\<lambda>accept.
         Ok (decorate decorator (put_field ''Sec-WebSocket-Accept'' accept res, []))))"

definition build_response ::
    "(response \<Rightarrow> response) \<Rightarrow> permessage_deflate \<Rightarrow> http_header \<Rightarrow> (prepare_error, response) outcome" where
  "build_response decorator po req =
     (let err = error_response decorator 400 (h_version req) [];
          f = h_fields req
      in if h_version req < 11 then err ''HTTP version 1.1 required''
         else if header_method req \<noteq> ''GET'' then err ''Wrong method''
         else ob (msg_is_upgrade req) (\<lambda>upgrade.
           if \<not> upgrade then err ''Expected Upgrade request''
           else if \<not> fields_exists f ''Host'' then err ''Missing Host''
           else if \<not> fields_exists f ''Sec-WebSocket-Key'' then err ''Missing Sec-WebSocket-Key''
           else if \<not> has_token req ''Upgrade'' ''websocket'' then err ''Missing websocket Upgrade token''
           else if length (fields_at f ''Sec-WebSocket-Key'') > sec_ws_key_size
             then err ''Invalid Sec-WebSocket-Key''
           else
             let version = fields_at f ''Sec-WebSocket-Version'' in
             if version = [] then err ''Missing Sec-WebSocket-Version''
             else if version \<noteq> ''13''
               then error_response decorator 426 (h_version req) [(''Sec-WebSocket-Version'', ''13'')] ''''
             else accept_response decorator po req))"

section \<open>The client's check\<close>

definition response_ok :: "http_header \<Rightarrow> string \<Rightarrow> ('e, bool) outcome" where
  "response_ok res key =
     (if h_version res < 11 then Ok False
      else if h_status res \<noteq> 101 then Ok False
      else ob (msg_is_upgrade res) (\<lambda>upgrade.
        if \<not> upgrade then Ok False
        else if \<not> has_token res ''Upgrade'' ''websocket'' then Ok False
        else if \<not> fields_exists (h_fields res) ''Sec-WebSocket-Accept'' then Ok False
        else ob (make_sec_ws_accept key) (\<lambda>accept.
          Ok (accept = fields_at (h_fields res) ''Sec-WebSocket-Accept''))))"

definition do_response :: "'z codec \<Rightarrow> http_header \<Rightarrow> string \<Rightarrow> ('z ws, error_code, unit) act" where
  "do_response cd res key s =
     (case response_ok res key of
        Err e \<Rightarrow> (Err e, s)
      | Oob \<Rightarrow> (Oob, s)
      | Ok success \<Rightarrow>
          if \<not> success then (Err Ec_handshake_failed, s)
          else (Ok (), ws_open cd Client (s\<lparr>ws_pmd_config := read_offer (h_fields res)\<rparr>)))"

text \<open>\<open>websocket::is_upgrade\<close>, for the programs that read the request themselves.\<close>

definition ws_is_upgrade :: "http_header \<Rightarrow> ('e, bool) outcome" where
  "ws_is_upgrade req =
     (if h_version req < 11 then Ok False
      else if header_method req \<noteq> ''GET'' then Ok False
      else ob (msg_is_upgrade req) (\<lambda>upgrade.
        if \<not> upgrade then Ok False
        else if \<not> has_token req ''Upgrade'' ''websocket'' then Ok False
        else if \<not> fields_exists (h_fields req) ''Sec-WebSocket-Version'' then Ok False
        else Ok True))"

section \<open>Keys are text\<close>

definition key_char :: "char \<Rightarrow> bool" where
  "key_char c \<longleftrightarrow> parser_is_text c \<and> \<not> is_ows c"

lemma b64_key_char: "i < 64 \<Longrightarrow> key_char (b64_char i)"
proof -
  have "list_all (\<lambda>n. key_char (alphabet ! n)) [0..<64]" by code_simp
  moreover assume "i < 64"
  then have "unat i < 64" by (simp add: word_less_nat_alt)
  ultimately show ?thesis by (auto simp: list_all_iff b64_char_def)
qed

lemma encode_key_chars: "list_all key_char (encode s)"
proof -
  have "key_char (CHR ''='')" by code_simp
  then show ?thesis by (induction s rule: encode.induct) (simp_all add: b64_key_char six_bits six_bits [simplified])
qed

lemma key_chars_text: "list_all key_char s \<Longrightarrow> list_all parser_is_text s \<and> trim s = s"
  using trim_chars [of s] by (auto simp: list_all_iff key_char_def)

lemma key_draws_ok:
  "maskgen_ok g \<Longrightarrow> \<exists>a g'. key_draws n g = Ok (a, g') \<and> length a = 4 * n \<and> maskgen_ok g'"
proof (induction n arbitrary: g)
  case (Suc n)
  from Suc.IH [OF minstd_next_ok [OF Suc.prems]] show ?case
    by (force simp: maskgen_call_Some(1) [OF Suc.prems])
qed simp

lemma make_sec_ws_key_ok:
  assumes "maskgen_ok g"
  obtains key g' where "make_sec_ws_key g = Ok (key, g')" "length key = sec_ws_key_size"
    "list_all key_char key" "maskgen_ok g'"
proof -
  from key_draws_ok [OF assms, of 4] obtain a g' where
    "key_draws 4 g = (Ok (a, g') :: ('a, bytes \<times> maskgen) outcome)" "length a = 16" "maskgen_ok g'" by auto
  then show thesis
    by (intro that [of "encode a" g'])
      (simp_all add: make_sec_ws_key_def length_encode sec_ws_key_size_def encode_key_chars)
qed

text \<open>The accept value is the one of RFC 6455, section 4.2.2.\<close>

definition rfc_accept :: "string \<Rightarrow> string" where
  "rfc_accept key = encode (rfc3174 (char_octets (key @ ws_guid)))"

lemma make_sec_ws_accept_ok: "length key \<le> sec_ws_key_size \<Longrightarrow> make_sec_ws_accept key = Ok (rfc_accept key)"
proof -
  have "sha1_holds (sha1_init sha1_uninit) []" by (rule sha1_init_holds) (simp add: sha1_uninit_def)
  from sha1_finish_holds [OF sha1_update_holds [OF this]]
  show "length key \<le> sec_ws_key_size \<Longrightarrow> make_sec_ws_accept key = Ok (rfc_accept key)"
    by (simp add: make_sec_ws_accept_def rfc_accept_def Let_def)
qed

lemma rfc_accept_text: "list_all parser_is_text (rfc_accept key) \<and> trim (rfc_accept key) = rfc_accept key"
  unfolding rfc_accept_def by (rule key_chars_text [OF encode_key_chars])

section \<open>Looking fields up by the text of a message\<close>

definition entry_at :: "(string \<times> string) list \<Rightarrow> string \<Rightarrow> string" where
  "entry_at es n = (case find (has_name n) es of None \<Rightarrow> [] | Some p \<Rightarrow> snd p)"

definition entry_has :: "(string \<times> string) list \<Rightarrow> string \<Rightarrow> bool" where
  "entry_has es n \<longleftrightarrow> (\<exists>p \<in> set es. has_name n p)"

lemma entry_simps [simp]:
  "entry_at [] n = []" "\<not> entry_has [] n"
  "entry_at ((m, v) # es) n = (if ci_equal n m then v else entry_at es n)"
  "entry_has ((m, v) # es) n \<longleftrightarrow> ci_equal n m \<or> entry_has es n"
  by (auto simp: entry_at_def entry_has_def has_name_def)

lemma entry_append:
  "entry_has (es @ fs) n \<longleftrightarrow> entry_has es n \<or> entry_has fs n"
  "entry_at (es @ fs) n = (if entry_has es n then entry_at es n else entry_at fs n)"
  by (induction es) auto

lemma entry_lookup:
  assumes "fields_inv f"
  shows "fields_at f n = entry_at (fields_entries f) n" "fields_exists f n \<longleftrightarrow> entry_has (fields_entries f) n"
  using assms by (simp_all add: entry_at_def entry_has_def fm.at_find fm.exists_entry)

text \<open>Names of fields that are written.\<close>

definition plain_name :: "string \<Rightarrow> bool" where
  "plain_name n \<longleftrightarrow> n \<noteq> [] \<and> hd n \<noteq> CHR '':''"

lemma plain_hidden: "plain_name n \<Longrightarrow> ci_equal n m \<Longrightarrow> m \<noteq> [] \<and> hd m \<noteq> CHR '':''"
proof -
  assume n: "plain_name n" and "ci_equal n m"
  then have eq: "map c_tolower n = map c_tolower m" by (simp add: ci_equal_map)
  with n have m: "m \<noteq> []" by (auto simp: plain_name_def)
  have "c_tolower (hd n) = c_tolower (hd m)" using eq m n by (metis hd_map plain_name_def)
  moreover have "c_tolower (CHR '':'') = CHR '':''" by code_simp
  moreover have "c_tolower c \<noteq> CHR '':''" if "c \<noteq> CHR '':''" for c
  proof
    assume "c_tolower c = CHR '':''"
    then have "octet (c_tolower c) = 58" by (simp add: octet_def)
    then have "octet c = 58"
      by (simp add: c_tolower_def ascii_lower_def split: if_splits)
    then show False using that octet_inj [of c "CHR '':''"] by (simp add: octet_def)
  qed
  ultimately show ?thesis using n m by (metis plain_name_def)
qed

lemma shown_lookup:
  assumes "plain_name n"
  shows "entry_at (shown es) n = entry_at es n" "entry_has (shown es) n \<longleftrightarrow> entry_has es n"
proof -
  have "entry_at (shown es) n = entry_at es n \<and> (entry_has (shown es) n \<longleftrightarrow> entry_has es n)"
    using plain_hidden [OF assms] by (induction es) (auto simp: shown_def)
  then show "entry_at (shown es) n = entry_at es n" "entry_has (shown es) n \<longleftrightarrow> entry_has es n" by simp_all
qed

lemma visible_lookup:
  assumes "fields_inv (h_fields m)" "plain_name n"
  shows "fields_at (h_fields m) n = entry_at (visible m) n"
    "fields_exists (h_fields m) n \<longleftrightarrow> entry_has (visible m) n"
  using assms by (simp_all add: visible_def entry_lookup shown_lookup)

section \<open>Names\<close>

lemma same_length_names:
  "c_tolower (CHR ''C'') \<noteq> c_tolower (CHR ''U'')" "c_tolower (CHR ''T'') \<noteq> c_tolower (CHR ''S'')"
  "c_tolower (CHR ''U'') \<noteq> c_tolower (CHR '':'')"
  by code_simp+

lemma apart_names:
  "\<not> ci_equal ''Connection'' ''Content-Length''" "\<not> ci_equal ''Connection'' ''Transfer-Encoding''"
  "\<not> ci_equal ''Connection'' ''Server''" "\<not> ci_equal ''Connection'' ''User-Agent''"
  "\<not> ci_equal ''Connection'' ''Upgrade''" "\<not> ci_equal ''Connection'' ''Sec-WebSocket-Accept''"
  "\<not> ci_equal ''Connection'' ''Sec-WebSocket-Extensions''" "\<not> ci_equal ''Connection'' ''Host''"
  "\<not> ci_equal ''Connection'' ''Sec-WebSocket-Key''" "\<not> ci_equal ''Connection'' ''Sec-WebSocket-Version''"
  "\<not> ci_equal ''Connection'' '':reason''" "\<not> ci_equal ''Connection'' '':method''"
  "\<not> ci_equal ''Connection'' '':target''" "\<not> ci_equal ''Content-Length'' ''Connection''"
  "\<not> ci_equal ''Content-Length'' ''Transfer-Encoding''" "\<not> ci_equal ''Content-Length'' ''Server''"
  "\<not> ci_equal ''Content-Length'' ''User-Agent''" "\<not> ci_equal ''Content-Length'' ''Upgrade''"
  "\<not> ci_equal ''Content-Length'' ''Sec-WebSocket-Accept''" "\<not> ci_equal ''Content-Length'' ''Sec-WebSocket-Extensions''"
  "\<not> ci_equal ''Content-Length'' ''Host''" "\<not> ci_equal ''Content-Length'' ''Sec-WebSocket-Key''"
  "\<not> ci_equal ''Content-Length'' ''Sec-WebSocket-Version''" "\<not> ci_equal ''Content-Length'' '':reason''"
  "\<not> ci_equal ''Content-Length'' '':method''" "\<not> ci_equal ''Content-Length'' '':target''"
  "\<not> ci_equal ''Transfer-Encoding'' ''Connection''" "\<not> ci_equal ''Transfer-Encoding'' ''Content-Length''"
  "\<not> ci_equal ''Transfer-Encoding'' ''Server''" "\<not> ci_equal ''Transfer-Encoding'' ''User-Agent''"
  "\<not> ci_equal ''Transfer-Encoding'' ''Upgrade''" "\<not> ci_equal ''Transfer-Encoding'' ''Sec-WebSocket-Accept''"
  "\<not> ci_equal ''Transfer-Encoding'' ''Sec-WebSocket-Extensions''" "\<not> ci_equal ''Transfer-Encoding'' ''Host''"
  "\<not> ci_equal ''Transfer-Encoding'' ''Sec-WebSocket-Key''" "\<not> ci_equal ''Transfer-Encoding'' ''Sec-WebSocket-Version''"
  "\<not> ci_equal ''Transfer-Encoding'' '':reason''" "\<not> ci_equal ''Transfer-Encoding'' '':method''"
  "\<not> ci_equal ''Transfer-Encoding'' '':target''" "\<not> ci_equal ''Server'' ''Connection''"
  "\<not> ci_equal ''Server'' ''Content-Length''" "\<not> ci_equal ''Server'' ''Transfer-Encoding''"
  "\<not> ci_equal ''Server'' ''User-Agent''" "\<not> ci_equal ''Server'' ''Upgrade''"
  "\<not> ci_equal ''Server'' ''Sec-WebSocket-Accept''" "\<not> ci_equal ''Server'' ''Sec-WebSocket-Extensions''"
  "\<not> ci_equal ''Server'' ''Host''" "\<not> ci_equal ''Server'' ''Sec-WebSocket-Key''"
  "\<not> ci_equal ''Server'' ''Sec-WebSocket-Version''" "\<not> ci_equal ''Server'' '':reason''"
  "\<not> ci_equal ''Server'' '':method''" "\<not> ci_equal ''Server'' '':target''"
  "\<not> ci_equal ''User-Agent'' ''Connection''" "\<not> ci_equal ''User-Agent'' ''Content-Length''"
  "\<not> ci_equal ''User-Agent'' ''Transfer-Encoding''" "\<not> ci_equal ''User-Agent'' ''Server''"
  "\<not> ci_equal ''User-Agent'' ''Upgrade''" "\<not> ci_equal ''User-Agent'' ''Sec-WebSocket-Accept''"
  "\<not> ci_equal ''User-Agent'' ''Sec-WebSocket-Extensions''" "\<not> ci_equal ''User-Agent'' ''Host''"
  "\<not> ci_equal ''User-Agent'' ''Sec-WebSocket-Key''" "\<not> ci_equal ''User-Agent'' ''Sec-WebSocket-Version''"
  "\<not> ci_equal ''User-Agent'' '':reason''" "\<not> ci_equal ''User-Agent'' '':method''"
  "\<not> ci_equal ''User-Agent'' '':target''" "\<not> ci_equal ''Upgrade'' ''Connection''"
  "\<not> ci_equal ''Upgrade'' ''Content-Length''" "\<not> ci_equal ''Upgrade'' ''Transfer-Encoding''"
  "\<not> ci_equal ''Upgrade'' ''Server''" "\<not> ci_equal ''Upgrade'' ''User-Agent''"
  "\<not> ci_equal ''Upgrade'' ''Sec-WebSocket-Accept''" "\<not> ci_equal ''Upgrade'' ''Sec-WebSocket-Extensions''"
  "\<not> ci_equal ''Upgrade'' ''Host''" "\<not> ci_equal ''Upgrade'' ''Sec-WebSocket-Key''"
  "\<not> ci_equal ''Upgrade'' ''Sec-WebSocket-Version''" "\<not> ci_equal ''Upgrade'' '':reason''"
  "\<not> ci_equal ''Upgrade'' '':method''" "\<not> ci_equal ''Upgrade'' '':target''"
  "\<not> ci_equal ''Sec-WebSocket-Accept'' ''Connection''" "\<not> ci_equal ''Sec-WebSocket-Accept'' ''Content-Length''"
  "\<not> ci_equal ''Sec-WebSocket-Accept'' ''Transfer-Encoding''" "\<not> ci_equal ''Sec-WebSocket-Accept'' ''Server''"
  "\<not> ci_equal ''Sec-WebSocket-Accept'' ''User-Agent''" "\<not> ci_equal ''Sec-WebSocket-Accept'' ''Upgrade''"
  "\<not> ci_equal ''Sec-WebSocket-Accept'' ''Sec-WebSocket-Extensions''" "\<not> ci_equal ''Sec-WebSocket-Accept'' ''Host''"
  "\<not> ci_equal ''Sec-WebSocket-Accept'' ''Sec-WebSocket-Key''" "\<not> ci_equal ''Sec-WebSocket-Accept'' ''Sec-WebSocket-Version''"
  "\<not> ci_equal ''Sec-WebSocket-Accept'' '':reason''" "\<not> ci_equal ''Sec-WebSocket-Accept'' '':method''"
  "\<not> ci_equal ''Sec-WebSocket-Accept'' '':target''" "\<not> ci_equal ''Sec-WebSocket-Extensions'' ''Connection''"
  "\<not> ci_equal ''Sec-WebSocket-Extensions'' ''Content-Length''" "\<not> ci_equal ''Sec-WebSocket-Extensions'' ''Transfer-Encoding''"
  "\<not> ci_equal ''Sec-WebSocket-Extensions'' ''Server''" "\<not> ci_equal ''Sec-WebSocket-Extensions'' ''User-Agent''"
  "\<not> ci_equal ''Sec-WebSocket-Extensions'' ''Upgrade''" "\<not> ci_equal ''Sec-WebSocket-Extensions'' ''Sec-WebSocket-Accept''"
  "\<not> ci_equal ''Sec-WebSocket-Extensions'' ''Host''" "\<not> ci_equal ''Sec-WebSocket-Extensions'' ''Sec-WebSocket-Key''"
  "\<not> ci_equal ''Sec-WebSocket-Extensions'' ''Sec-WebSocket-Version''" "\<not> ci_equal ''Sec-WebSocket-Extensions'' '':reason''"
  "\<not> ci_equal ''Sec-WebSocket-Extensions'' '':method''" "\<not> ci_equal ''Sec-WebSocket-Extensions'' '':target''"
  "\<not> ci_equal ''Host'' ''Connection''" "\<not> ci_equal ''Host'' ''Content-Length''"
  "\<not> ci_equal ''Host'' ''Transfer-Encoding''" "\<not> ci_equal ''Host'' ''Server''"
  "\<not> ci_equal ''Host'' ''User-Agent''" "\<not> ci_equal ''Host'' ''Upgrade''"
  "\<not> ci_equal ''Host'' ''Sec-WebSocket-Accept''" "\<not> ci_equal ''Host'' ''Sec-WebSocket-Extensions''"
  "\<not> ci_equal ''Host'' ''Sec-WebSocket-Key''" "\<not> ci_equal ''Host'' ''Sec-WebSocket-Version''"
  "\<not> ci_equal ''Host'' '':reason''" "\<not> ci_equal ''Host'' '':method''"
  "\<not> ci_equal ''Host'' '':target''" "\<not> ci_equal ''Sec-WebSocket-Key'' ''Connection''"
  "\<not> ci_equal ''Sec-WebSocket-Key'' ''Content-Length''" "\<not> ci_equal ''Sec-WebSocket-Key'' ''Transfer-Encoding''"
  "\<not> ci_equal ''Sec-WebSocket-Key'' ''Server''" "\<not> ci_equal ''Sec-WebSocket-Key'' ''User-Agent''"
  "\<not> ci_equal ''Sec-WebSocket-Key'' ''Upgrade''" "\<not> ci_equal ''Sec-WebSocket-Key'' ''Sec-WebSocket-Accept''"
  "\<not> ci_equal ''Sec-WebSocket-Key'' ''Sec-WebSocket-Extensions''" "\<not> ci_equal ''Sec-WebSocket-Key'' ''Host''"
  "\<not> ci_equal ''Sec-WebSocket-Key'' ''Sec-WebSocket-Version''" "\<not> ci_equal ''Sec-WebSocket-Key'' '':reason''"
  "\<not> ci_equal ''Sec-WebSocket-Key'' '':method''" "\<not> ci_equal ''Sec-WebSocket-Key'' '':target''"
  "\<not> ci_equal ''Sec-WebSocket-Version'' ''Connection''" "\<not> ci_equal ''Sec-WebSocket-Version'' ''Content-Length''"
  "\<not> ci_equal ''Sec-WebSocket-Version'' ''Transfer-Encoding''" "\<not> ci_equal ''Sec-WebSocket-Version'' ''Server''"
  "\<not> ci_equal ''Sec-WebSocket-Version'' ''User-Agent''" "\<not> ci_equal ''Sec-WebSocket-Version'' ''Upgrade''"
  "\<not> ci_equal ''Sec-WebSocket-Version'' ''Sec-WebSocket-Accept''" "\<not> ci_equal ''Sec-WebSocket-Version'' ''Sec-WebSocket-Extensions''"
  "\<not> ci_equal ''Sec-WebSocket-Version'' ''Host''" "\<not> ci_equal ''Sec-WebSocket-Version'' ''Sec-WebSocket-Key''"
  "\<not> ci_equal ''Sec-WebSocket-Version'' '':reason''" "\<not> ci_equal ''Sec-WebSocket-Version'' '':method''"
  "\<not> ci_equal ''Sec-WebSocket-Version'' '':target''"
  by (simp_all add: ci_equal_map same_length_names same_length_names [symmetric])

lemma plain_names:
  "plain_name ''Connection''" "plain_name ''Content-Length''" "plain_name ''Transfer-Encoding''"
  "plain_name ''Server''" "plain_name ''User-Agent''" "plain_name ''Upgrade''"
  "plain_name ''Sec-WebSocket-Accept''" "plain_name ''Sec-WebSocket-Extensions''" "plain_name ''Host''"
  "plain_name ''Sec-WebSocket-Key''" "plain_name ''Sec-WebSocket-Version''"
  by (simp_all add: plain_name_def)

section \<open>What the server answers\<close>

lemma visible_put:
  "visible (put_field n v m) = visible m @ shown [(n, trim v)]"
  by (simp add: visible_def shown_def fields_entries_insert)

lemma shown_plain: "plain_name n \<Longrightarrow> shown [(n, v)] = [(n, v)]"
  by (simp add: shown_def plain_name_def)

lemma header_init_facts:
  "fields_inv (h_fields header_init)" "visible header_init = []" "h_fields header_init = fields_init"
  by (simp_all add: header_init_def fields_inv_init visible_def fields_init_entries shown_def)

lemma visible_replace:
  assumes "fields_inv (h_fields m)" "n \<noteq> []" "hd n = CHR '':''"
  shows "visible (on_fields (fields_replace n v) m) = visible m"
proof -
  have "\<not> has_name n p" if "fst p = [] \<or> hd (fst p) \<noteq> CHR '':''" for p
  proof
    assume "has_name n p"
    then have eq: "ci_equal (fst p) n" by (simp add: has_name_def ci_equal_map)
    with assms(2) have "fst p \<noteq> []" by (auto simp: ci_equal_map)
    with that have "plain_name (fst p)" by (simp add: plain_name_def)
    with plain_hidden [OF this eq] assms(3) show False by simp
  qed
  then have "shown (filter (\<lambda>p. \<not> has_name n p) es) = shown es" for es
    by (induction es) (auto simp: shown_def)
  then show ?thesis
    using assms by (simp add: visible_def replace_entries) (simp add: shown_def)
qed

lemma on_fields_replace_inv:
  "fields_inv (h_fields m) \<Longrightarrow> fields_inv (h_fields (on_fields (fields_replace n v) m))"
  by (simp add: replace_inv)

text \<open>\<open>prepare\<close> on the response of an error.\<close>

lemma prepare_error_response:
  assumes inv: "fields_inv (h_fields m)" and status: "h_status m = 400 \<or> h_status m = 426"
    and none: "\<not> entry_has (visible m) ''Connection''" "\<not> entry_has (visible m) ''Content-Length''"
      "\<not> entry_has (visible m) ''Transfer-Encoding''"
  shows "prepare False (Some n) [] m = (Ok (), put_field ''Content-Length'' (dec_string (unat n)) m)"
proof -
  note look = visible_lookup [OF inv]
  have "\<not> fields_exists (h_fields m) ''Connection''" "\<not> fields_exists (h_fields m) ''Content-Length''"
    "\<not> fields_exists (h_fields m) ''Transfer-Encoding''"
    using none by (simp_all add: look plain_names)
  then show ?thesis
    using inv status
    by (auto simp: prepare_def prepare_options_def set_framing_def set_length_def set_connection_def Let_def
        has_token_def fm.at_missing fm.inv_insert fm.exists_insert apart_names token_values)
qed

lemma response_start_eq:
  "(set_reason re (header_init\<lparr>h_status := st\<rparr>))\<lparr>h_version := v\<rparr> = response_start st re v"
  by (simp add: response_start_def set_reason_def on_fields_def)

lemma status_texts:
  "reason_string 400 = ''Bad Request''" "reason_string 426 = ''<unknown-status>''"
  "reason_string 101 = ''Switching Protocols''"
  by (simp_all add: reason_string_def)

lemma good_statuses:
  assumes "v = 10 \<or> v = 11"
  shows "good_response 400 (reason_string 400) v" "good_response 426 (reason_string 426) v"
    "good_response 101 (reason_string 101) v"
proof -
  have t: "list_all parser_is_text ''Bad Request''" "list_all parser_is_text ''<unknown-status>''"
    "list_all parser_is_text ''Switching Protocols''" by code_simp+
  have "trim ''Bad Request'' = ''Bad Request''" "trim ''<unknown-status>'' = ''<unknown-status>''"
    "trim ''Switching Protocols'' = ''Switching Protocols''" by (rule trim_id, simp add: is_ows_def)+
  with t assms show "good_response 400 (reason_string 400) v" "good_response 426 (reason_string 426) v"
    "good_response 101 (reason_string 101) v"
    by (simp_all add: good_response_def status_texts)
qed

lemma value_texts:
  "trim ''13'' = ''13''" "trim beast_version = beast_version" "trim ''websocket'' = ''websocket''"
  "trim ''upgrade'' = ''upgrade''" "trim ''GET'' = ''GET''"
  by (rule trim_id, simp add: is_ows_def beast_version_def)+

lemma error_response_fields:
  assumes fs: "status = 400 \<and> fs = [] \<or> status = 426 \<and> fs = [(''Sec-WebSocket-Version'', ''13'')]"
    and v: "v = 10 \<or> v = 11"
  shows "\<exists>res. error_response (\<lambda>r. r) status v fs text = Ok (res, text) \<and> fields_inv (h_fields res) \<and>
    h_version res = v \<and> h_status res = status \<and>
    visible res = fs @ [(''Content-Length'', dec_string (unat (of_nat (length text) :: u64))),
      (''Server'', beast_version)]"
proof -
  let ?s = "response_start status (reason_string status) v"
  let ?len = "dec_string (unat (of_nat (length text) :: u64))"
  define m where "m = put_fields fs ?s"
  have "good_response status (reason_string status) v" using fs good_statuses [OF v] by auto
  from response_start_fields [OF this]
  have s: "fields_inv (h_fields ?s)" "visible ?s = []" "h_version ?s = v" "h_status ?s = status"
    by (simp_all add: visible_def shown_def)
  then have m: "fields_inv (h_fields m)" "visible m = fs" "h_version m = v" "h_status m = status"
    using fs by (auto simp: m_def put_fields_def visible_put shown_plain plain_names fm.inv_insert value_texts)
  define r where "r = put_field ''Content-Length'' ?len m"
  have "prepare False (Some (of_nat (length text))) [] m = (Ok (), r)"
    unfolding r_def by (rule prepare_error_response) (use m fs in \<open>auto simp: apart_names\<close>)
  moreover have r: "fields_inv (h_fields r)" "visible r = fs @ [(''Content-Length'', ?len)]" "h_version r = v"
    "h_status r = status"
    using m by (simp_all add: r_def fm.inv_insert visible_put shown_plain plain_names)
  moreover have "\<not> fields_exists (h_fields r) ''Server''"
    using fs by (auto simp: visible_lookup [OF r(1)] plain_names r(2) entry_append apart_names)
  ultimately show ?thesis
    by (simp add: error_response_def decorate_def Let_def response_start_eq m_def [symmetric] fm.inv_insert
        visible_put shown_plain plain_names value_texts)
qed

lemma on_fields_id: "on_fields (\<lambda>f. f) m = m"
  by (simp add: on_fields_def)

lemma fields_init_inv: "fields_inv (h_fields (on_fields (fields_replace n v) header_init))"
  by (simp add: header_init_facts(3) replace_inv fields_inv_init)

lemma replace_at:
  assumes "fields_inv f"
  shows "fields_at (fields_replace n v f) n = trim v" "fields_exists (fields_replace n v f) n"
proof -
  have "\<not> entry_has (filter (\<lambda>p. \<not> has_name n p) es) n" for es
    by (simp add: entry_has_def)
  with assms show "fields_at (fields_replace n v f) n = trim v" "fields_exists (fields_replace n v f) n"
    by (simp_all add: entry_lookup replace_inv replace_entries entry_append)
qed

text \<open>The extension field of a response, when the server negotiates one.\<close>

definition ext_fields :: "string option \<Rightarrow> (string \<times> string) list" where
  "ext_fields s = (case s of None \<Rightarrow> [] | Some s \<Rightarrow> [(ext_field, trim s)])"

lemma accept_response_fields:
  assumes v: "h_version req = 10 \<or> h_version req = 11"
    and key: "length (fields_at (h_fields req) ''Sec-WebSocket-Key'') \<le> sec_ws_key_size"
  shows "\<exists>res. accept_response (\<lambda>r. r) po req = (Ok (res, []) :: ('e, response) outcome) \<and> fields_inv (h_fields res) \<and>
    h_version res = h_version req \<and> h_status res = 101 \<and> header_reason res = reason_string 101 \<and>
    visible res = ext_fields (fst (pmd_negotiate pmd_none (read_offer (h_fields req)) po)) @
      [(''Upgrade'', ''websocket''), (''Connection'', ''upgrade''),
       (''Sec-WebSocket-Accept'', rfc_accept (fields_at (h_fields req) ''Sec-WebSocket-Key'')),
       (''Server'', beast_version)]"
proof -
  let ?ext = "fst (pmd_negotiate pmd_none (read_offer (h_fields req)) po)"
  let ?accept = "rfc_accept (fields_at (h_fields req) ''Sec-WebSocket-Key'')"
  define m0 where "m0 = on_fields (\<lambda>f. fst (negotiate_fields pmd_none (read_offer (h_fields req)) po f)) header_init"
  have m0: "fields_inv (h_fields m0)" "visible m0 = ext_fields ?ext"
    by (auto simp: m0_def negotiate_fields_def on_fields_id header_init_facts ext_fields_def visible_def
        replace_inv fields_inv_init replace_entries fields_init_entries split: prod.split option.split)
      (auto simp: shown_def ext_field_def)
  define m1 where "m1 = (set_reason (reason_string 101) (m0\<lparr>h_status := 101\<rparr>))\<lparr>h_version := h_version req\<rparr>"
  have m1: "fields_inv (h_fields m1)" "visible m1 = ext_fields ?ext" "h_version m1 = h_version req" "h_status m1 = 101"
    "header_reason m1 = reason_string 101" "fields_exists (h_fields m1) '':reason''"
    using m0 replace_at [OF m0(1), of "'':reason''" "reason_string 101"] good_statuses(3) [of 10] visible_replace [of m0 "'':reason''" "reason_string 101"]
    by (simp_all add: m1_def set_reason_def replace_inv visible_def on_fields_def header_reason_def good_response_def)
  define m2 where "m2 = put_field ''Sec-WebSocket-Accept'' ?accept
    (put_field ''Connection'' ''upgrade'' (put_field ''Upgrade'' ''websocket'' m1))"
  have m2: "fields_inv (h_fields m2)" "h_version m2 = h_version req" "h_status m2 = 101"
    "visible m2 = ext_fields ?ext @ [(''Upgrade'', ''websocket''), (''Connection'', ''upgrade''),
       (''Sec-WebSocket-Accept'', ?accept)]"
    "header_reason m2 = reason_string 101" "fields_exists (h_fields m2) '':reason''"
    using m1 rfc_accept_text [of "fields_at (h_fields req) ''Sec-WebSocket-Key''"]
    by (simp_all add: m2_def fm.inv_insert visible_put shown_plain plain_names value_texts header_reason_def
        fm.at_insert fm.exists_insert)
  have "\<not> fields_exists (h_fields m2) ''Server''"
    by (simp add: visible_lookup [OF m2(1)] plain_names m2(4) entry_append apart_names ext_fields_def ext_field_def
        split: option.split)
  moreover have "accept_response (\<lambda>r. r) po req = (Ok (decorate (\<lambda>r. r) (m2, [])) :: ('e, response) outcome)"
    by (simp only: accept_response_def Let_def m0_def m1_def m2_def make_sec_ws_accept_ok [OF key] ob_simps)
  ultimately show ?thesis
    using m2 by (simp add: decorate_def Let_def fm.inv_insert visible_put shown_plain plain_names value_texts
        header_reason_def fm.at_insert)
qed

text \<open>The requests a server upgrades.\<close>

definition upgrade_request :: "http_header \<Rightarrow> bool" where
  "upgrade_request req \<longleftrightarrow> h_version req = 11 \<and> header_method req = ''GET'' \<and>
     has_token req ''Connection'' ''upgrade'' \<and> has_token req ''Upgrade'' ''websocket'' \<and>
     fields_exists (h_fields req) ''Host'' \<and> fields_exists (h_fields req) ''Sec-WebSocket-Key'' \<and>
     length (fields_at (h_fields req) ''Sec-WebSocket-Key'') \<le> sec_ws_key_size \<and>
     fields_at (h_fields req) ''Sec-WebSocket-Version'' \<noteq> []"


lemma validate_single: "s \<noteq> [] \<Longrightarrow> list_all is_tchar s \<Longrightarrow> validate_list s"
proof -
  assume s: "s \<noteq> []" "list_all is_tchar s"
  then have "CHR '','' \<notin> set s" using special_chars(7) by (auto simp: list_all_iff)
  moreover have "trim s = s" using s by (intro tchars_trim)
  ultimately show ?thesis
    using s list_run_spec [of s]
    by (simp add: validate_list_run list_well_formed_def good_piece_def split_commas_last)
qed

lemma handshake_names:
  "list_all is_tchar ''Connection''" "list_all is_tchar ''Content-Length''" "list_all is_tchar ''Server''"
  "list_all is_tchar ''User-Agent''" "list_all is_tchar ''Upgrade''" "list_all is_tchar ''Sec-WebSocket-Accept''"
  "list_all is_tchar ''Sec-WebSocket-Extensions''" "list_all is_tchar ''Host''"
  "list_all is_tchar ''Sec-WebSocket-Key''" "list_all is_tchar ''Sec-WebSocket-Version''"
  by code_simp+

lemma field_kinds:
  "connection_field ''Connection''" "\<not> connection_field ''Content-Length''" "\<not> connection_field ''Server''"
  "\<not> connection_field ''User-Agent''" "\<not> connection_field ''Upgrade''"
  "\<not> connection_field ''Sec-WebSocket-Accept''" "\<not> connection_field ''Sec-WebSocket-Extensions''"
  "\<not> connection_field ''Host''" "\<not> connection_field ''Sec-WebSocket-Key''"
  "\<not> connection_field ''Sec-WebSocket-Version''"
  by code_simp+

lemma handshake_values:
  "list_all parser_is_text ''upgrade''" "list_all parser_is_text ''websocket''" "list_all parser_is_text ''13''"
  "list_all parser_is_text beast_version"
  by code_simp+

lemma good_handshake_fields:
  "good_field (''Connection'', ''upgrade'')" "good_field (''Upgrade'', ''websocket'')"
  "good_field (''Sec-WebSocket-Version'', ''13'')" "good_field (''Server'', beast_version)"
  "good_field (''User-Agent'', beast_version)"
  "list_all parser_is_text v \<Longrightarrow> trim v = v \<Longrightarrow> good_field (''Host'', v)"
  "list_all parser_is_text v \<Longrightarrow> trim v = v \<Longrightarrow> good_field (''Sec-WebSocket-Key'', v)"
  "list_all parser_is_text v \<Longrightarrow> trim v = v \<Longrightarrow> good_field (''Sec-WebSocket-Accept'', v)"
  "list_all parser_is_text v \<Longrightarrow> trim v = v \<Longrightarrow> good_field (''Sec-WebSocket-Extensions'', v)"
  by (simp_all add: good_field_def handshake_names field_kinds handshake_values value_texts validate_single
      tokens_chars del: list.pred_inject)

lemma unframed_names:
  "\<not> strieq ''content-length'' n \<and> \<not> strieq ''transfer-encoding'' n"
  if "n \<in> {''Connection'', ''Server'', ''User-Agent'', ''Upgrade'', ''Sec-WebSocket-Accept'',
    ''Sec-WebSocket-Extensions'', ''Host'', ''Sec-WebSocket-Key'', ''Sec-WebSocket-Version''}"
proof -
  have "list_all (\<lambda>n. \<not> strieq ''content-length'' n \<and> \<not> strieq ''transfer-encoding'' n)
    [''Connection'', ''Server'', ''User-Agent'', ''Upgrade'', ''Sec-WebSocket-Accept'',
    ''Sec-WebSocket-Extensions'', ''Host'', ''Sec-WebSocket-Key'', ''Sec-WebSocket-Version'']"
    by code_simp
  with that show ?thesis by auto
qed


end
